(* ===== verification/Py_Prelude.thy ===== *)
theory Py_Prelude
  imports Complex_Main "HOL-Library.AList" "HOL-Library.Sublist"
    "HOL-Library.Char_ord" "HOL-Library.List_Lexorder"
begin

text \<open>
  The language layer every component theory shares: the dynamic values that the
  package stores in Aerospike bins, dictionaries with Python's insertion order, the
  exceptions the package raises or lets through, and the state-and-exception monad in
  which the methods of the service classes are written.

  A Python \<open>str\<close> is a \<^typ>\<open>string\<close> that holds its UTF-8 encoding, so
  prefix tests, concatenation and the byte order in which Aerospike sorts map keys are
  those of the list of bytes.
\<close>

section \<open>Values and dictionaries\<close>

datatype pyval =
    PNone
  | PBool bool
  | PInt int
  | PFloat rat
  | PStr string
  | PBytes string
  | PList "pyval list"
  | PDict "(string \<times> pyval) list"

type_synonym ('k, 'v) pydict = "('k \<times> 'v) list"
type_synonym dict = "(string, pyval) pydict"

text \<open>\<open>d[k] = v\<close> keeps the position of a key that is present and appends a new one,
  as \<^const>\<open>AList.update\<close> does; \<open>d.update(e)\<close> does so for every item of \<open>e\<close>.\<close>

definition dget :: "('k, 'v) pydict \<Rightarrow> 'k \<Rightarrow> 'v \<Rightarrow> 'v" where
  "dget d k v = (case map_of d k of None \<Rightarrow> v | Some w \<Rightarrow> w)"

definition dset :: "'k \<Rightarrow> 'v \<Rightarrow> ('k, 'v) pydict \<Rightarrow> ('k, 'v) pydict" where
  "dset k v d = AList.update k v d"

definition ddel :: "'k \<Rightarrow> ('k, 'v) pydict \<Rightarrow> ('k, 'v) pydict" where
  "ddel k d = AList.delete k d"

fun dupdate :: "('k, 'v) pydict \<Rightarrow> ('k, 'v) pydict \<Rightarrow> ('k, 'v) pydict" where
  "dupdate d [] = d"
| "dupdate d ((k, v) # e) = dupdate (dset k v d) e"

lemma map_of_dset [simp]: "map_of (dset k v d) = (map_of d)(k \<mapsto> v)"
  by (simp add: dset_def update_conv')

lemma map_of_ddel [simp]: "map_of (ddel k d) = (map_of d)(k := None)"
  by (simp add: ddel_def delete_conv')

lemma distinct_dset [simp]: "distinct (map fst (dset k v d)) = distinct (map fst d)"
proof
  show "distinct (map fst d) \<Longrightarrow> distinct (map fst (dset k v d))"
    by (simp add: dset_def distinct_update)
  show "distinct (map fst (dset k v d)) \<Longrightarrow> distinct (map fst d)"
    by (induction d) (auto simp: dset_def update_keys split: if_splits)
qed

lemma dom_dset [simp]: "fst ` set (dset k v d) = insert k (fst ` set d)"
  using map_of_dset[of k v d] by (metis dom_fun_upd dom_map_of_conv_image_fst option.distinct(1))

lemma dget_dset [simp]: "dget (dset k v d) k' w = (if k = k' then v else dget d k' w)"
  by (simp add: dget_def)

lemma map_of_dupdate [simp]: "map_of (dupdate d e) = map_of d ++ map_of (rev e)"
proof (induction e arbitrary: d)
  case Nil
  then show ?case by simp
next
  case (Cons p e)
  then show ?case
    by (cases p) (auto simp: map_add_def fun_eq_iff split: option.splits)
qed

lemma map_of_rev_distinct: "distinct (map fst e) \<Longrightarrow> map_of (rev e) = map_of e"
  by (rule map_of_inject_set[THEN iffD2]) (simp_all add: rev_map[symmetric])

lemma distinct_dupdate [simp]: "distinct (map fst (dupdate d e)) = distinct (map fst d)"
  by (induction d e rule: dupdate.induct) simp_all

section \<open>Truth, coercions and attribute access\<close>

fun truthy :: "pyval \<Rightarrow> bool" where
  "truthy PNone = False"
| "truthy (PBool b) = b"
| "truthy (PInt i) = (i \<noteq> 0)"
| "truthy (PFloat r) = (r \<noteq> 0)"
| "truthy (PStr s) = (s \<noteq> [])"
| "truthy (PBytes s) = (s \<noteq> [])"
| "truthy (PList l) = (l \<noteq> [])"
| "truthy (PDict d) = (d \<noteq> [])"

text \<open>\<open>x or y\<close>, and \<open>d.get(k)\<close> with its default \<open>None\<close>.\<close>

definition py_or :: "pyval \<Rightarrow> pyval \<Rightarrow> pyval" where
  "py_or x y = (if truthy x then x else y)"

abbreviation pget :: "('k, pyval) pydict \<Rightarrow> 'k \<Rightarrow> pyval" where
  "pget d k \<equiv> dget d k PNone"

section \<open>Exceptions\<close>

text \<open>The exceptions of the \<open>aerospike\<close> client that the package names, with one
  constructor for every other status code, and the Python exceptions that the package
  raises itself or that a builtin raises on a value of the wrong type.\<close>

datatype ae_error =
    RecordNotFound
  | RecordExistsError
  | RecordTooBig
  | FilteredOut
  | DeviceOverload
  | MaxErrorRateExceeded
  | TimeoutError
  | IndexFoundError
  | AerospikeError int

datatype exn =
    AE ae_error
  | ValueError string
  | KeyError string
  | IndexError string
  | TypeError string
  | AttributeError string
  | RuntimeError string
  | InputValidationError string
  | UnicodeDecodeError
  | ValidationError string

type_synonym 'a exc = "exn + 'a"

definition ebind :: "'a exc \<Rightarrow> ('a \<Rightarrow> 'b exc) \<Rightarrow> 'b exc" where
  "ebind m f = (case m of Inl e \<Rightarrow> Inl e | Inr x \<Rightarrow> f x)"

lemma ebind_simps [simp]:
  "ebind (Inl e) f = Inl e"
  "ebind (Inr x) f = f x"
  by (simp_all add: ebind_def)

fun emap :: "('a \<Rightarrow> 'b exc) \<Rightarrow> 'a list \<Rightarrow> 'b list exc" where
  "emap f [] = Inr []"
| "emap f (x # xs) = ebind (f x) (\<lambda>y. ebind (emap f xs) (\<lambda>ys. Inr (y # ys)))"

lemma emap_ok: "(\<And>x. x \<in> set xs \<Longrightarrow> f (g x) = Inr (h x)) \<Longrightarrow> emap f (map g xs) = Inr (map h xs)"
  by (induction xs) auto

fun dict_items :: "pyval \<Rightarrow> dict exc" where
  "dict_items (PDict d) = Inr d"
| "dict_items v = Inl (AttributeError ''items'')"

fun list_items :: "pyval \<Rightarrow> pyval list exc" where
  "list_items (PList l) = Inr l"
| "list_items v = Inl (TypeError ''not a list'')"

fun str_of :: "pyval \<Rightarrow> string exc" where
  "str_of (PStr s) = Inr s"
| "str_of v = Inl (ValidationError ''not a string'')"

end
