(* ===== verification/Py_Format.thy ===== *)
theory Py_Format
  imports Py_Prelude
begin

text \<open>
  Decimal text: the \<open>{n:0Wd}\<close> format that the key builders use, \<open>int(s)\<close> on a
  string, and the two facts the storage layout rests on. Zero-padded numbers of one
  width compare as strings the way they compare as numbers, and a padded number can be
  read back.
\<close>

section \<open>Digits\<close>

definition is_digit :: "char \<Rightarrow> bool" where
  "is_digit c \<longleftrightarrow> 48 \<le> (of_char c :: nat) \<and> (of_char c :: nat) \<le> 57"

definition digit_char :: "nat \<Rightarrow> char" where
  "digit_char d = char_of (48 + d)"

definition digit_val :: "char \<Rightarrow> nat" where
  "digit_val c = of_char c - 48"

fun dec_nat :: "nat \<Rightarrow> string" where
  "dec_nat n = (if n < 10 then [digit_char n] else dec_nat (n div 10) @ [digit_char (n mod 10)])"

declare dec_nat.simps [simp del]

definition pad0 :: "nat \<Rightarrow> string \<Rightarrow> string" where
  "pad0 w s = replicate (w - length s) (CHR ''0'') @ s"

text \<open>\<open>f"{i:0Wd}"\<close>: the sign counts towards the width.\<close>

definition fmt_0d :: "nat \<Rightarrow> int \<Rightarrow> string" where
  "fmt_0d w i =
     (if i < 0 then CHR ''-'' # pad0 (w - 1) (dec_nat (nat (- i))) else pad0 w (dec_nat (nat i)))"

definition num_of :: "string \<Rightarrow> nat" where
  "num_of s = foldl (\<lambda>a c. 10 * a + digit_val c) 0 s"

lemma of_char_digit [simp]: "d < 10 \<Longrightarrow> of_char (digit_char d) = (48 + d :: nat)"
  by (simp add: digit_char_def)

lemma is_digit_digit_char [simp]: "d < 10 \<Longrightarrow> is_digit (digit_char d)"
  by (simp add: is_digit_def)

lemma digit_val_digit_char [simp]: "d < 10 \<Longrightarrow> digit_val (digit_char d) = d"
  by (simp add: digit_val_def)

lemma is_digit_zero [simp]: "is_digit (CHR ''0'')"
  by (simp add: is_digit_def)

lemma digit_val_zero [simp]: "digit_val (CHR ''0'') = 0"
  by (simp add: digit_val_def)

lemma digit_val_less: "is_digit c \<Longrightarrow> digit_val c < 10"
  unfolding is_digit_def digit_val_def by linarith

lemma digit_val_less_iff: "is_digit c \<Longrightarrow> is_digit d \<Longrightarrow> c < d \<longleftrightarrow> digit_val c < digit_val d"
  by (auto simp: is_digit_def digit_val_def less_char_def)

lemma digit_val_inj: "is_digit c \<Longrightarrow> is_digit d \<Longrightarrow> digit_val c = digit_val d \<Longrightarrow> c = d"
  unfolding is_digit_def digit_val_def by (rule of_char_eqI[where 'a = nat]) linarith

lemma dec_nat_digits: "\<forall>c \<in> set (dec_nat n). is_digit c"
proof (induction n rule: dec_nat.induct)
  case (1 n)
  then show ?case by (subst dec_nat.simps) auto
qed

lemma dec_nat_nonempty [simp]: "dec_nat n \<noteq> []"
  by (subst dec_nat.simps) simp

lemma num_of_snoc [simp]: "num_of (s @ [c]) = 10 * num_of s + digit_val c"
  by (simp add: num_of_def)

lemma num_of_Nil [simp]: "num_of [] = 0"
  by (simp add: num_of_def)

lemma num_of_append: "num_of (s @ t) = num_of s * 10 ^ length t + num_of t"
proof (induction t rule: rev_induct)
  case Nil
  then show ?case by simp
next
  case (snoc c t)
  then show ?case by (simp add: algebra_simps flip: append_assoc)
qed

lemma num_of_Cons: "num_of (c # s) = digit_val c * 10 ^ length s + num_of s"
  using num_of_append[of "[c]" s] num_of_snoc[of "[]" c] by simp

lemma num_of_dec_nat [simp]: "num_of (dec_nat n) = n"
proof (induction n rule: dec_nat.induct)
  case (1 n)
  show ?case
  proof (cases "n < 10")
    case True
    then show ?thesis by (subst dec_nat.simps) (simp add: num_of_Cons)
  next
    case False
    then have "dec_nat n = dec_nat (n div 10) @ [digit_char (n mod 10)]"
      by (subst dec_nat.simps) simp
    with 1[OF False] show ?thesis by simp
  qed
qed

lemma num_of_zeros [simp]: "num_of (replicate k (CHR ''0'') @ s) = num_of s"
  by (induction k) (simp_all add: num_of_Cons)

lemma num_of_less: "\<forall>c \<in> set s. is_digit c \<Longrightarrow> num_of s < 10 ^ length s"
proof (induction s)
  case Nil
  then show ?case by simp
next
  case (Cons c s)
  then have "digit_val c \<le> 9" using digit_val_less[of c] by simp
  then have "digit_val c * 10 ^ length s \<le> 9 * 10 ^ length s" by (rule mult_le_mono1)
  moreover have "num_of s < 10 ^ length s" using Cons by simp
  ultimately have "digit_val c * 10 ^ length s + num_of s < 9 * 10 ^ length s + 10 ^ length s"
    by (rule add_le_less_mono)
  then show ?case by (simp add: num_of_Cons)
qed

lemma length_dec_nat: "0 < w \<Longrightarrow> n < 10 ^ w \<Longrightarrow> length (dec_nat n) \<le> w"
proof (induction w arbitrary: n)
  case 0
  then show ?case by simp
next
  case (Suc w)
  show ?case
  proof (cases "n < 10")
    case True
    then show ?thesis by (subst dec_nat.simps) simp
  next
    case False
    with Suc.prems have w: "0 < w" by (cases w) auto
    have "n div 10 < 10 ^ w" using Suc.prems by (simp add: less_mult_imp_div_less)
    with Suc.IH w have "length (dec_nat (n div 10)) \<le> w" by blast
    with False show ?thesis by (subst dec_nat.simps) simp
  qed
qed

section \<open>Padded numbers\<close>

lemma pad0_digits: "\<forall>c \<in> set s. is_digit c \<Longrightarrow> \<forall>c \<in> set (pad0 w s). is_digit c"
  by (auto simp: pad0_def)

lemma num_of_pad0 [simp]: "num_of (pad0 w s) = num_of s"
  by (simp add: pad0_def)

lemma fmt_nonneg: "0 \<le> i \<Longrightarrow> fmt_0d w i = pad0 w (dec_nat (nat i))"
  by (simp add: fmt_0d_def)

lemma fmt_nonneg_digits: "0 \<le> i \<Longrightarrow> \<forall>c \<in> set (fmt_0d w i). is_digit c"
  unfolding fmt_nonneg by (intro pad0_digits dec_nat_digits)

lemma num_of_fmt: "0 \<le> i \<Longrightarrow> num_of (fmt_0d w i) = nat i"
  by (simp add: fmt_nonneg)

lemma length_fmt: "0 < w \<Longrightarrow> 0 \<le> i \<Longrightarrow> i < 10 ^ w \<Longrightarrow> length (fmt_0d w i) = w"
  using length_dec_nat[of w "nat i"] by (simp add: fmt_nonneg pad0_def nat_less_iff)

lemma digits_no_colon: "\<forall>c \<in> set s. is_digit c \<Longrightarrow> CHR '':'' \<notin> set s"
  by (auto simp: is_digit_def)

lemma fmt_no_colon [simp]: "CHR '':'' \<notin> set (fmt_0d w i)"
proof (cases "i < 0")
  case True
  have "CHR '':'' \<notin> set (pad0 (w - 1) (dec_nat (nat (- i))))"
    by (intro digits_no_colon pad0_digits dec_nat_digits)
  with True show ?thesis by (simp add: fmt_0d_def)
next
  case False
  then show ?thesis by (intro digits_no_colon fmt_nonneg_digits) simp
qed

lemma fmt_inject [simp]: "fmt_0d w i = fmt_0d w j \<longleftrightarrow> i = j"
proof
  assume eq: "fmt_0d w i = fmt_0d w j"
  have minus: "hd (fmt_0d w k) = CHR ''-'' \<longleftrightarrow> k < 0" for k
  proof (cases "k < 0")
    case False
    then have "\<forall>c \<in> set (fmt_0d w k). is_digit c" by (intro fmt_nonneg_digits) simp
    moreover have "fmt_0d w k \<noteq> []" using False by (simp add: fmt_nonneg pad0_def)
    ultimately have "is_digit (hd (fmt_0d w k))" by simp
    then have "hd (fmt_0d w k) \<noteq> CHR ''-''" by (auto simp: is_digit_def)
    with False show ?thesis by simp
  qed (simp add: fmt_0d_def)
  have sgn: "i < 0 \<longleftrightarrow> j < 0" using eq minus by metis
  show "i = j"
  proof (cases "i < 0")
    case True
    with sgn eq have "num_of (pad0 (w - 1) (dec_nat (nat (- i)))) = num_of (pad0 (w - 1) (dec_nat (nat (- j))))"
      by (simp add: fmt_0d_def)
    with True sgn show ?thesis by simp
  next
    case False
    with sgn eq num_of_fmt[of i w] num_of_fmt[of j w] show ?thesis by simp
  qed
qed simp

lemma digits_less_iff:
  assumes "length s = length t" "\<forall>c \<in> set s. is_digit c" "\<forall>c \<in> set t. is_digit c"
  shows "s < t \<longleftrightarrow> num_of s < num_of t"
  using assms
proof (induction s t rule: list_induct2)
  case Nil
  then show ?case by simp
next
  case (Cons x xs y ys)
  let ?p = "10 ^ length ys :: nat"
  have xs: "num_of xs < ?p" and ys: "num_of ys < ?p"
    using num_of_less[of xs] num_of_less[of ys] Cons by auto
  have lt: "a * ?p + num_of xs < b * ?p + num_of ys" if "a < b" for a b
  proof -
    have "Suc a * ?p \<le> b * ?p" using that by (intro mult_le_mono1) simp
    with xs show ?thesis by simp
  qed
  have gt: "\<not> a * ?p + num_of xs < b * ?p + num_of ys" if "b < a" for a b
  proof -
    have "Suc b * ?p \<le> a * ?p" using that by (intro mult_le_mono1) simp
    with ys show ?thesis by simp
  qed
  have d: "is_digit x" "is_digit y" using Cons.prems by auto
  consider "digit_val x < digit_val y" | "digit_val y < digit_val x" | "x = y"
    using digit_val_inj[OF d] by linarith
  then show ?case
  proof cases
    case 1
    then have "x < y" using digit_val_less_iff[OF d] by simp
    then show ?thesis using lt[OF 1] Cons.hyps by (simp add: num_of_Cons)
  next
    case 2
    then have "\<not> x < y" "x \<noteq> y" using digit_val_less_iff[OF d(2,1)] by auto
    then show ?thesis using gt[OF 2] Cons.hyps by (simp add: num_of_Cons)
  next
    case 3
    then show ?thesis using Cons by (simp add: num_of_Cons)
  qed
qed

lemma append_less_iff:
  fixes a b :: "'a::linorder list"
  assumes "length a = length b"
  shows "a @ x < b @ y \<longleftrightarrow> a < b \<or> a = b \<and> x < y"
  using assms by (induction a b rule: list_induct2) auto

lemma fmt_less_iff:
  assumes "0 < w" "0 \<le> i" "i < 10 ^ w" "0 \<le> j" "j < 10 ^ w"
  shows "fmt_0d w i < fmt_0d w j \<longleftrightarrow> i < j"
  using assms digits_less_iff[of "fmt_0d w i" "fmt_0d w j"]
  by (simp add: length_fmt fmt_nonneg_digits num_of_fmt) linarith

section \<open>Splitting and parsing\<close>

text \<open>\<open>s.partition(c)\<close> for a one-character separator, and \<open>s.split(c)\<close>.\<close>

definition before :: "char \<Rightarrow> string \<Rightarrow> string" where
  "before c s = takeWhile (\<lambda>x. x \<noteq> c) s"

definition after :: "char \<Rightarrow> string \<Rightarrow> string" where
  "after c s = drop 1 (dropWhile (\<lambda>x. x \<noteq> c) s)"

lemma before_after_sep [simp]:
  assumes "c \<notin> set s"
  shows "before c (s @ c # t) = s" "after c (s @ c # t) = t"
  using assms by (induction s) (auto simp: before_def after_def)

fun split_on :: "char \<Rightarrow> string \<Rightarrow> string list" where
  "split_on c [] = [[]]"
| "split_on c (x # xs) =
     (if x = c then [] # split_on c xs
      else (case split_on c xs of [] \<Rightarrow> [[x]] | y # ys \<Rightarrow> (x # y) # ys))"

definition is_space :: "char \<Rightarrow> bool" where
  "is_space c \<longleftrightarrow> c = CHR '' '' \<or> (9 \<le> (of_char c :: nat) \<and> (of_char c :: nat) \<le> 13)
     \<or> (28 \<le> (of_char c :: nat) \<and> (of_char c :: nat) \<le> 31)"

definition strip :: "string \<Rightarrow> string" where
  "strip s = rev (dropWhile is_space (rev (dropWhile is_space s)))"

text \<open>The digits of an integer literal: single underscores may stand between digits.\<close>

fun int_digits :: "nat \<Rightarrow> string \<Rightarrow> nat option" where
  "int_digits a [] = None"
| "int_digits a [c] = (if is_digit c then Some (10 * a + digit_val c) else None)"
| "int_digits a (c # d # s) =
     (if \<not> is_digit c then None
      else if d = CHR ''_'' then int_digits (10 * a + digit_val c) s
      else int_digits (10 * a + digit_val c) (d # s))"

text \<open>\<open>int(s)\<close> for a string of ASCII characters.\<close>

definition int_of_str :: "string \<Rightarrow> int exc" where
  "int_of_str s =
     (let t = strip s;
          neg = (t \<noteq> [] \<and> hd t = CHR ''-'');
          u = (if t \<noteq> [] \<and> (hd t = CHR ''-'' \<or> hd t = CHR ''+'') then tl t else t)
      in case int_digits 0 u of
           None \<Rightarrow> Inl (ValueError ''invalid literal for int()'')
         | Some n \<Rightarrow> Inr (if neg then - int n else int n))"

lemma int_digits_num_of:
  "s \<noteq> [] \<Longrightarrow> \<forall>c \<in> set s. is_digit c \<Longrightarrow> int_digits a s = Some (a * 10 ^ length s + num_of s)"
proof (induction a s rule: int_digits.induct)
  case (3 a c d s)
  have "d \<noteq> CHR ''_''" using 3(4) by (auto simp: is_digit_def)
  then show ?case using 3 by (simp add: num_of_Cons algebra_simps)
qed (auto simp: num_of_Cons)

lemma digit_not_space: "is_digit c \<Longrightarrow> \<not> is_space c"
  by (auto simp: is_digit_def is_space_def)

lemma strip_digits: "\<forall>c \<in> set s. is_digit c \<Longrightarrow> strip s = s"
proof (cases "s = []")
  case False
  assume d: "\<forall>c \<in> set s. is_digit c"
  then have "dropWhile is_space s = s" using False digit_not_space by (cases s) auto
  moreover have "\<not> is_space (last s)" using d False digit_not_space last_in_set[of s] by blast
  then have "dropWhile is_space (rev s) = rev s"
    by (cases s rule: rev_cases) auto
  ultimately show ?thesis by (simp add: strip_def)
qed (simp add: strip_def)

lemma int_of_str_digits:
  assumes "s \<noteq> []" "\<forall>c \<in> set s. is_digit c"
  shows "int_of_str s = Inr (int (num_of s))"
proof -
  have "is_digit (hd s)" using assms by simp
  then have "hd s \<noteq> CHR ''-''" "hd s \<noteq> CHR ''+''" by (auto simp: is_digit_def)
  then show ?thesis
    using assms int_digits_num_of[of s 0] by (simp add: int_of_str_def strip_digits)
qed

lemma int_of_str_fmt: "0 \<le> i \<Longrightarrow> int_of_str (fmt_0d w i) = Inr i"
  using int_of_str_digits[of "fmt_0d w i"] fmt_nonneg_digits[of i w]
  by (simp add: num_of_fmt) (simp add: fmt_nonneg pad0_def)

end
