(* ===== verification/Schema.thy ===== *)
theory Schema
  imports Py_Format
begin

text \<open>
  \<^verbatim>\<open>_internal/schema.py\<close>: the set, bin and event-field names as enumerations with
  their wire strings, the registries that document them, the import-time check that keeps
  registries and enumerations in step, and the \<open>Schema\<close> record that resolves set names
  under a prefix. A record's bins are keyed by \<open>bin_name\<close>; \<open>bin_wire_inject\<close> is the
  reason why that is the same as keying them by the wire string.
\<close>

definition DEFAULT_SET_PREFIX :: string where
  "DEFAULT_SET_PREFIX = ''adk_''"

definition EVENT_SCHEMA_VERSION :: nat where
  "EVENT_SCHEMA_VERSION = 2"

section \<open>Names and their wire strings\<close>

datatype storage_set =
    SET_SESSIONS
  | SET_APP_STATE
  | SET_USER_STATE
  | SET_ARTIFACTS
  | SET_MEMORY

fun set_wire :: "storage_set \<Rightarrow> string" where
  "set_wire SET_SESSIONS = ''sessions''"
| "set_wire SET_APP_STATE = ''app_state''"
| "set_wire SET_USER_STATE = ''user_state''"
| "set_wire SET_ARTIFACTS = ''artifacts''"
| "set_wire SET_MEMORY = ''memory''"

datatype record_kind =
    KIND_SESSION
  | KIND_SEGMENT
  | KIND_APP_STATE_ROW
  | KIND_USER_STATE_ROW
  | KIND_ARTIFACT
  | KIND_MEMORY
  | KIND_INLINE_EVENT

fun kind_wire :: "record_kind \<Rightarrow> string" where
  "kind_wire KIND_SESSION = ''session_record''"
| "kind_wire KIND_SEGMENT = ''segment_record''"
| "kind_wire KIND_APP_STATE_ROW = ''app_state_row''"
| "kind_wire KIND_USER_STATE_ROW = ''user_state_row''"
| "kind_wire KIND_ARTIFACT = ''artifact_record''"
| "kind_wire KIND_MEMORY = ''memory_record''"
| "kind_wire KIND_INLINE_EVENT = ''inline_event_map''"

datatype bin_name =
    APP_NAME
  | USER_ID
  | SESSION_ID
  | SCOPE_TUPLE
  | STATE
  | TIMESTAMP
  | AUTHOR
  | CONTENT
  | ACTIONS
  | BRANCH
  | FILENAME
  | VERSION
  | MIME_TYPE
  | DATA
  | CREATE_TIME
  | CUSTOM_META
  | EVENT_ID
  | TEXT
  | KEYWORDS
  | MEM_POSTINGS
  | SESSION_MANIFEST
  | EVENTS
  | CUR_SEGMENT
  | SEGMENT_IDX

fun bin_wire :: "bin_name \<Rightarrow> string" where
  "bin_wire APP_NAME = ''app''"
| "bin_wire USER_ID = ''uid''"
| "bin_wire SESSION_ID = ''sid''"
| "bin_wire SCOPE_TUPLE = ''aus''"
| "bin_wire STATE = ''state''"
| "bin_wire TIMESTAMP = ''ts''"
| "bin_wire AUTHOR = ''author''"
| "bin_wire CONTENT = ''content''"
| "bin_wire ACTIONS = ''actions''"
| "bin_wire BRANCH = ''branch''"
| "bin_wire FILENAME = ''fname''"
| "bin_wire VERSION = ''ver''"
| "bin_wire MIME_TYPE = ''mime''"
| "bin_wire DATA = ''data''"
| "bin_wire CREATE_TIME = ''ctime''"
| "bin_wire CUSTOM_META = ''cmeta''"
| "bin_wire EVENT_ID = ''eid''"
| "bin_wire TEXT = ''text''"
| "bin_wire KEYWORDS = ''keywords''"
| "bin_wire MEM_POSTINGS = ''mpl''"
| "bin_wire SESSION_MANIFEST = ''sman''"
| "bin_wire EVENTS = ''events''"
| "bin_wire CUR_SEGMENT = ''cur''"
| "bin_wire SEGMENT_IDX = ''gidx''"

datatype event_field =
    EF_SCHEMA_VERSION
  | EF_EVENT_ID
  | EF_TIMESTAMP
  | EF_AUTHOR
  | EF_CONTENT
  | EF_ACTIONS
  | EF_BRANCH
  | EF_PAYLOAD

fun field_wire :: "event_field \<Rightarrow> string" where
  "field_wire EF_SCHEMA_VERSION = ''_v''"
| "field_wire EF_EVENT_ID = ''eid''"
| "field_wire EF_TIMESTAMP = ''ts''"
| "field_wire EF_AUTHOR = ''author''"
| "field_wire EF_CONTENT = ''content''"
| "field_wire EF_ACTIONS = ''actions''"
| "field_wire EF_BRANCH = ''branch''"
| "field_wire EF_PAYLOAD = ''payload''"


text \<open>\<open>Bins.LAST_UPDATE\<close> is the one alias whose name differs from its member's.\<close>

abbreviation LAST_UPDATE :: bin_name where
  "LAST_UPDATE \<equiv> TIMESTAMP"

lemma bin_wire_inject [simp]: "bin_wire a = bin_wire b \<longleftrightarrow> a = b"
  by (cases a; cases b; simp)

lemma set_wire_inject [simp]: "set_wire a = set_wire b \<longleftrightarrow> a = b"
  by (cases a; cases b; simp)

lemma field_wire_inject [simp]: "field_wire a = field_wire b \<longleftrightarrow> a = b"
  by (cases a; cases b; simp)

text \<open>A \<open>StrEnum\<close> member compares as its wire string.\<close>

instantiation bin_name :: linorder
begin

definition less_eq_bin_name :: "bin_name \<Rightarrow> bin_name \<Rightarrow> bool" where
  "less_eq_bin_name a b \<longleftrightarrow> bin_wire a \<le> bin_wire b"

definition less_bin_name :: "bin_name \<Rightarrow> bin_name \<Rightarrow> bool" where
  "less_bin_name a b \<longleftrightarrow> bin_wire a < bin_wire b"

instance
  by standard (auto simp: less_eq_bin_name_def less_bin_name_def less_le)

end

section \<open>Registries\<close>

record set_definition =
  sd_suffix :: storage_set
  sd_full_name :: string
  sd_primary_key_shape :: string
  sd_purpose :: string

record bin_definition =
  bd_name :: bin_name
  bd_full_name :: string
  bd_value_type :: string
  bd_sets :: "storage_set set"
  bd_record_kinds :: "record_kind set"
  bd_notes :: string

record event_field_definition =
  ed_name :: event_field
  ed_full_name :: string
  ed_value_type :: string
  ed_adk_field :: string
  ed_notes :: string

definition bin_def :: "bin_name \<Rightarrow> string \<Rightarrow> string \<Rightarrow> storage_set set \<Rightarrow> record_kind set \<Rightarrow> string \<Rightarrow> bin_definition" where
  "bin_def name full_name value_type sets record_kinds notes =
     \<lparr>bd_name = name, bd_full_name = full_name, bd_value_type = value_type,
      bd_sets = sets, bd_record_kinds = record_kinds, bd_notes = notes\<rparr>"

definition ALL_SESSION :: "storage_set set" where
  "ALL_SESSION = {SET_SESSIONS}"

definition ARTIFACT_SETS :: "storage_set set" where
  "ARTIFACT_SETS = {SET_ARTIFACTS}"

definition MEMORY_SETS :: "storage_set set" where
  "MEMORY_SETS = {SET_MEMORY}"

definition APP_USER_STATE :: "storage_set set" where
  "APP_USER_STATE = {SET_APP_STATE, SET_USER_STATE}"

definition SET_REGISTRY :: "(storage_set, set_definition) pydict" where
  \<open>SET_REGISTRY =
   [(SET_SESSIONS, \<lparr>sd_suffix = SET_SESSIONS, sd_full_name = ''sessions'', sd_primary_key_shape = ''app:user:session  OR  app:user:session:g:NNNNNNNN'',
     sd_purpose = ''Session records (state + cur-segment pointer) and append-only segment records holding the event-history K_ORDERED map''\<rparr>),
    (SET_APP_STATE, \<lparr>sd_suffix = SET_APP_STATE, sd_full_name = ''application state'', sd_primary_key_shape = ''app'',
     sd_purpose = ''Shared state for all users of an application (keys prefixed app: in ADK)''\<rparr>),
    (SET_USER_STATE, \<lparr>sd_suffix = SET_USER_STATE, sd_full_name = ''user state'', sd_primary_key_shape = ''app:user'',
     sd_purpose = ''Per-user state surviving across sessions (keys prefixed user: in ADK)''\<rparr>),
    (SET_ARTIFACTS, \<lparr>sd_suffix = SET_ARTIFACTS, sd_full_name = ''artifacts'', sd_primary_key_shape = ''app:user:session:filename:version:08d'',
     sd_purpose = ''Versioned binary artifacts (inline bytes or future object-store refs)''\<rparr>),
    (SET_MEMORY, \<lparr>sd_suffix = SET_MEMORY, sd_full_name = ''memory'', sd_primary_key_shape = ''app:user:session:event_id'',
     sd_purpose = ''One lexical memory entry per text-bearing event''\<rparr>)]\<close>

definition BIN_REGISTRY_tenant :: "(bin_name, bin_definition) pydict" where
  \<open>BIN_REGISTRY_tenant =
   [(APP_NAME, bin_def APP_NAME ''application name'' ''string''
     (ALL_SESSION \<union> ARTIFACT_SETS \<union> MEMORY_SETS) {KIND_SESSION, KIND_ARTIFACT, KIND_MEMORY}
     ''Denormalised for secondary-index queries and operator inspection''),
    (USER_ID, bin_def USER_ID ''user identifier'' ''string''
     (ALL_SESSION \<union> ARTIFACT_SETS \<union> MEMORY_SETS) {KIND_SESSION, KIND_ARTIFACT, KIND_MEMORY}
     ''''),
    (SESSION_ID, bin_def SESSION_ID ''session identifier'' ''string''
     (ALL_SESSION \<union> ARTIFACT_SETS \<union> MEMORY_SETS) {KIND_SESSION, KIND_ARTIFACT, KIND_MEMORY}
     ''For user-scoped artifacts the value is the sentinel "user" (see keys.USER_SCOPE_SID)''),
    (SCOPE_TUPLE, bin_def SCOPE_TUPLE ''application user scope composite'' ''string''
     (ARTIFACT_SETS \<union> MEMORY_SETS) {KIND_ARTIFACT, KIND_MEMORY}
     ''Wire value is "app:user:scope" from keys.scope_tuple(); sec-indexed for tenant-local queries''),
    (STATE, bin_def STATE ''state map'' ''Map''
     (ALL_SESSION \<union> APP_USER_STATE) {KIND_SESSION, KIND_APP_STATE_ROW, KIND_USER_STATE_ROW}
     ''Session-scoped keys only on session records; app/user rows hold their scope''),
    (TIMESTAMP, bin_def TIMESTAMP ''timestamp'' ''float''
     (ALL_SESSION \<union> MEMORY_SETS) {KIND_SESSION, KIND_MEMORY}
     ''Epoch seconds; session record uses this as last_update_time''),
    (AUTHOR, bin_def AUTHOR ''event author'' ''string''
     (MEMORY_SETS) {KIND_MEMORY}
     ''Agent name or "user"''),
    (CONTENT, bin_def CONTENT ''event content'' ''Map''
     (MEMORY_SETS) {KIND_MEMORY}
     ''genai_types.Content projected via Pydantic model_dump(mode=json)'')]\<close>

definition BIN_REGISTRY_artifact :: "(bin_name, bin_definition) pydict" where
  \<open>BIN_REGISTRY_artifact =
   [(ACTIONS, bin_def ACTIONS ''event actions'' ''Map''
     ({}) {KIND_INLINE_EVENT}
     ''EventActions projected via Pydantic; only inside inline event Maps''),
    (BRANCH, bin_def BRANCH ''branch label'' ''string''
     ({}) {KIND_INLINE_EVENT}
     ''Optional; only inside inline event Maps''),
    (FILENAME, bin_def FILENAME ''artifact filename'' ''string''
     (ARTIFACT_SETS) {KIND_ARTIFACT}
     ''May contain ':' (e.g. user:profile.json)''),
    (VERSION, bin_def VERSION ''artifact version number'' ''int''
     (ARTIFACT_SETS) {KIND_ARTIFACT}
     ''Also encoded in the primary key suffix as zero-padded decimal''),
    (MIME_TYPE, bin_def MIME_TYPE ''MIME type'' ''string''
     (ARTIFACT_SETS) {KIND_ARTIFACT}
     ''''),
    (DATA, bin_def DATA ''artifact payload'' ''bytes''
     (ARTIFACT_SETS) {KIND_ARTIFACT}
     ''Inline bytes; future hybrid storage may store an object URI string here''),
    (CREATE_TIME, bin_def CREATE_TIME ''creation time'' ''float''
     (ARTIFACT_SETS) {KIND_ARTIFACT}
     ''Epoch seconds when the version was saved''),
    (CUSTOM_META, bin_def CUSTOM_META ''custom metadata'' ''Map''
     (ARTIFACT_SETS) {KIND_ARTIFACT}
     '''')]\<close>

definition BIN_REGISTRY_index :: "(bin_name, bin_definition) pydict" where
  \<open>BIN_REGISTRY_index =
   [(EVENT_ID, bin_def EVENT_ID ''event identifier'' ''string''
     (MEMORY_SETS) {KIND_MEMORY}
     ''Same id as Event.id / inline map key eid''),
    (TEXT, bin_def TEXT ''extracted plain text'' ''string''
     (MEMORY_SETS) {KIND_MEMORY}
     ''Concatenated text Parts; used for display and keyword tokenization input''),
    (KEYWORDS, bin_def KEYWORDS ''search keywords'' ''list[str]''
     (MEMORY_SETS) {KIND_MEMORY}
     ''Lowercase [A-Za-z]+ tokens; also drives posting-list maintenance on write''),
    (MEM_POSTINGS, bin_def MEM_POSTINGS ''memory posting list'' ''list[map]''
     (MEMORY_SETS) {KIND_MEMORY}
     ''Inverted index: list of {eid,sid,ts} refs on keys app:user:kw:token''),
    (SESSION_MANIFEST, bin_def SESSION_MANIFEST ''session id manifest'' ''list[str]''
     (ALL_SESSION) {KIND_SESSION}
     ''Session ids for (app,user) on keys app:user:sl; list_sessions hot path''),
    (EVENTS, bin_def EVENTS ''events map'' ''Map (K_ORDERED)''
     (ALL_SESSION) {KIND_SEGMENT}
     ''Key-ordered map "{ts_micros:020d}:{eid}" -> inline event Map; on segment records''),
    (CUR_SEGMENT, bin_def CUR_SEGMENT ''current segment index'' ''int''
     (ALL_SESSION) {KIND_SESSION}
     ''Highest (append-target) segment index; bumped on RecordTooBig rollover''),
    (SEGMENT_IDX, bin_def SEGMENT_IDX ''segment index'' ''int''
     (ALL_SESSION) {KIND_SEGMENT}
     ''Discriminator: segment records have gidx; session records do not'')]\<close>

definition EVENT_FIELD_REGISTRY :: "(event_field, event_field_definition) pydict" where
  \<open>EVENT_FIELD_REGISTRY =
   [(EF_SCHEMA_VERSION, \<lparr>ed_name = EF_SCHEMA_VERSION, ed_full_name = ''event schema version'', ed_value_type = ''int'',
     ed_adk_field = ''(storage-only)'', ed_notes = (''Current value '' @ dec_nat EVENT_SCHEMA_VERSION @ ''; see codec.EVENT_SCHEMA_VERSION'')\<rparr>),
    (EF_EVENT_ID, \<lparr>ed_name = EF_EVENT_ID, ed_full_name = ''event identifier'', ed_value_type = ''string'',
     ed_adk_field = ''Event.id'', ed_notes = ''''\<rparr>),
    (EF_TIMESTAMP, \<lparr>ed_name = EF_TIMESTAMP, ed_full_name = ''event timestamp'', ed_value_type = ''float'',
     ed_adk_field = ''Event.timestamp'', ed_notes = ''Epoch seconds''\<rparr>),
    (EF_AUTHOR, \<lparr>ed_name = EF_AUTHOR, ed_full_name = ''event author'', ed_value_type = ''string'',
     ed_adk_field = ''Event.author'', ed_notes = ''''\<rparr>),
    (EF_CONTENT, \<lparr>ed_name = EF_CONTENT, ed_full_name = ''event content'', ed_value_type = ''Map'',
     ed_adk_field = ''Event.content'', ed_notes = ''genai_types.Content as JSON-compatible dict''\<rparr>),
    (EF_ACTIONS, \<lparr>ed_name = EF_ACTIONS, ed_full_name = ''event actions'', ed_value_type = ''Map'',
     ed_adk_field = ''Event.actions'', ed_notes = ''EventActions as JSON-compatible dict''\<rparr>),
    (EF_BRANCH, \<lparr>ed_name = EF_BRANCH, ed_full_name = ''branch label'', ed_value_type = ''string'',
     ed_adk_field = ''Event.branch'', ed_notes = ''Optional''\<rparr>),
    (EF_PAYLOAD, \<lparr>ed_name = EF_PAYLOAD, ed_full_name = ''full event payload'', ed_value_type = ''Map'',
     ed_adk_field = ''Event (full model_dump)'', ed_notes = ''v2+: complete JSON-compatible Event for lossless round-trip''\<rparr>)]\<close>

definition BIN_REGISTRY :: "(bin_name, bin_definition) pydict" where
  "BIN_REGISTRY = BIN_REGISTRY_tenant @ BIN_REGISTRY_artifact @ BIN_REGISTRY_index"

text \<open>The members of each enumeration, in declaration order.\<close>

definition all_bin_names :: "bin_name list" where
  "all_bin_names =
     [APP_NAME, USER_ID, SESSION_ID, SCOPE_TUPLE, STATE, TIMESTAMP, AUTHOR, CONTENT, ACTIONS,
      BRANCH, FILENAME, VERSION, MIME_TYPE, DATA, CREATE_TIME, CUSTOM_META, EVENT_ID, TEXT,
      KEYWORDS, MEM_POSTINGS, SESSION_MANIFEST, EVENTS, CUR_SEGMENT, SEGMENT_IDX]"

definition all_event_fields :: "event_field list" where
  "all_event_fields =
     [EF_SCHEMA_VERSION, EF_EVENT_ID, EF_TIMESTAMP, EF_AUTHOR, EF_CONTENT, EF_ACTIONS,
      EF_BRANCH, EF_PAYLOAD]"

definition all_storage_sets :: "storage_set list" where
  "all_storage_sets = [SET_SESSIONS, SET_APP_STATE, SET_USER_STATE, SET_ARTIFACTS, SET_MEMORY]"

definition check_registries ::
  "bin_name set \<Rightarrow> event_field set \<Rightarrow> storage_set set \<Rightarrow> unit exc" where
  "check_registries bins evs sets =
     (if bins \<noteq> set all_bin_names then Inl (RuntimeError ''BIN_REGISTRY out of sync'')
      else if evs \<noteq> set all_event_fields
        then Inl (RuntimeError ''EVENT_FIELD_REGISTRY out of sync'')
      else if sets \<noteq> set all_storage_sets
        then Inl (RuntimeError ''SET_REGISTRY must have exactly one entry per StorageSet'')
      else Inr ())"

definition validate_registries :: "unit exc" where
  "validate_registries =
     check_registries (fst ` set BIN_REGISTRY) (fst ` set EVENT_FIELD_REGISTRY) (fst ` set SET_REGISTRY)"

lemma all_bin_names_complete: "b \<in> set all_bin_names"
  by (cases b) (simp_all add: all_bin_names_def)

lemma all_event_fields_complete: "f \<in> set all_event_fields"
  by (cases f) (simp_all add: all_event_fields_def)

lemma all_storage_sets_complete: "s \<in> set all_storage_sets"
  by (cases s) (simp_all add: all_storage_sets_def)

lemmas registry_defs = BIN_REGISTRY_def BIN_REGISTRY_tenant_def BIN_REGISTRY_artifact_def
  BIN_REGISTRY_index_def bin_def_def EVENT_FIELD_REGISTRY_def SET_REGISTRY_def

section \<open>The resolved schema of an installation\<close>

record schema =
  namespace :: string
  set_prefix :: string

definition sessions_set :: "schema \<Rightarrow> string" where
  "sessions_set sch = set_prefix sch @ set_wire SET_SESSIONS"

definition app_state_set :: "schema \<Rightarrow> string" where
  "app_state_set sch = set_prefix sch @ set_wire SET_APP_STATE"

definition user_state_set :: "schema \<Rightarrow> string" where
  "user_state_set sch = set_prefix sch @ set_wire SET_USER_STATE"

definition artifacts_set :: "schema \<Rightarrow> string" where
  "artifacts_set sch = set_prefix sch @ set_wire SET_ARTIFACTS"

definition memory_set :: "schema \<Rightarrow> string" where
  "memory_set sch = set_prefix sch @ set_wire SET_MEMORY"

lemmas set_name_defs = sessions_set_def app_state_set_def user_state_set_def artifacts_set_def
  memory_set_def

text \<open>The five sets of an installation are different sets, whatever its prefix.\<close>

lemma set_names_distinct:
  "distinct [sessions_set sch, app_state_set sch, user_state_set sch, artifacts_set sch, memory_set sch]"
  by (simp add: set_name_defs)

lemma set_names_neq [simp]:
  "sessions_set sch \<noteq> app_state_set sch" "app_state_set sch \<noteq> sessions_set sch"
  "sessions_set sch \<noteq> user_state_set sch" "user_state_set sch \<noteq> sessions_set sch"
  "app_state_set sch \<noteq> user_state_set sch" "user_state_set sch \<noteq> app_state_set sch"
  using set_names_distinct[of sch] by auto

section \<open>State scopes\<close>

definition SCOPE_APP :: string where "SCOPE_APP = ''app:''"
definition SCOPE_USER :: string where "SCOPE_USER = ''user:''"
definition SCOPE_TEMP :: string where "SCOPE_TEMP = ''temp:''"

section \<open>Properties\<close>

text \<open>
  The import-time check passes: every bin, event field and set has exactly one registry
  entry, filed under its own name. No two bins share a wire name, and no wire name is longer
  than the 14 characters the schema allows.
\<close>

theorem registries_complete:
  "validate_registries = Inr ()
   \<and> distinct (map fst BIN_REGISTRY) \<and> list_all (\<lambda>(b, d). bd_name d = b) BIN_REGISTRY
   \<and> distinct (map fst EVENT_FIELD_REGISTRY) \<and> list_all (\<lambda>(f, d). ed_name d = f) EVENT_FIELD_REGISTRY
   \<and> distinct (map fst SET_REGISTRY) \<and> list_all (\<lambda>(s, d). sd_suffix d = s) SET_REGISTRY
   \<and> inj bin_wire \<and> (\<forall>b. length (bin_wire b) \<le> 14)"
proof -
  have "fst ` set BIN_REGISTRY = set all_bin_names"
    by (simp add: registry_defs all_bin_names_def insert_commute)
  moreover have "fst ` set EVENT_FIELD_REGISTRY = set all_event_fields"
    by (simp add: registry_defs all_event_fields_def insert_commute)
  moreover have "fst ` set SET_REGISTRY = set all_storage_sets"
    by (simp add: registry_defs all_storage_sets_def insert_commute)
  ultimately have "validate_registries = Inr ()"
    by (simp add: validate_registries_def check_registries_def)
  moreover have "length (bin_wire b) \<le> 14" for b by (cases b) simp_all
  ultimately show ?thesis by (simp add: registry_defs inj_def)
qed

end
