(* ===== verification/Py_Float.thy ===== *)
theory Py_Float
  imports Py_Format
begin

text \<open>
  Python floats. A finite IEEE 754 double is the rational number it denotes, and the
  result of an arithmetic operation is the exact result rounded to 53 significant bits,
  ties to even (\<open>rnd\<close>). Overflow to infinity, NaN and the subnormal range below
  \<open>2^-1022\<close> are left out: the numbers the package computes with are epoch timestamps in
  seconds or microseconds and delays of milliseconds.
\<close>

section \<open>Rounding to the nearest integer, ties to even\<close>

definition rne :: "rat \<Rightarrow> int" where
  "rne x =
     (let f = \<lfloor>x\<rfloor>; d = x - of_int f
      in if d < 1/2 then f else if 1/2 < d then f + 1 else if even f then f else f + 1)"

lemma rne_of_int [simp]: "rne (of_int i) = i"
  by (simp add: rne_def)

lemma rne_bounds: "\<lfloor>x\<rfloor> \<le> rne x" "rne x \<le> \<lfloor>x\<rfloor> + 1"
  by (simp_all add: rne_def Let_def)

lemma rne_mono: "x \<le> y \<Longrightarrow> rne x \<le> rne y"
proof -
  assume le: "x \<le> y"
  then have fl: "\<lfloor>x\<rfloor> \<le> \<lfloor>y\<rfloor>" by (rule floor_mono)
  show ?thesis
  proof (cases "\<lfloor>x\<rfloor> = \<lfloor>y\<rfloor>")
    case True
    with le show ?thesis by (auto simp: rne_def Let_def)
  next
    case False
    with fl have "\<lfloor>x\<rfloor> + 1 \<le> \<lfloor>y\<rfloor>" by simp
    then show ?thesis using rne_bounds[of x] rne_bounds[of y] by linarith
  qed
qed

lemma rne_error: "\<bar>of_int (rne x) - x\<bar> \<le> 1/2"
proof -
  have "of_int \<lfloor>x\<rfloor> \<le> x" "x < of_int \<lfloor>x\<rfloor> + 1"
    using floor_correct[of x] by simp_all
  then show ?thesis by (simp add: rne_def Let_def abs_if) linarith
qed

section \<open>The binary exponent of a positive rational\<close>

fun ilog2 :: "nat \<Rightarrow> nat" where
  "ilog2 n = (if n < 2 then 0 else Suc (ilog2 (n div 2)))"

declare ilog2.simps [simp del]

lemma ilog2_bounds: "0 < n \<Longrightarrow> 2 ^ ilog2 n \<le> n \<and> n < 2 ^ Suc (ilog2 n)"
proof (induction n rule: ilog2.induct)
  case (1 n)
  show ?case
  proof (cases "n < 2")
    case True
    with 1 show ?thesis by (simp add: ilog2.simps)
  next
    case False
    with 1 have "2 ^ ilog2 (n div 2) \<le> n div 2 \<and> n div 2 < 2 ^ Suc (ilog2 (n div 2))" by simp
    with False show ?thesis by (subst (1 2) ilog2.simps) auto
  qed
qed

definition exponent :: "rat \<Rightarrow> int" where
  "exponent x =
     (if 1 \<le> x then int (ilog2 (nat \<lfloor>x\<rfloor>)) else - int (ilog2 (nat (\<lceil>1 / x\<rceil> - 1))) - 1)"

lemma exponent_bounds:
  assumes "0 < x"
  shows "2 powi exponent x \<le> x" "x < 2 powi (exponent x + 1)"
proof -
  have "2 powi exponent x \<le> x \<and> x < 2 powi (exponent x + 1)"
  proof (cases "1 \<le> x")
    case True
    let ?n = "nat \<lfloor>x\<rfloor>"
    have n: "0 < ?n" using True by simp
    have "of_nat (2 ^ ilog2 ?n) \<le> (of_nat ?n :: rat)" "of_nat (?n + 1) \<le> (of_nat (2 ^ Suc (ilog2 ?n)) :: rat)"
      using ilog2_bounds[OF n] by (simp_all only: of_nat_le_iff) simp_all
    moreover have "of_nat ?n \<le> x" "x < of_nat (?n + 1)"
      using True floor_correct[of x] by simp_all
    ultimately have "2 ^ ilog2 ?n \<le> x" "x < 2 ^ Suc (ilog2 ?n)"
      unfolding of_nat_power of_nat_numeral by linarith+
    then show ?thesis using True by (simp add: exponent_def power_int_def nat_add_distrib)
  next
    case False
    let ?y = "1 / x"
    let ?n = "nat (\<lceil>?y\<rceil> - 1)"
    have y: "1 < ?y" using False assms by simp
    then have c: "2 \<le> \<lceil>?y\<rceil>" by (simp add: less_ceiling_iff)
    then have n: "0 < ?n" by simp
    have "of_nat (2 ^ ilog2 ?n) \<le> (of_nat ?n :: rat)" "of_nat (?n + 1) \<le> (of_nat (2 ^ Suc (ilog2 ?n)) :: rat)"
      using ilog2_bounds[OF n] by (simp_all only: of_nat_le_iff) simp_all
    moreover have "of_nat ?n < ?y" "?y \<le> of_nat (?n + 1)"
    proof -
      have "0 \<le> \<lceil>?y\<rceil> - 1" using c by linarith
      from of_nat_nat[OF this] have e: "(of_nat ?n :: rat) = of_int \<lceil>?y\<rceil> - 1"
        by (simp only: of_int_diff of_int_1)
      show "of_nat ?n < ?y" unfolding e using ceiling_correct[of ?y] by simp
      show "?y \<le> of_nat (?n + 1)" using e ceiling_correct[of ?y] by simp
    qed
    ultimately have "2 ^ ilog2 ?n < ?y" "?y \<le> 2 ^ Suc (ilog2 ?n)"
      unfolding of_nat_power of_nat_numeral by linarith+
    then have "x < inverse (2 ^ ilog2 ?n)" "inverse (2 ^ Suc (ilog2 ?n)) \<le> x"
      using assms by (simp_all add: field_simps)
    moreover have "exponent x = - int (Suc (ilog2 ?n))" "exponent x + 1 = - int (ilog2 ?n)"
      using False by (simp_all add: exponent_def)
    ultimately show ?thesis by (simp only: power_int_minus power_int_of_nat)
  qed
  then show "2 powi exponent x \<le> x" "x < 2 powi (exponent x + 1)" by simp_all
qed

lemma exponent_mono:
  assumes "0 < x" "x \<le> y"
  shows "exponent x \<le> exponent y"
proof (rule ccontr)
  assume "\<not> ?thesis"
  then have "exponent y + 1 \<le> exponent x" by simp
  then have "(2::rat) powi (exponent y + 1) \<le> 2 powi exponent x" by (rule power_int_increasing) simp
  with exponent_bounds[of x] exponent_bounds[of y] assms show False by simp
qed

section \<open>Rounding to a double\<close>

definition rnd_pos :: "rat \<Rightarrow> rat" where
  "rnd_pos x = (let u = 2 powi (exponent x - 52) in of_int (rne (x / u)) * u)"

definition rnd :: "rat \<Rightarrow> rat" where
  "rnd x = (if x = 0 then 0 else if 0 < x then rnd_pos x else - rnd_pos (- x))"

definition fmul :: "rat \<Rightarrow> rat \<Rightarrow> rat" where "fmul x y = rnd (x * y)"
definition fadd :: "rat \<Rightarrow> rat \<Rightarrow> rat" where "fadd x y = rnd (x + y)"
definition fdiv :: "rat \<Rightarrow> rat \<Rightarrow> rat" where "fdiv x y = rnd (x / y)"

text \<open>\<open>int(x)\<close> of a float truncates towards zero.\<close>

definition trunc :: "rat \<Rightarrow> int" where
  "trunc x = (if x < 0 then \<lceil>x\<rceil> else \<lfloor>x\<rfloor>)"

lemma powi_pos [simp]: "0 < (2::rat) powi e"
  by (simp add: zero_less_power_int)

lemma rnd_pos_bounds:
  assumes "0 < x"
  shows "2 powi exponent x \<le> rnd_pos x" "rnd_pos x \<le> 2 powi (exponent x + 1)"
proof -
  let ?u = "2 powi (exponent x - 52) :: rat"
  have lo: "(2::rat) powi exponent x = of_int (2 ^ 52) * ?u"
    using power_int_add[of "2::rat" 52 "exponent x - 52"] by simp
  have hi: "(2::rat) powi (exponent x + 1) = of_int (2 ^ 53) * ?u"
    using power_int_add[of "2::rat" 53 "exponent x - 52"] by (simp add: add.commute)
  have "of_int (2 ^ 52) \<le> x / ?u" using exponent_bounds(1)[OF assms] unfolding lo
    by (simp add: pos_le_divide_eq)
  from rne_mono[OF this] have "2 ^ 52 \<le> rne (x / ?u)" unfolding rne_of_int .
  then have "(of_int (2 ^ 52) :: rat) \<le> of_int (rne (x / ?u))" by (simp only: of_int_le_iff)
  then show "2 powi exponent x \<le> rnd_pos x"
    unfolding lo rnd_pos_def Let_def by (intro mult_right_mono) simp_all
  have "x / ?u \<le> of_int (2 ^ 53)" using exponent_bounds(2)[OF assms] unfolding hi
    by (simp add: pos_divide_le_eq)
  from rne_mono[OF this] have "rne (x / ?u) \<le> 2 ^ 53" unfolding rne_of_int .
  then have "(of_int (rne (x / ?u)) :: rat) \<le> of_int (2 ^ 53)" by (simp only: of_int_le_iff)
  then show "rnd_pos x \<le> 2 powi (exponent x + 1)"
    unfolding hi rnd_pos_def Let_def by (intro mult_right_mono) simp_all
qed

lemma rnd_pos_mono:
  assumes "0 < x" "x \<le> y"
  shows "rnd_pos x \<le> rnd_pos y"
proof (cases "exponent x = exponent y")
  case True
  let ?u = "2 powi (exponent y - 52) :: rat"
  have "x / ?u \<le> y / ?u" using assms by (simp add: divide_right_mono)
  then have "of_int (rne (x / ?u)) \<le> (of_int (rne (y / ?u)) :: rat)" by (simp add: rne_mono)
  then show ?thesis by (simp add: rnd_pos_def Let_def True)
next
  case False
  with exponent_mono[OF assms] have "exponent x + 1 \<le> exponent y" by simp
  then have "(2::rat) powi (exponent x + 1) \<le> 2 powi exponent y" by (rule power_int_increasing) simp
  moreover have "rnd_pos x \<le> 2 powi (exponent x + 1)" using assms by (intro rnd_pos_bounds) simp
  moreover have "2 powi exponent y \<le> rnd_pos y" using assms by (intro rnd_pos_bounds) simp
  ultimately show ?thesis by simp
qed

lemma rnd_pos_positive: "0 < x \<Longrightarrow> 0 < rnd_pos x"
  using rnd_pos_bounds(1)[of x] powi_pos[of "exponent x"] by linarith

lemma rnd_mono: "x \<le> y \<Longrightarrow> rnd x \<le> rnd y"
proof -
  assume le: "x \<le> y"
  consider "0 < x" | "x \<le> 0" "0 \<le> y" | "y < 0" by linarith
  then show ?thesis
  proof cases
    case 1
    with le show ?thesis by (simp add: rnd_def rnd_pos_mono)
  next
    case 2
    then have "rnd x \<le> 0" using rnd_pos_positive[of "- x"] by (auto simp: rnd_def)
    moreover have "0 \<le> rnd y" using 2 rnd_pos_positive[of y] by (auto simp: rnd_def)
    ultimately show ?thesis by simp
  next
    case 3
    with le rnd_pos_mono[of "- y" "- x"] show ?thesis by (simp add: rnd_def)
  qed
qed

lemma rnd_nonneg: "0 \<le> x \<Longrightarrow> 0 \<le> rnd x"
  using rnd_mono[of 0 x] by (simp add: rnd_def)

text \<open>Rounding moves a number by at most one part in \<open>2^53\<close>.\<close>

lemma rnd_upper:
  assumes "0 \<le> x"
  shows "rnd x \<le> x * (1 + 1 / 2 ^ 53)"
proof (cases "x = 0")
  case False
  with assms have pos: "0 < x" by simp
  let ?u = "2 powi (exponent x - 52) :: rat"
  have "of_int (rne (x / ?u)) \<le> x / ?u + 1 / 2" using rne_error[of "x / ?u"] by linarith
  then have "of_int (rne (x / ?u)) * ?u \<le> (x / ?u + 1 / 2) * ?u" by (rule mult_right_mono) simp
  then have up: "rnd x \<le> x + ?u / 2" using pos by (simp add: rnd_def rnd_pos_def Let_def distrib_right)
  have "2 powi exponent x = 2 ^ 52 * ?u"
    using power_int_add[of "2::rat" 52 "exponent x - 52"] by simp
  then have "2 ^ 52 * ?u \<le> x" using exponent_bounds(1)[OF pos] by simp
  then have "?u / 2 \<le> x * (1 / 2 ^ 53)" by simp
  with up show ?thesis by (simp only: distrib_left mult_1_right)
qed (simp add: rnd_def)

text \<open>Whole numbers below \<open>2^53\<close> are doubles.\<close>

lemma rnd_of_int:
  assumes "0 \<le> i" "i < 2 ^ 53"
  shows "rnd (of_int i) = of_int i"
proof (cases "i = 0")
  case False
  with assms have pos: "0 < (of_int i :: rat)" by simp
  let ?e = "exponent (of_int i)"
  have "(2::rat) powi ?e < 2 powi 53"
  proof -
    have "(2::rat) powi ?e \<le> of_int i" using exponent_bounds(1)[OF pos] .
    also have "of_int i < (of_int (2 ^ 53) :: rat)" using assms(2) by (simp only: of_int_less_iff)
    finally show ?thesis by simp
  qed
  then have e: "?e < 53" by (metis linorder_not_less one_le_numeral power_int_increasing)
  let ?n = "nat (52 - ?e)"
  have u: "1 / 2 powi (?e - 52) = (of_int (2 ^ ?n) :: rat)"
  proof -
    have "1 / 2 powi (?e - 52) = (2::rat) powi (52 - ?e)"
      using power_int_minus[of "2::rat" "?e - 52"] by (simp add: inverse_eq_divide)
    also have "\<dots> = 2 ^ ?n" using e by (simp add: power_int_def)
    finally show ?thesis by simp
  qed
  have q: "of_int i / 2 powi (?e - 52) = (of_int (i * 2 ^ ?n) :: rat)"
    using u by (simp add: divide_inverse)
  have "rnd_pos (of_int i) = of_int (i * 2 ^ ?n) * 2 powi (?e - 52)"
    by (simp only: rnd_pos_def Let_def q rne_of_int)
  also have "\<dots> = of_int i" unfolding q[symmetric] by simp
  finally show ?thesis using pos by (simp add: rnd_def)
qed (simp add: rnd_def)

lemma trunc_mono: "x \<le> y \<Longrightarrow> trunc x \<le> trunc y"
proof -
  assume le: "x \<le> y"
  consider "0 \<le> x" | "x < 0" "0 \<le> y" | "y < 0" by linarith
  then show ?thesis
  proof cases
    case 1 with le show ?thesis by (simp add: trunc_def floor_mono)
  next
    case 2
    then have "\<lceil>x\<rceil> \<le> 0" "0 \<le> \<lfloor>y\<rfloor>" by simp_all
    then have "\<lceil>x\<rceil> \<le> \<lfloor>y\<rfloor>" by linarith
    with 2 show ?thesis by (simp add: trunc_def)
  next
    case 3 with le show ?thesis by (simp add: trunc_def ceiling_mono)
  qed
qed

lemma trunc_nonneg: "0 \<le> x \<Longrightarrow> 0 \<le> trunc x"
  by (simp add: trunc_def)

text \<open>\<open>int(v)\<close> and \<open>float(v)\<close> on the values that a record may hold.\<close>

fun py_int :: "pyval \<Rightarrow> int exc" where
  "py_int (PInt i) = Inr i"
| "py_int (PBool b) = Inr (if b then 1 else 0)"
| "py_int (PFloat r) = Inr (trunc r)"
| "py_int (PStr s) = int_of_str s"
| "py_int (PBytes s) = int_of_str s"
| "py_int v = Inl (TypeError ''int()'')"

text \<open>A string argument of \<open>float\<close> is taken as malformed: no bin that the package reads
  with \<open>float\<close> is ever written with a string.\<close>

fun py_float :: "pyval \<Rightarrow> rat exc" where
  "py_float (PFloat r) = Inr r"
| "py_float (PInt i) = Inr (rnd (of_int i))"
| "py_float (PBool b) = Inr (if b then 1 else 0)"
| "py_float (PStr s) = Inl (ValueError ''could not convert string to float'')"
| "py_float v = Inl (TypeError ''float()'')"

end
