(* ===== verification/Py_Effects.thy ===== *)
theory Py_Effects
  imports Py_Float
begin

text \<open>
  The state-and-exception monad of the service methods. A computation takes the world and
  returns a result or the exception that escapes, and the world afterwards. The world holds
  the state of everything outside the process (the cluster, the clock, the random
  generator), which the model never looks into, and the delays the code has slept, which
  are kept because the retry loop's back-off is a property of them. A service adds its
  attributes as a record extension.
\<close>

record 's world =
  srv :: 's
  slept :: "rat list"

type_synonym ('s, 'm, 'a) io = "('s, 'm) world_scheme \<Rightarrow> 'a exc \<times> ('s, 'm) world_scheme"

definition retE :: "'a \<Rightarrow> 'w \<Rightarrow> 'a exc \<times> 'w" where
  "retE x = (\<lambda>w. (Inr x, w))"

definition raiseE :: "exn \<Rightarrow> 'w \<Rightarrow> 'a exc \<times> 'w" where
  "raiseE e = (\<lambda>w. (Inl e, w))"

definition liftE :: "'a exc \<Rightarrow> 'w \<Rightarrow> 'a exc \<times> 'w" where
  "liftE r = (\<lambda>w. (r, w))"

definition bindE :: "('w \<Rightarrow> 'a exc \<times> 'w) \<Rightarrow> ('a \<Rightarrow> 'w \<Rightarrow> 'b exc \<times> 'w) \<Rightarrow> 'w \<Rightarrow> 'b exc \<times> 'w" where
  "bindE m f = (\<lambda>w. case m w of (Inl e, w') \<Rightarrow> (Inl e, w') | (Inr x, w') \<Rightarrow> f x w')"

definition thenE :: "('w \<Rightarrow> 'a exc \<times> 'w) \<Rightarrow> ('w \<Rightarrow> 'b exc \<times> 'w) \<Rightarrow> 'w \<Rightarrow> 'b exc \<times> 'w" where
  "thenE m n = bindE m (\<lambda>_. n)"

text \<open>\<open>try: m except p: h\<close>, where \<open>p\<close> picks the exceptions of the \<open>except\<close> clause.\<close>

definition catchE :: "('w \<Rightarrow> 'a exc \<times> 'w) \<Rightarrow> (exn \<Rightarrow> bool) \<Rightarrow> (exn \<Rightarrow> 'w \<Rightarrow> 'a exc \<times> 'w) \<Rightarrow> 'w \<Rightarrow> 'a exc \<times> 'w" where
  "catchE m p h = (\<lambda>w. case m w of
      (Inl e, w') \<Rightarrow> if p e then h e w' else (Inl e, w')
    | (Inr x, w') \<Rightarrow> (Inr x, w'))"

definition getsE :: "('w \<Rightarrow> 'a) \<Rightarrow> 'w \<Rightarrow> 'a exc \<times> 'w" where
  "getsE f = (\<lambda>w. (Inr (f w), w))"

definition modifyE :: "('w \<Rightarrow> 'w) \<Rightarrow> 'w \<Rightarrow> unit exc \<times> 'w" where
  "modifyE f = (\<lambda>w. (Inr (), f w))"

fun forE :: "('a \<Rightarrow> 'w \<Rightarrow> unit exc \<times> 'w) \<Rightarrow> 'a list \<Rightarrow> 'w \<Rightarrow> unit exc \<times> 'w" where
  "forE f [] = retE ()"
| "forE f (x # xs) = thenE (f x) (forE f xs)"

definition whenE :: "bool \<Rightarrow> ('w \<Rightarrow> unit exc \<times> 'w) \<Rightarrow> 'w \<Rightarrow> unit exc \<times> 'w" where
  "whenE b m = (if b then m else retE ())"

definition is_ae :: "ae_error \<Rightarrow> exn \<Rightarrow> bool" where
  "is_ae e x \<longleftrightarrow> x = AE e"

section \<open>Reasoning about runs\<close>

text \<open>\<open>wp m Q w\<close>: the result and the final world of \<open>m\<close> from \<open>w\<close> satisfy \<open>Q\<close>. The
  equations push \<open>wp\<close> through the combinators, so a proof only ever meets the calls that
  leave the process.\<close>

definition wp :: "('w \<Rightarrow> 'a exc \<times> 'w) \<Rightarrow> ('a exc \<Rightarrow> 'w \<Rightarrow> bool) \<Rightarrow> 'w \<Rightarrow> bool" where
  "wp m Q w = (case m w of (r, w') \<Rightarrow> Q r w')"

named_theorems wp_simps "the weakest preconditions of the combinators"

lemma wp_retE [wp_simps]: "wp (retE x) Q w = Q (Inr x) w"
  by (simp add: wp_def retE_def)

lemma wp_raiseE [wp_simps]: "wp (raiseE e) Q w = Q (Inl e) w"
  by (simp add: wp_def raiseE_def)

lemma wp_liftE [wp_simps]: "wp (liftE r) Q w = Q r w"
  by (simp add: wp_def liftE_def)

lemma wp_bindE [wp_simps]:
  "wp (bindE m f) Q w = wp m (\<lambda>r w'. case r of Inl e \<Rightarrow> Q (Inl e) w' | Inr x \<Rightarrow> wp (f x) Q w') w"
  by (simp add: wp_def bindE_def split: prod.split sum.split)

lemma wp_thenE [wp_simps]:
  "wp (thenE m n) Q w = wp m (\<lambda>r w'. case r of Inl e \<Rightarrow> Q (Inl e) w' | Inr x \<Rightarrow> wp n Q w') w"
  by (simp add: thenE_def wp_bindE)

lemma wp_catchE [wp_simps]:
  "wp (catchE m p h) Q w =
     wp m (\<lambda>r w'. case r of Inl e \<Rightarrow> if p e then wp (h e) Q w' else Q (Inl e) w' | Inr x \<Rightarrow> Q (Inr x) w') w"
  by (simp add: wp_def catchE_def split: prod.split sum.split)

lemma wp_getsE [wp_simps]: "wp (getsE f) Q w = Q (Inr (f w)) w"
  by (simp add: wp_def getsE_def)

lemma wp_modifyE [wp_simps]: "wp (modifyE f) Q w = Q (Inr ()) (f w)"
  by (simp add: wp_def modifyE_def)

lemma wp_whenE [wp_simps]: "wp (whenE b m) Q w = (if b then wp m Q w else Q (Inr ()) w)"
  by (simp add: whenE_def wp_retE)

lemma wp_if [wp_simps]: "wp (if b then m else n) Q w = (if b then wp m Q w else wp n Q w)"
  by simp

lemma wp_forE_Nil [wp_simps]: "wp (forE f []) Q w = Q (Inr ()) w"
  by (simp add: wp_retE)

lemma wp_forE_Cons [wp_simps]: "wp (forE f (x # xs)) Q w =
    wp (f x) (\<lambda>r w'. case r of Inl e \<Rightarrow> Q (Inl e) w' | Inr _ \<Rightarrow> wp (forE f xs) Q w') w"
  by (simp add: wp_thenE)

lemma wp_mono: "wp m P w \<Longrightarrow> (\<And>r w'. P r w' \<Longrightarrow> Q r w') \<Longrightarrow> wp m Q w"
  by (auto simp: wp_def split: prod.splits)

lemma wp_run: "wp m (\<lambda>r w'. m w = (r, w') \<longrightarrow> Q r w') w \<Longrightarrow> wp m Q w"
  by (simp add: wp_def split: prod.splits)

lemma wpD: "wp m Q w \<Longrightarrow> m w = (r, w') \<Longrightarrow> Q r w'"
  by (simp add: wp_def)

lemma wp_exI: "wp m Q w \<Longrightarrow> \<exists>r w'. m w = (r, w') \<and> Q r w'"
  by (cases "m w") (simp add: wp_def)

lemma wp_conjI: "wp m P w \<Longrightarrow> wp m Q w \<Longrightarrow> wp m (\<lambda>r w'. P r w' \<and> Q r w') w"
  by (simp add: wp_def split: prod.splits)

text \<open>A loop over a list keeps what every iteration keeps.\<close>

lemma wp_forE_invariant:
  assumes "I w"
    and step: "\<And>x w. x \<in> set xs \<Longrightarrow> I w \<Longrightarrow> wp (f x) (\<lambda>r w'. r = Inr () \<and> I w') w"
  shows "wp (forE f xs) (\<lambda>r w'. r = Inr () \<and> I w') w"
  using assms
proof (induction xs arbitrary: w)
  case Nil
  then show ?case by (simp add: wp_simps)
next
  case (Cons x xs)
  have x: "wp (f x) (\<lambda>r w'. r = Inr () \<and> I w') w" using Cons.prems by simp
  have xs: "wp (forE f xs) (\<lambda>r w'. r = Inr () \<and> I w') w'" if "I w'" for w'
    using Cons.IH[OF that] Cons.prems(2) by simp
  show ?case unfolding wp_forE_Cons by (rule wp_mono[OF x]) (simp add: xs)
qed

end
