(* ===== verification/Aerospike_Api.thy ===== *)
theory Aerospike_Api
  imports Schema Py_Effects
begin

text \<open>
  The interface to everything outside the repository: the \<open>aerospike\<close> client with the
  cluster behind it, the clock, \<open>uuid4\<close> and \<open>random.uniform\<close>. The components take it as
  an argument \<open>X\<close> of type \<^verbatim>\<open>'s ext\<close>, over an arbitrary state \<^verbatim>\<open>'s\<close>. What they rely on
  is stated by two locales: \<open>aerospike_client\<close>, where a call may fail as the client
  documents (rejected before it was applied, or timed out with the outcome unknown), and
  \<open>reliable_client\<close>, where no call fails for such a reason. Both speak about \<open>view\<close>, the
  records of a server state, and about \<open>serve\<close>, the documented effect of a request on them.

  Two facts are fixed that Aerospike leaves open and no theorem uses: the order in which an
  unordered Map lists its entries, and status codes of errors the package never tests for.
\<close>

section \<open>Requests and responses\<close>

type_synonym pk = "string \<times> string \<times> string"
type_synonym bins = "(bin_name, pyval) pydict"
type_synonym db = "pk \<Rightarrow> bins option"

datatype operation =
    MapPut bin_name string pyval
  | MapPutItems bin_name dict
  | MapSize bin_name
  | MapGetByIndexRange bin_name int int
  | MapGetByKeyRange bin_name string string
  | ListAppend bin_name pyval
  | ListRemoveByValue bin_name pyval
  | ListRemoveByIndexRange bin_name int int
  | ReadBin bin_name
  | WriteBin bin_name pyval
  | Increment bin_name int

datatype request =
    RGet pk
  | RSelect pk "bin_name list"
  | RPut pk bins bool
  | ROperate pk "operation list" "(bin_name \<times> int) option"
  | RRemove pk
  | RBatchRead "pk list"
  | RBatchWrite "(pk \<times> operation list) list"

datatype response =
    RespNone
  | RespRec bins
  | RespBatch "(int \<times> bins option) list"

record 's ext =
  x_call :: "request \<Rightarrow> 's \<Rightarrow> (ae_error + response) \<times> 's"
  x_query :: "string \<Rightarrow> string \<Rightarrow> bin_name \<Rightarrow> pyval \<Rightarrow> 's \<Rightarrow> (ae_error + bins list) \<times> 's"
  x_code :: "ae_error \<Rightarrow> int"
  x_uniform :: "rat \<Rightarrow> rat \<Rightarrow> 's \<Rightarrow> rat \<times> 's"
  x_time :: "'s \<Rightarrow> rat \<times> 's"
  x_uuid_hex :: "'s \<Rightarrow> string \<times> 's"

section \<open>Key-ordered maps\<close>

fun kput :: "string \<Rightarrow> pyval \<Rightarrow> dict \<Rightarrow> dict" where
  "kput k v [] = [(k, v)]"
| "kput k v ((a, w) # m) =
     (if k < a then (k, v) # (a, w) # m else if k = a then (k, v) # m else (a, w) # kput k v m)"

definition index_range :: "int \<Rightarrow> int \<Rightarrow> 'a list \<Rightarrow> 'a list" where
  "index_range i n xs =
     (let l = int (length xs);
          start = (if i < 0 then max 0 (i + l) else i);
          stop = (if i < 0 then i + l + n else i + n)
      in take (nat (stop - start)) (drop (nat start) xs))"

definition key_range :: "string \<Rightarrow> string \<Rightarrow> dict \<Rightarrow> dict" where
  "key_range lo hi m = filter (\<lambda>(k, _). lo \<le> k \<and> k < hi) m"

text \<open>\<open>MAP_RETURN_KEY_VALUE\<close>: keys and values alternate in one flat list.\<close>

fun flatten_kv :: "dict \<Rightarrow> pyval list" where
  "flatten_kv [] = []"
| "flatten_kv ((k, v) # m) = PStr k # v # flatten_kv m"

section \<open>The documented effect of a request\<close>

definition incompatible :: ae_error where "incompatible = AerospikeError 12"

fun apply_op :: "operation \<Rightarrow> bins \<Rightarrow> ae_error + (bins \<times> (bin_name \<times> pyval) option)" where
  "apply_op (MapPut b k v) bs =
     (case map_of bs b of
        None \<Rightarrow> Inr (dset b (PDict [(k, v)]) bs, Some (b, PInt 1))
      | Some (PDict m) \<Rightarrow> Inr (dset b (PDict (kput k v m)) bs, Some (b, PInt (int (length (kput k v m)))))
      | Some _ \<Rightarrow> Inl incompatible)"
| "apply_op (MapPutItems b items) bs =
     (case map_of bs b of
        None \<Rightarrow> Inr (dset b (PDict (dupdate [] items)) bs, Some (b, PInt (int (length (dupdate [] items)))))
      | Some (PDict m) \<Rightarrow> Inr (dset b (PDict (dupdate m items)) bs, Some (b, PInt (int (length (dupdate m items)))))
      | Some _ \<Rightarrow> Inl incompatible)"
| "apply_op (MapSize b) bs =
     (case map_of bs b of
        None \<Rightarrow> Inr (bs, None)
      | Some (PDict m) \<Rightarrow> Inr (bs, Some (b, PInt (int (length m))))
      | Some _ \<Rightarrow> Inl incompatible)"
| "apply_op (MapGetByIndexRange b i n) bs =
     (case map_of bs b of
        None \<Rightarrow> Inr (bs, None)
      | Some (PDict m) \<Rightarrow>
          (if n < 0 then Inl (AerospikeError 4) else Inr (bs, Some (b, PList (flatten_kv (index_range i n m)))))
      | Some _ \<Rightarrow> Inl incompatible)"
| "apply_op (MapGetByKeyRange b lo hi) bs =
     (case map_of bs b of
        None \<Rightarrow> Inr (bs, None)
      | Some (PDict m) \<Rightarrow> Inr (bs, Some (b, PList (flatten_kv (key_range lo hi m))))
      | Some _ \<Rightarrow> Inl incompatible)"
| "apply_op (ListAppend b v) bs =
     (case map_of bs b of
        None \<Rightarrow> Inr (dset b (PList [v]) bs, Some (b, PInt 1))
      | Some (PList l) \<Rightarrow> Inr (dset b (PList (l @ [v])) bs, Some (b, PInt (int (length l) + 1)))
      | Some _ \<Rightarrow> Inl incompatible)"
| "apply_op (ListRemoveByValue b v) bs =
     (case map_of bs b of
        None \<Rightarrow> Inr (bs, None)
      | Some (PList l) \<Rightarrow> Inr (dset b (PList (removeAll v l)) bs, None)
      | Some _ \<Rightarrow> Inl incompatible)"
| "apply_op (ListRemoveByIndexRange b i n) bs =
     (case map_of bs b of
        None \<Rightarrow> Inr (bs, None)
      | Some (PList l) \<Rightarrow>
          (if i < 0 \<or> n < 0 then Inl (AerospikeError 4)
           else Inr (dset b (PList (take (nat i) l @ drop (nat (i + n)) l)) bs, None))
      | Some _ \<Rightarrow> Inl incompatible)"
| "apply_op (ReadBin b) bs =
     Inr (bs, (case map_of bs b of None \<Rightarrow> None | Some v \<Rightarrow> Some (b, v)))"
| "apply_op (WriteBin b v) bs = Inr ((if v = PNone then ddel b bs else dset b v bs), None)"
| "apply_op (Increment b n) bs =
     (case map_of bs b of
        None \<Rightarrow> Inr (dset b (PInt n) bs, None)
      | Some (PInt i) \<Rightarrow> Inr (dset b (PInt (i + n)) bs, None)
      | Some _ \<Rightarrow> Inl incompatible)"

text \<open>The operations of one call run in order and either all take effect or none does. The
  results come back as a dictionary, where a later result for a bin replaces an earlier one.\<close>

fun apply_ops :: "operation list \<Rightarrow> bins \<Rightarrow> bins \<Rightarrow> ae_error + (bins \<times> bins)" where
  "apply_ops [] bs out = Inr (bs, out)"
| "apply_ops (x # xs) bs out =
     (case apply_op x bs of
        Inl e \<Rightarrow> Inl e
      | Inr (bs', None) \<Rightarrow> apply_ops xs bs' out
      | Inr (bs', Some (b, v)) \<Rightarrow> apply_ops xs bs' (dset b v out))"

fun creates :: "operation \<Rightarrow> bool" where
  "creates (MapPut b k v) = True"
| "creates (MapPutItems b items) = True"
| "creates (ListAppend b v) = True"
| "creates (WriteBin b v) = True"
| "creates (Increment b n) = True"
| "creates _ = False"

fun modifies :: "operation \<Rightarrow> bool" where
  "modifies (ListRemoveByValue b v) = True"
| "modifies (ListRemoveByIndexRange b i n) = True"
| "modifies x = creates x"

definition run_ops :: "(bins \<Rightarrow> bool) \<Rightarrow> pk \<Rightarrow> operation list \<Rightarrow> bins \<Rightarrow> db \<Rightarrow> (ae_error + bins) \<times> db" where
  "run_ops fits pk ops bs d =
     (case apply_ops ops bs [] of
        Inl e \<Rightarrow> (Inl e, d)
      | Inr (bs', out) \<Rightarrow>
          if \<not> list_ex modifies ops then (Inr out, d)
          else if fits bs' then (Inr out, d(pk \<mapsto> bs'))
          else (Inl RecordTooBig, d))"

definition operate_db ::
  "(bins \<Rightarrow> bool) \<Rightarrow> pk \<Rightarrow> operation list \<Rightarrow> (bin_name \<times> int) option \<Rightarrow> db \<Rightarrow> (ae_error + bins) \<times> db" where
  "operate_db fits pk ops guard d =
     (case d pk of
        None \<Rightarrow> if list_ex creates ops then run_ops fits pk ops [] d else (Inl RecordNotFound, d)
      | Some bs \<Rightarrow>
          (case guard of
             None \<Rightarrow> run_ops fits pk ops bs d
           | Some (b, n) \<Rightarrow>
               if map_of bs b = Some (PInt n) then run_ops fits pk ops bs d else (Inl FilteredOut, d)))"

text \<open>A put merges into the record that is there; a bin that is set to \<open>None\<close> goes.\<close>

fun put_bins :: "bins \<Rightarrow> bins \<Rightarrow> bins" where
  "put_bins bs [] = bs"
| "put_bins bs ((b, v) # r) = put_bins (if v = PNone then ddel b bs else dset b v bs) r"

definition put_db :: "(bins \<Rightarrow> bool) \<Rightarrow> pk \<Rightarrow> bins \<Rightarrow> bool \<Rightarrow> db \<Rightarrow> (ae_error + response) \<times> db" where
  "put_db fits pk bs create_only d =
     (if create_only \<and> d pk \<noteq> None then (Inl RecordExistsError, d)
      else let bs' = put_bins (case d pk of None \<Rightarrow> [] | Some old \<Rightarrow> old) bs
           in if fits bs' then (Inr RespNone, d(pk \<mapsto> bs')) else (Inl RecordTooBig, d))"

text \<open>What may go wrong with a call besides what its request implies: it can be rejected, and
  then was not applied, or it can fail after it was applied.\<close>

datatype fault = Fine | Rejected ae_error | Applied ae_error

definition transient :: "ae_error \<Rightarrow> bool" where
  "transient e \<longleftrightarrow> e \<notin> {RecordNotFound, RecordExistsError, RecordTooBig, FilteredOut, IndexFoundError}"

fun fault_ok :: "fault \<Rightarrow> bool" where
  "fault_ok Fine = True"
| "fault_ok (Rejected e) = transient e"
| "fault_ok (Applied e) = (transient e \<and> e \<noteq> DeviceOverload \<and> e \<noteq> MaxErrorRateExceeded)"

fun with_fault :: "fault \<Rightarrow> db \<Rightarrow> (ae_error + 'a) \<times> db \<Rightarrow> (ae_error + 'a) \<times> db" where
  "with_fault Fine d r = r"
| "with_fault (Rejected e) d r = (Inl e, d)"
| "with_fault (Applied e) d r = (Inl e, snd r)"

fun hd_fault :: "fault list \<Rightarrow> fault" where
  "hd_fault [] = Fine"
| "hd_fault (f # fs) = f"

text \<open>A batch write is a list of independent single-record calls, each with a status code.\<close>

fun batch_db ::
  "(bins \<Rightarrow> bool) \<Rightarrow> (ae_error \<Rightarrow> int) \<Rightarrow> fault list \<Rightarrow> (pk \<times> operation list) list \<Rightarrow> db
   \<Rightarrow> (int \<times> bins option) list \<times> db" where
  "batch_db fits code fs [] d = ([], d)"
| "batch_db fits code fs ((pk, ops) # ws) d =
     (let (r, d') = with_fault (hd_fault fs) d (operate_db fits pk ops None d);
          (rs, d'') = batch_db fits code (tl fs) ws d'
      in ((case r of Inl e \<Rightarrow> (code e, None) | Inr out \<Rightarrow> (0, Some out)) # rs, d''))"

text \<open>So is a batch read: a record that is missing, or whose read fails, has a non-zero status.\<close>

fun batch_get ::
  "(ae_error \<Rightarrow> int) \<Rightarrow> fault list \<Rightarrow> pk list \<Rightarrow> db \<Rightarrow> (int \<times> bins option) list" where
  "batch_get code fs [] d = []"
| "batch_get code fs (pk # pks) d =
     (case fst (with_fault (hd_fault fs) d (case d pk of None \<Rightarrow> Inl RecordNotFound | Some bs \<Rightarrow> Inr bs, d)) of
        Inl e \<Rightarrow> (code e, None) | Inr bs \<Rightarrow> (0, Some bs)) # batch_get code (tl fs) pks d"

lemma batch_get_fine [simp]:
  "batch_get code [] pks d =
     map (\<lambda>pk. case d pk of None \<Rightarrow> (code RecordNotFound, None) | Some bs \<Rightarrow> (0, Some bs)) pks"
  by (induction pks) (auto split: option.split)

definition map_resp :: "('a \<Rightarrow> response) \<Rightarrow> (ae_error + 'a) \<times> db \<Rightarrow> (ae_error + response) \<times> db" where
  "map_resp f r = (map_sum id f (fst r), snd r)"

fun serve ::
  "(bins \<Rightarrow> bool) \<Rightarrow> (ae_error \<Rightarrow> int) \<Rightarrow> fault list \<Rightarrow> request \<Rightarrow> db \<Rightarrow> (ae_error + response) \<times> db" where
  "serve fits code fs (RGet pk) d =
     ((case d pk of None \<Rightarrow> Inl RecordNotFound | Some bs \<Rightarrow> Inr (RespRec bs)), d)"
| "serve fits code fs (RSelect pk names) d =
     ((case d pk of None \<Rightarrow> Inl RecordNotFound
       | Some bs \<Rightarrow> Inr (RespRec (filter (\<lambda>(b, _). b \<in> set names) bs))), d)"
| "serve fits code fs (RPut pk bs create_only) d = put_db fits pk bs create_only d"
| "serve fits code fs (ROperate pk ops guard) d = map_resp RespRec (operate_db fits pk ops guard d)"
| "serve fits code fs (RRemove pk) d =
     (case d pk of None \<Rightarrow> (Inl RecordNotFound, d) | Some _ \<Rightarrow> (Inr RespNone, d(pk := None)))"
| "serve fits code fs (RBatchRead pks) d =
     (Inr (RespBatch (batch_get code fs pks d)), d)"
| "serve fits code fs (RBatchWrite ws) d =
     (let (rs, d') = batch_db fits code fs ws d in (Inr (RespBatch rs), d'))"

text \<open>Whether a filter expression lets a write create a record that does not exist is left
  open: such a request runs as if it had no filter, or it is filtered out.\<close>

fun defined_req :: "request \<Rightarrow> db \<Rightarrow> bool" where
  "defined_req (ROperate pk ops (Some g)) d = (d pk \<noteq> None)"
| "defined_req r d = True"

definition matching :: "string \<Rightarrow> string \<Rightarrow> bin_name \<Rightarrow> pyval \<Rightarrow> db \<Rightarrow> pk set" where
  "matching ns st b v d =
     {k. fst k = ns \<and> fst (snd k) = st \<and> (\<exists>bs. d k = Some bs \<and> map_of bs b = Some v)}"

lemma matchingE:
  assumes "k \<in> matching ns st b v d"
  obtains key bs where "k = (ns, st, key)" "d k = Some bs" "map_of bs b = Some v"
  using assms by (cases k) (auto simp: matching_def)

section \<open>The two contracts\<close>

locale aerospike_client =
  fixes X :: "'s ext"
    and view :: "'s \<Rightarrow> db"
    and fits :: "bins \<Rightarrow> bool"
  assumes call_law:
      "defined_req r (view s) \<Longrightarrow> x_call X r s = (res, s') \<Longrightarrow>
       \<exists>f fs. fault_ok f \<and> list_all fault_ok fs
         \<and> (res, view s') = with_fault f (view s) (serve fits (x_code X) fs r (view s))"
    and open_law:
      "\<not> defined_req r (view s) \<Longrightarrow> x_call X r s = (res, s') \<Longrightarrow>
       \<exists>f fs. fault_ok f \<and> list_all fault_ok fs
         \<and> ((res, view s') = with_fault f (view s) (serve fits (x_code X) fs r (view s))
             \<or> (res, view s') = with_fault f (view s) (Inl FilteredOut, view s))"
    and query_law:
      "x_query X ns st b v s = (qres, s') \<Longrightarrow> view s' = view s \<and>
       (case qres of
          Inl e \<Rightarrow> transient e
        | Inr rows \<Rightarrow> \<exists>ks. distinct ks \<and> set ks = matching ns st b v (view s)
                        \<and> map Some rows = map (view s) ks)"
    and code_nonzero: "e \<noteq> AerospikeError 0 \<Longrightarrow> x_code X e \<noteq> 0"
    and code_inject:
      "x_code X e = x_code X e' \<Longrightarrow> e \<in> {RecordTooBig, DeviceOverload} \<Longrightarrow>
       e' \<in> {RecordTooBig, DeviceOverload} \<Longrightarrow> e = e'"
    and uniform_law: "lo \<le> hi \<Longrightarrow> x_uniform X lo hi s = (j, s') \<Longrightarrow> lo \<le> j \<and> j \<le> hi \<and> view s' = view s"
    and time_law: "x_time X s = (t, s') \<Longrightarrow> view s' = view s"
    and uuid_law: "x_uuid_hex X s = (u, s') \<Longrightarrow> view s' = view s \<and> u \<noteq> [] \<and> (\<forall>c \<in> set u. c \<noteq> CHR '':'')"

locale reliable_client = aerospike_client +
  assumes call_reliable:
      "defined_req r (view s) \<Longrightarrow> x_call X r s = (res, s') \<Longrightarrow>
       (res, view s') = serve fits (x_code X) [] r (view s)"
    and query_reliable: "x_query X ns st b v s = (qres, s') \<Longrightarrow> \<exists>rows. qres = Inr rows"


section \<open>Calls\<close>

definition lift_ae :: "ae_error + 'a \<Rightarrow> 'a exc" where
  "lift_ae r = map_sum AE id r"

lemma lift_ae_simps [simp]:
  "lift_ae (Inl e) = Inl (AE e)"
  "lift_ae (Inr x) = Inr x"
  by (simp_all add: lift_ae_def)

definition client_call :: "'s ext \<Rightarrow> request \<Rightarrow> ('s, 'm, response) io" where
  "client_call X r = (\<lambda>w. case x_call X r (srv w) of (res, s') \<Rightarrow> (lift_ae res, w\<lparr>srv := s'\<rparr>))"

fun as_rec :: "response \<Rightarrow> bins exc" where
  "as_rec (RespRec b) = Inr b"
| "as_rec _ = Inl (TypeError ''cannot unpack'')"

fun as_batch :: "response \<Rightarrow> (int \<times> bins option) list exc" where
  "as_batch (RespBatch rs) = Inr rs"
| "as_batch _ = Inl (AttributeError ''batch_records'')"

definition client_get :: "'s ext \<Rightarrow> pk \<Rightarrow> ('s, 'm, bins) io" where
  "client_get X pk = bindE (client_call X (RGet pk)) (\<lambda>r. liftE (as_rec r))"

definition client_select :: "'s ext \<Rightarrow> pk \<Rightarrow> bin_name list \<Rightarrow> ('s, 'm, bins) io" where
  "client_select X pk names = bindE (client_call X (RSelect pk names)) (\<lambda>r. liftE (as_rec r))"

definition client_put :: "'s ext \<Rightarrow> pk \<Rightarrow> bins \<Rightarrow> bool \<Rightarrow> ('s, 'm, unit) io" where
  "client_put X pk bs create_only = bindE (client_call X (RPut pk bs create_only)) (\<lambda>_. retE ())"

definition client_operate ::
  "'s ext \<Rightarrow> pk \<Rightarrow> operation list \<Rightarrow> (bin_name \<times> int) option \<Rightarrow> ('s, 'm, bins) io" where
  "client_operate X pk ops guard = bindE (client_call X (ROperate pk ops guard)) (\<lambda>r. liftE (as_rec r))"

definition client_remove :: "'s ext \<Rightarrow> pk \<Rightarrow> ('s, 'm, unit) io" where
  "client_remove X pk = bindE (client_call X (RRemove pk)) (\<lambda>_. retE ())"

definition client_batch_read :: "'s ext \<Rightarrow> pk list \<Rightarrow> ('s, 'm, (int \<times> bins option) list) io" where
  "client_batch_read X pks = bindE (client_call X (RBatchRead pks)) (\<lambda>r. liftE (as_batch r))"

definition client_batch_write ::
  "'s ext \<Rightarrow> (pk \<times> operation list) list \<Rightarrow> ('s, 'm, (int \<times> bins option) list) io" where
  "client_batch_write X ws = bindE (client_call X (RBatchWrite ws)) (\<lambda>r. liftE (as_batch r))"

definition client_query :: "'s ext \<Rightarrow> string \<Rightarrow> string \<Rightarrow> bin_name \<Rightarrow> pyval \<Rightarrow> ('s, 'm, bins list) io" where
  "client_query X ns st b v =
     (\<lambda>w. case x_query X ns st b v (srv w) of (res, s') \<Rightarrow> (lift_ae res, w\<lparr>srv := s'\<rparr>))"

definition now_time :: "'s ext \<Rightarrow> ('s, 'm, rat) io" where
  "now_time X = (\<lambda>w. case x_time X (srv w) of (t, s') \<Rightarrow> (Inr t, w\<lparr>srv := s'\<rparr>))"

definition uuid_hex :: "'s ext \<Rightarrow> ('s, 'm, string) io" where
  "uuid_hex X = (\<lambda>w. case x_uuid_hex X (srv w) of (u, s') \<Rightarrow> (Inr u, w\<lparr>srv := s'\<rparr>))"

definition uniform :: "'s ext \<Rightarrow> rat \<Rightarrow> rat \<Rightarrow> ('s, 'm, rat) io" where
  "uniform X lo hi = (\<lambda>w. case x_uniform X lo hi (srv w) of (r, s') \<Rightarrow> (Inr r, w\<lparr>srv := s'\<rparr>))"

definition sleep :: "rat \<Rightarrow> ('s, 'm, unit) io" where
  "sleep d = modifyE (\<lambda>w. w\<lparr>slept := slept w @ [d]\<rparr>)"

lemma wp_sleep [wp_simps]: "wp (sleep d) Q w = Q (Inr ()) (w\<lparr>slept := slept w @ [d]\<rparr>)"
  by (simp add: sleep_def wp_modifyE)

text \<open>\<open>try: m except ae.RecordNotFound\<close>, with \<open>None\<close> for the exception.\<close>

definition or_not_found :: "('w \<Rightarrow> 'a exc \<times> 'w) \<Rightarrow> 'w \<Rightarrow> 'a option exc \<times> 'w" where
  "or_not_found m =
     catchE (bindE m (\<lambda>x. retE (Some x))) (is_ae RecordNotFound) (\<lambda>_. retE None)"

lemma wp_or_not_found [wp_simps]:
  "wp (or_not_found m) Q w = wp m (\<lambda>r w'. case r of
     Inl e \<Rightarrow> if e = AE RecordNotFound then Q (Inr None) w' else Q (Inl e) w' | Inr x \<Rightarrow> Q (Inr (Some x)) w') w"
  by (simp add: or_not_found_def wp_def catchE_def bindE_def retE_def is_ae_def split: prod.split sum.split)

section \<open>Facts about the documented effects\<close>

fun touched :: "request \<Rightarrow> pk list" where
  "touched (RPut pk bs c) = [pk]"
| "touched (ROperate pk ops g) = [pk]"
| "touched (RRemove pk) = [pk]"
| "touched (RBatchWrite ws) = map fst ws"
| "touched _ = []"

lemma operate_db_frame: "k \<noteq> pk \<Longrightarrow> snd (operate_db fits pk ops g d) k = d k"
  by (auto simp: operate_db_def run_ops_def split: option.splits sum.splits prod.splits)

lemma with_fault_frame: "snd r k = d k \<Longrightarrow> snd (with_fault f d r) k = d k"
  by (cases f) simp_all

lemma batch_db_frame: "k \<notin> fst ` set ws \<Longrightarrow> snd (batch_db fits code fs ws d) k = d k"
proof (induction ws arbitrary: fs d)
  case Nil
  then show ?case by simp
next
  case (Cons p ws)
  obtain pk ops where p: "p = (pk, ops)" by (cases p)
  let ?d = "snd (with_fault (hd_fault fs) d (operate_db fits pk ops None d))"
  have "?d k = d k" using Cons.prems p by (intro with_fault_frame operate_db_frame) simp
  moreover have "snd (batch_db fits code (tl fs) ws ?d) k = ?d k" using Cons by simp
  ultimately show ?case by (simp add: p Let_def case_prod_beta)
qed

text \<open>A request changes only the records it names.\<close>

lemma serve_frame: "k \<notin> set (touched r) \<Longrightarrow> snd (serve fits code fs r d) k = d k"
proof (cases r)
  case (ROperate pk ops g)
  then show "k \<notin> set (touched r) \<Longrightarrow> ?thesis" by (simp add: map_resp_def operate_db_frame)
next
  case (RBatchWrite ws)
  then show "k \<notin> set (touched r) \<Longrightarrow> ?thesis"
    using batch_db_frame[of k ws fits code fs d] by (simp add: case_prod_beta)
qed (auto simp: put_db_def Let_def split: option.splits)

lemma length_batch_db [simp]: "length (fst (batch_db fits code fs ws d)) = length ws"
  by (induction ws arbitrary: fs d) (auto simp: Let_def case_prod_beta)

text \<open>The bins at a key, none where there is no record.\<close>

definition rec_at :: "db \<Rightarrow> pk \<Rightarrow> bins" where
  "rec_at d k = (case d k of None \<Rightarrow> [] | Some bs \<Rightarrow> bs)"

lemma operate_creating:
  "list_ex creates ops \<Longrightarrow> operate_db fits k ops None d = run_ops fits k ops (rec_at d k) d"
  by (simp add: operate_db_def rec_at_def split: option.split)

section \<open>Rules for the calls of a reliable client\<close>

abbreviation batch_item :: "(ae_error \<Rightarrow> int) \<Rightarrow> bins option \<Rightarrow> int \<times> bins option" where
  "batch_item code b \<equiv> (case b of None \<Rightarrow> (code RecordNotFound, None) | Some bs \<Rightarrow> (0, Some bs))"

context reliable_client begin

lemma wp_call:
  assumes "defined_req r (view (srv w))"
    and "\<And>s'. view s' = snd (serve fits (x_code X) [] r (view (srv w))) \<Longrightarrow>
           Q (lift_ae (fst (serve fits (x_code X) [] r (view (srv w))))) (w\<lparr>srv := s'\<rparr>)"
  shows "wp (client_call X r) Q w"
proof -
  obtain res s' where c: "x_call X r (srv w) = (res, s')" by fastforce
  have "(res, view s') = serve fits (x_code X) [] r (view (srv w))"
    by (rule call_reliable[OF assms(1) c])
  then have "res = fst (serve fits (x_code X) [] r (view (srv w)))"
    "view s' = snd (serve fits (x_code X) [] r (view (srv w)))" by (metis fst_conv, metis snd_conv)
  with assms(2)[of s'] c show ?thesis by (simp add: wp_def client_call_def)
qed

lemma wp_get:
  assumes "\<And>s'. view s' = view (srv w) \<Longrightarrow>
    Q (case view (srv w) pk of None \<Rightarrow> Inl (AE RecordNotFound) | Some bs \<Rightarrow> Inr bs) (w\<lparr>srv := s'\<rparr>)"
  shows "wp (client_get X pk) Q w"
  unfolding client_get_def wp_simps
  by (rule wp_call) (use assms in \<open>auto simp: wp_simps split: option.splits\<close>)

lemma wp_select:
  assumes "\<And>s'. view s' = view (srv w) \<Longrightarrow>
    Q (case view (srv w) pk of None \<Rightarrow> Inl (AE RecordNotFound)
       | Some bs \<Rightarrow> Inr (filter (\<lambda>(b, _). b \<in> set names) bs)) (w\<lparr>srv := s'\<rparr>)"
  shows "wp (client_select X pk names) Q w"
  unfolding client_select_def wp_simps
  by (rule wp_call) (use assms in \<open>auto simp: wp_simps split: option.splits\<close>)

lemma wp_put:
  assumes "\<And>s'. view s' = snd (put_db fits pk bs c (view (srv w))) \<Longrightarrow>
    Q (map_sum AE (\<lambda>_. ()) (fst (put_db fits pk bs c (view (srv w))))) (w\<lparr>srv := s'\<rparr>)"
  shows "wp (client_put X pk bs c) Q w"
  unfolding client_put_def wp_simps
proof (rule wp_call)
  fix s' assume "view s' = snd (serve fits (x_code X) [] (RPut pk bs c) (view (srv w)))"
  with assms[of s'] show "case lift_ae (fst (serve fits (x_code X) [] (RPut pk bs c) (view (srv w)))) of
      Inl e \<Rightarrow> Q (Inl e) (w\<lparr>srv := s'\<rparr>) | Inr _ \<Rightarrow> Q (Inr ()) (w\<lparr>srv := s'\<rparr>)"
    by (cases "fst (put_db fits pk bs c (view (srv w)))") simp_all
qed simp

lemma wp_operate:
  assumes "g = None \<or> view (srv w) pk \<noteq> None"
    and "\<And>s'. view s' = snd (operate_db fits pk ops g (view (srv w))) \<Longrightarrow>
    Q (lift_ae (fst (operate_db fits pk ops g (view (srv w))))) (w\<lparr>srv := s'\<rparr>)"
  shows "wp (client_operate X pk ops g) Q w"
  unfolding client_operate_def wp_simps
proof (rule wp_call)
  show "defined_req (ROperate pk ops g) (view (srv w))" using assms(1) by (cases g) auto
  fix s' assume "view s' = snd (serve fits (x_code X) [] (ROperate pk ops g) (view (srv w)))"
  with assms(2)[of s'] show "case lift_ae (fst (serve fits (x_code X) [] (ROperate pk ops g) (view (srv w)))) of
      Inl e \<Rightarrow> Q (Inl e) (w\<lparr>srv := s'\<rparr>) | Inr r \<Rightarrow> Q (as_rec r) (w\<lparr>srv := s'\<rparr>)"
    by (cases "fst (operate_db fits pk ops g (view (srv w)))") (simp_all add: map_resp_def)
qed

lemma wp_remove:
  assumes "\<And>s'. view s' = (view (srv w))(pk := None) \<Longrightarrow>
    Q (if view (srv w) pk = None then Inl (AE RecordNotFound) else Inr ()) (w\<lparr>srv := s'\<rparr>)"
  shows "wp (client_remove X pk) Q w"
  unfolding client_remove_def wp_simps
  by (rule wp_call) (use assms in \<open>auto simp: wp_simps fun_upd_idem split: option.splits\<close>)

text \<open>A loop of removals that pass over what is not there.\<close>

lemma wp_remove_all:
  assumes "\<And>s'. view s' = (\<lambda>k. if k \<in> pk_of ` set xs then None else view (srv w) k) \<Longrightarrow> Q (Inr ()) (w\<lparr>srv := s'\<rparr>)"
  shows "wp (forE (\<lambda>x. bindE (or_not_found (client_remove X (pk_of x))) (\<lambda>_. retE ())) xs) Q w"
  using assms
proof (induction xs arbitrary: w)
  case Nil
  show ?case using Nil[of "srv w"] by (simp add: wp_simps)
next
  case (Cons x xs)
  show ?case
    unfolding wp_forE_Cons wp_bindE[of "or_not_found _"] wp_or_not_found wp_retE
  proof (rule wp_remove, goal_cases)
    case (1 s1)
    have "wp (forE (\<lambda>x. bindE (or_not_found (client_remove X (pk_of x))) (\<lambda>_. retE ())) xs) Q (w\<lparr>srv := s1\<rparr>)"
    proof (rule Cons.IH)
      fix s' assume "view s' = (\<lambda>k. if k \<in> pk_of ` set xs then None else view (srv (w\<lparr>srv := s1\<rparr>)) k)"
      then have "view s' = (\<lambda>k. if k \<in> pk_of ` set (x # xs) then None else view (srv w) k)"
        by (intro ext) (simp add: 1)
      from Cons.prems[OF this] show "Q (Inr ()) (w\<lparr>srv := s1, srv := s'\<rparr>)" by simp
    qed
    then show ?case by simp
  qed
qed

lemma wp_batch_read:
  assumes "\<And>s'. view s' = view (srv w) \<Longrightarrow>
    Q (Inr (map (\<lambda>pk. batch_item (x_code X) (view (srv w) pk)) pks)) (w\<lparr>srv := s'\<rparr>)"
  shows "wp (client_batch_read X pks) Q w"
  unfolding client_batch_read_def wp_simps
  by (rule wp_call) (use assms in \<open>auto simp: wp_simps\<close>)

lemma wp_batch_write:
  assumes "\<And>s'. view s' = snd (batch_db fits (x_code X) [] ws (view (srv w))) \<Longrightarrow>
    Q (Inr (fst (batch_db fits (x_code X) [] ws (view (srv w))))) (w\<lparr>srv := s'\<rparr>)"
  shows "wp (client_batch_write X ws) Q w"
  unfolding client_batch_write_def wp_simps
  by (rule wp_call) (use assms in \<open>auto simp: wp_simps case_prod_beta\<close>)

lemma wp_query:
  assumes "\<And>s' rows ks. view s' = view (srv w) \<Longrightarrow> distinct ks \<Longrightarrow>
    set ks = matching ns st b v (view (srv w)) \<Longrightarrow> map Some rows = map (view (srv w)) ks \<Longrightarrow>
    Q (Inr rows) (w\<lparr>srv := s'\<rparr>)"
  shows "wp (client_query X ns st b v) Q w"
proof -
  obtain res s' where c: "x_query X ns st b v (srv w) = (res, s')" by fastforce
  obtain rows where r: "res = Inr rows" using query_reliable[OF c] by auto
  with query_law[OF c] obtain ks where "view s' = view (srv w)" "distinct ks"
    "set ks = matching ns st b v (view (srv w))" "map Some rows = map (view (srv w)) ks" by auto
  then show ?thesis using assms c r by (simp add: wp_def client_query_def)
qed

lemma wp_now_time:
  assumes "\<And>s' t. view s' = view (srv w) \<Longrightarrow> Q (Inr t) (w\<lparr>srv := s'\<rparr>)"
  shows "wp (now_time X) Q w"
  using assms time_law[of "srv w"] by (simp add: wp_def now_time_def split: prod.split)

lemma wp_uuid_hex:
  assumes "\<And>s' u. view s' = view (srv w) \<Longrightarrow> u \<noteq> [] \<Longrightarrow> \<forall>c \<in> set u. c \<noteq> CHR '':'' \<Longrightarrow> Q (Inr u) (w\<lparr>srv := s'\<rparr>)"
  shows "wp (uuid_hex X) Q w"
  using assms uuid_law[of "srv w"] by (simp add: wp_def uuid_hex_def split: prod.split)

end

section \<open>Rules for a client whose calls may fail\<close>

context aerospike_client begin

lemma wp_call_faulty:
  assumes "defined_req r (view (srv w))"
    and "\<And>f fs s'. fault_ok f \<Longrightarrow> list_all fault_ok fs \<Longrightarrow>
           view s' = snd (with_fault f (view (srv w)) (serve fits (x_code X) fs r (view (srv w)))) \<Longrightarrow>
           Q (lift_ae (fst (with_fault f (view (srv w)) (serve fits (x_code X) fs r (view (srv w))))))
             (w\<lparr>srv := s'\<rparr>)"
  shows "wp (client_call X r) Q w"
proof -
  obtain res s' where c: "x_call X r (srv w) = (res, s')" by fastforce
  from call_law[OF assms(1) c] obtain f fs where f: "fault_ok f" "list_all fault_ok fs"
    and e: "(res, view s') = with_fault f (view (srv w)) (serve fits (x_code X) fs r (view (srv w)))"
    by blast
  from e have "res = fst (with_fault f (view (srv w)) (serve fits (x_code X) fs r (view (srv w))))"
    "view s' = snd (with_fault f (view (srv w)) (serve fits (x_code X) fs r (view (srv w))))"
    by (metis fst_conv, metis snd_conv)
  with assms(2)[OF f, of s'] c show ?thesis by (simp add: wp_def client_call_def)
qed

lemma wp_uniform:
  assumes "lo \<le> hi"
    and "\<And>s' r. view s' = view (srv w) \<Longrightarrow> lo \<le> r \<Longrightarrow> r \<le> hi \<Longrightarrow> Q (Inr r) (w\<lparr>srv := s'\<rparr>)"
  shows "wp (uniform X lo hi) Q w"
  using assms uniform_law[OF assms(1), of "srv w"] by (simp add: wp_def uniform_def split: prod.split)

end

end
