(* ===== verification/Reference_Server.thy ===== *)
theory Reference_Server
  imports Aerospike_Api
begin

text \<open>
  An executable cluster that meets the two contracts of \<open>Aerospike_Api\<close>: an in-memory store
  with a record size limit, a clock, an id generator and, for \<open>scripted_ext\<close>, a list of
  faults to inject, one entry per call. \<open>calm_ext\<close> is the same store without faults. The
  witnesses run the components on it.
\<close>

fun pv_size :: "pyval \<Rightarrow> nat" where
  "pv_size (PStr s) = Suc (length s)"
| "pv_size (PBytes s) = Suc (length s)"
| "pv_size (PList l) = Suc (sum_list (map pv_size l))"
| "pv_size (PDict d) = Suc (sum_list (map (\<lambda>(k, v). length k + pv_size v) d))"
| "pv_size _ = 1"

definition size_limit :: "nat \<Rightarrow> bins \<Rightarrow> bool" where
  "size_limit n bs \<longleftrightarrow> sum_list (map (\<lambda>(_, v). pv_size v) bs) \<le> n"

fun status_code :: "ae_error \<Rightarrow> int" where
  "status_code RecordNotFound = 2"
| "status_code RecordExistsError = 5"
| "status_code RecordTooBig = 13"
| "status_code FilteredOut = 27"
| "status_code DeviceOverload = 18"
| "status_code MaxErrorRateExceeded = - 14"
| "status_code TimeoutError = 9"
| "status_code IndexFoundError = 200"
| "status_code (AerospikeError c) = c"

record mem_server =
  ms_keys :: "pk list"
  ms_db :: db
  ms_faults :: "(fault \<times> fault list) list"
  ms_clock :: rat
  ms_uuids :: nat

definition mem_view :: "mem_server \<Rightarrow> db" where
  "mem_view s = ms_db s |` set (ms_keys s)"

definition empty_server :: "(fault \<times> fault list) list \<Rightarrow> mem_server" where
  "empty_server fs = \<lparr>ms_keys = [], ms_db = Map.empty, ms_faults = fs, ms_clock = 1000, ms_uuids = 0\<rparr>"

definition next_fault :: "bool \<Rightarrow> mem_server \<Rightarrow> fault \<times> fault list" where
  "next_fault scripted s =
     (case ms_faults s of
        [] \<Rightarrow> (Fine, [])
      | (f, fs) # _ \<Rightarrow>
          if scripted \<and> fault_ok f \<and> list_all fault_ok fs then (f, fs) else (Fine, []))"

definition mem_call :: "(bins \<Rightarrow> bool) \<Rightarrow> bool \<Rightarrow> request \<Rightarrow> mem_server \<Rightarrow> (ae_error + response) \<times> mem_server" where
  "mem_call fits scripted r s =
     (let (f, fs) = next_fault scripted s;
          (res, d) = with_fault f (mem_view s) (serve fits status_code fs r (mem_view s))
      in (res, s\<lparr>ms_keys := remdups (touched r @ ms_keys s), ms_db := d, ms_faults := tl (ms_faults s)\<rparr>))"

definition matches :: "string \<Rightarrow> string \<Rightarrow> bin_name \<Rightarrow> pyval \<Rightarrow> db \<Rightarrow> pk \<Rightarrow> bool" where
  "matches ns st b v d k \<longleftrightarrow> fst k = ns \<and> fst (snd k) = st \<and>
     (case d k of None \<Rightarrow> False | Some bs \<Rightarrow> map_of bs b = Some v)"

definition mem_query ::
  "string \<Rightarrow> string \<Rightarrow> bin_name \<Rightarrow> pyval \<Rightarrow> mem_server \<Rightarrow> (ae_error + bins list) \<times> mem_server" where
  "mem_query ns st b v s =
     (Inr (map (\<lambda>k. the (mem_view s k)) (filter (matches ns st b v (mem_view s)) (remdups (ms_keys s)))), s)"

definition mem_ext :: "(bins \<Rightarrow> bool) \<Rightarrow> bool \<Rightarrow> mem_server ext" where
  "mem_ext fits scripted =
     \<lparr>x_call = mem_call fits scripted,
      x_query = mem_query,
      x_code = status_code,
      x_uniform = (\<lambda>lo hi s. ((lo + hi) / 2, s)),
      x_time = (\<lambda>s. (ms_clock s, s\<lparr>ms_clock := ms_clock s + 1\<rparr>)),
      x_uuid_hex = (\<lambda>s. (fmt_0d 32 (int (ms_uuids s)), s\<lparr>ms_uuids := Suc (ms_uuids s)\<rparr>))\<rparr>"

definition calm_ext :: "nat \<Rightarrow> mem_server ext" where "calm_ext n = mem_ext (size_limit n) False"
definition scripted_ext :: "nat \<Rightarrow> mem_server ext" where "scripted_ext n = mem_ext (size_limit n) True"

text \<open>A cluster that takes records of any size.\<close>

definition roomy_ext :: "mem_server ext" where "roomy_ext = mem_ext (\<lambda>_. True) False"

lemma mem_view_call:
  "mem_view (snd (mem_call fits b r s)) =
     snd (with_fault (fst (next_fault b s)) (mem_view s)
       (serve fits status_code (snd (next_fault b s)) r (mem_view s)))"
  (is "_ = snd ?R")
proof
  fix k
  show "mem_view (snd (mem_call fits b r s)) k = snd ?R k"
  proof (cases "k \<in> set (touched r) \<union> set (ms_keys s)")
    case True
    then show ?thesis by (auto simp: mem_call_def mem_view_def restrict_map_def Let_def case_prod_beta)
  next
    case False
    then have "snd ?R k = mem_view s k"
      by (intro with_fault_frame serve_frame) simp
    with False show ?thesis by (simp add: mem_call_def mem_view_def Let_def case_prod_beta)
  qed
qed

lemma mem_call_law:
  assumes "mem_call fits b r s = (res, s')"
  shows "(res, mem_view s') = with_fault (fst (next_fault b s)) (mem_view s)
     (serve fits status_code (snd (next_fault b s)) r (mem_view s))"
    and "fault_ok (fst (next_fault b s))" "list_all fault_ok (snd (next_fault b s))"
proof -
  have "res = fst (mem_call fits b r s)" "s' = snd (mem_call fits b r s)" using assms by simp_all
  then show "(res, mem_view s') = with_fault (fst (next_fault b s)) (mem_view s)
     (serve fits status_code (snd (next_fault b s)) r (mem_view s))"
    by (simp add: mem_view_call prod_eq_iff) (simp add: mem_call_def Let_def case_prod_beta)
  show "fault_ok (fst (next_fault b s))" "list_all fault_ok (snd (next_fault b s))"
    by (auto simp: next_fault_def split: list.split)
qed

lemma mem_query_law:
  assumes "mem_query ns st b v s = (qres, s')"
  shows "s' = s" "\<exists>rows. qres = Inr rows"
    and "qres = Inr rows \<Longrightarrow> \<exists>ks. distinct ks \<and> set ks = matching ns st b v (mem_view s)
       \<and> map Some rows = map (mem_view s) ks"
proof -
  let ?ks = "filter (matches ns st b v (mem_view s)) (remdups (ms_keys s))"
  show "s' = s" "\<exists>rows. qres = Inr rows" using assms by (auto simp: mem_query_def)
  assume "qres = Inr rows"
  then have "rows = map (\<lambda>k. the (mem_view s k)) ?ks"
    using assms unfolding mem_query_def by (metis fst_conv sum.inject(2))
  then have "map Some rows = map (mem_view s) ?ks"
    by (auto simp: matches_def split: option.splits)
  moreover have "set ?ks = matching ns st b v (mem_view s)"
    by (auto simp: matches_def matching_def mem_view_def restrict_map_def split: option.splits)
  moreover have "distinct ?ks" by simp
  ultimately show "\<exists>ks. distinct ks \<and> set ks = matching ns st b v (mem_view s)
       \<and> map Some rows = map (mem_view s) ks" by blast
qed

lemma mem_ext_simps [simp]:
  "x_call (mem_ext fits b) = mem_call fits b"
  "x_query (mem_ext fits b) = mem_query"
  "x_code (mem_ext fits b) = status_code"
  "x_uniform (mem_ext fits b) = (\<lambda>lo hi s. ((lo + hi) / 2, s))"
  "x_time (mem_ext fits b) = (\<lambda>s. (ms_clock s, s\<lparr>ms_clock := ms_clock s + 1\<rparr>))"
  "x_uuid_hex (mem_ext fits b) = (\<lambda>s. (fmt_0d 32 (int (ms_uuids s)), s\<lparr>ms_uuids := Suc (ms_uuids s)\<rparr>))"
  by (simp_all add: mem_ext_def)

lemma uuid_text: "fmt_0d 32 (int n) \<noteq> []" "\<forall>c \<in> set (fmt_0d 32 (int n)). c \<noteq> CHR '':''"
  using fmt_no_colon[of 32 "int n"] by (simp add: fmt_nonneg pad0_def, metis)

lemma mem_call_contract:
  assumes "mem_call fits b r s = (res, s')"
  shows "\<exists>f fs. fault_ok f \<and> list_all fault_ok fs \<and>
    (res, mem_view s') = with_fault f (mem_view s) (serve fits status_code fs r (mem_view s))"
  by (intro exI conjI) (rule mem_call_law[OF assms])+

lemma mem_query_contract:
  assumes "mem_query ns st b v s = (qres, s')"
  shows "mem_view s' = mem_view s \<and> (case qres of Inl e \<Rightarrow> transient e
     | Inr rows \<Rightarrow> \<exists>ks. distinct ks \<and> set ks = matching ns st b v (mem_view s)
         \<and> map Some rows = map (mem_view s) ks)"
proof -
  from mem_query_law(2)[OF assms] obtain rows where "qres = Inr rows" by blast
  with mem_query_law(1,3)[OF assms] show ?thesis by simp
qed

lemma status_code_nonzero: "e \<noteq> AerospikeError 0 \<Longrightarrow> status_code e \<noteq> 0"
  by (cases e) simp_all

lemma mem_view_clock [simp]: "mem_view (ms_clock_update c s) = mem_view s"
  by (simp add: mem_view_def)

lemma mem_view_uuids [simp]: "mem_view (ms_uuids_update c s) = mem_view s"
  by (simp add: mem_view_def)

lemma mem_client: "aerospike_client (mem_ext fits b) mem_view fits"
proof (unfold_locales, unfold mem_ext_simps, goal_cases)
  case (1 r s res s')
  show ?case by (rule mem_call_contract[OF 1(2)])
next
  case (2 r s res s')
  show ?case using mem_call_contract[OF 2(2)] by blast
next
  case (3 ns st b v s qres s')
  show ?case by (rule mem_query_contract[OF 3])
next
  case (4 e)
  then show ?case by (rule status_code_nonzero)
next
  case (5 e e')
  then show ?case by auto
next
  case (6 lo hi s j s')
  then show ?case by auto
next
  case (7 s t s')
  then have "s' = ms_clock_update (\<lambda>_. ms_clock s + 1) s" by (rule Pair_inject) (rule sym)
  then show ?case by (simp only: mem_view_clock)
next
  case (8 s u s')
  then have "s' = ms_uuids_update (\<lambda>_. Suc (ms_uuids s)) s" "u = fmt_0d 32 (int (ms_uuids s))"
    by (rule Pair_inject, simp only:)+
  then show ?case using uuid_text[of "ms_uuids s"] by (simp only: mem_view_uuids) simp
qed

interpretation scripted: aerospike_client "scripted_ext n" mem_view "size_limit n" for n
  unfolding scripted_ext_def by (rule mem_client)

lemma next_fault_calm: "next_fault False s = (Fine, [])"
  by (auto simp: next_fault_def split: list.split)

lemma calm_client: "reliable_client (mem_ext fits False) mem_view fits"
proof (rule reliable_client.intro)
  show "aerospike_client (mem_ext fits False) mem_view fits" by (rule mem_client)
  show "reliable_client_axioms (mem_ext fits False) mem_view fits"
  proof (unfold_locales, unfold mem_ext_simps)
    fix r s res s'
    assume "mem_call fits False r s = (res, s')"
    from mem_call_law(1)[OF this]
    show "(res, mem_view s') = serve fits status_code [] r (mem_view s)"
      by (simp add: next_fault_calm)
  next
    fix ns st b v s qres s'
    assume "mem_query ns st b v s = (qres, s')"
    then show "\<exists>rows. qres = Inr rows" by (rule mem_query_law(2))
  qed
qed

interpretation calm: reliable_client "calm_ext n" mem_view "size_limit n" for n
  unfolding calm_ext_def by (rule calm_client)

interpretation roomy: reliable_client roomy_ext mem_view "\<lambda>_. True"
  unfolding roomy_ext_def by (rule calm_client)

lemma kput_mem: "(k, v) \<in> set (kput k v m)"
  by (induction k v m rule: kput.induct) auto

text \<open>An entry is no bigger than the record it is in.\<close>

lemma entry_size: "pv_size v \<le> pv_size (PDict (kput k v m))"
proof -
  have "length k + pv_size v \<le> sum_list (map (\<lambda>(k, v). length k + pv_size v) (kput k v m))"
    using kput_mem[of k v m] by (intro member_le_sum_list) (force simp: image_iff)+
  then show ?thesis by simp
qed

text \<open>A cluster that already holds some records.\<close>

definition loaded_server :: "(pk \<times> bins) list \<Rightarrow> (fault \<times> fault list) list \<Rightarrow> mem_server" where
  "loaded_server kvs fs = (empty_server fs)\<lparr>ms_keys := map fst kvs, ms_db := map_of kvs\<rparr>"

lemma view_loaded [simp]: "mem_view (loaded_server kvs fs) = map_of kvs"
proof
  show "mem_view (loaded_server kvs fs) k = map_of kvs k" for k
    by (simp add: mem_view_def loaded_server_def restrict_map_def) (metis map_of_eq_None_iff)
qed

definition demo_schema :: schema where
  "demo_schema = \<lparr>namespace = ''test'', set_prefix = ''adk_''\<rparr>"

end
