(* ===== verification/Retry.thy ===== *)
theory Retry
  imports Reference_Server
begin

text \<open>
  The two retry loops of \<^verbatim>\<open>sessions/service.py\<close>: \<open>write_retrying_overload\<close> around one call
  and \<open>batch_write_with_retry\<close> around a batch. Both are structural recursions over the
  attempts \<open>0..10\<close>, as the code's \<open>for\<close> loop is. The locale \<open>retryable\<close> is the contract
  a repeated call needs, and its lemma says that repetition then changes nothing.
\<close>

definition OVERLOAD_MAX_RETRIES :: nat where
  "OVERLOAD_MAX_RETRIES = 10"

definition OVERLOAD_BASE_DELAY :: rat where
  "OVERLOAD_BASE_DELAY = rnd (1 / 100)"

definition OVERLOAD_MAX_DELAY :: rat where
  "OVERLOAD_MAX_DELAY = rnd (1 / 5)"

definition next_delay :: "rat \<Rightarrow> rat" where
  "next_delay delay = min (fmul delay 2) OVERLOAD_MAX_DELAY"

text \<open>\<open>await asyncio.sleep(delay + random.uniform(0, delay))\<close>\<close>

definition back_off :: "'s ext \<Rightarrow> rat \<Rightarrow> ('s, 'm, unit) io" where
  "back_off X delay = bindE (uniform X 0 delay) (\<lambda>j. sleep (fadd delay j))"

text \<open>Which exceptions the two \<open>except\<close> clauses swallow, rather than raise again.\<close>

definition swallowed :: "bool \<Rightarrow> nat \<Rightarrow> exn \<Rightarrow> bool" where
  "swallowed retry_timeout attempt e \<longleftrightarrow>
     (e = AE DeviceOverload \<or> e = AE MaxErrorRateExceeded) \<and> attempt \<noteq> OVERLOAD_MAX_RETRIES
     \<or> e = AE TimeoutError \<and> retry_timeout \<and> attempt \<noteq> OVERLOAD_MAX_RETRIES"

fun retry_loop :: "'s ext \<Rightarrow> ('s, 'm, 'a) io \<Rightarrow> bool \<Rightarrow> nat list \<Rightarrow> rat \<Rightarrow> ('s, 'm, 'a) io" where
  "retry_loop X fn retry_timeout [] delay = raiseE (RuntimeError ''unreachable'')"
| "retry_loop X fn retry_timeout (attempt # rest) delay =
     catchE fn (swallowed retry_timeout attempt) (\<lambda>_.
       thenE (back_off X delay) (retry_loop X fn retry_timeout rest (next_delay delay)))"

definition write_retrying_overload :: "'s ext \<Rightarrow> ('s, 'm, 'a) io \<Rightarrow> bool \<Rightarrow> ('s, 'm, 'a) io" where
  "write_retrying_overload X fn retry_timeout =
     retry_loop X fn retry_timeout [0..<OVERLOAD_MAX_RETRIES + 1] OVERLOAD_BASE_DELAY"

fun batch_retry_loop ::
  "'s ext \<Rightarrow> (pk \<times> operation list) list \<Rightarrow> nat list \<Rightarrow> rat \<Rightarrow> ('s, 'm, int list) io" where
  "batch_retry_loop X writes [] delay = raiseE (RuntimeError ''unreachable'')"
| "batch_retry_loop X writes (attempt # rest) delay =
     (let again = thenE (back_off X delay) (batch_retry_loop X writes rest (next_delay delay))
      in bindE
           (catchE (bindE (client_batch_write X writes) (\<lambda>rs. retE (Some (map fst rs))))
              (swallowed True attempt) (\<lambda>_. retE None))
           (\<lambda>outcome. case outcome of
              None \<Rightarrow> again
            | Some results \<Rightarrow>
                if x_code X DeviceOverload \<notin> set results then retE results
                else if attempt = OVERLOAD_MAX_RETRIES then retE results
                else again))"

definition batch_write_with_retry :: "'s ext \<Rightarrow> (pk \<times> operation list) list \<Rightarrow> ('s, 'm, int list) io" where
  "batch_write_with_retry X writes =
     batch_retry_loop X writes [0..<OVERLOAD_MAX_RETRIES + 1] OVERLOAD_BASE_DELAY"

lemma retry_loop_hit: "fst (m w) = Inr x \<Longrightarrow> retry_loop X m rt (a # as) delay w = m w"
  by (cases "m w") (simp add: catchE_def)

lemma retry_loop_miss: "fst (m w) = Inl e \<Longrightarrow> swallowed rt a e \<Longrightarrow>
  retry_loop X m rt (a # as) delay w =
    thenE (back_off X delay) (retry_loop X m rt as (next_delay delay)) (snd (m w))"
  by (cases "m w") (simp add: catchE_def)

section \<open>Delays\<close>

lemma delay_bounds:
  "0 \<le> OVERLOAD_BASE_DELAY" "OVERLOAD_BASE_DELAY \<le> OVERLOAD_MAX_DELAY" "0 \<le> OVERLOAD_MAX_DELAY"
  by (simp_all add: OVERLOAD_BASE_DELAY_def OVERLOAD_MAX_DELAY_def rnd_nonneg rnd_mono)

lemma next_delay_bounds: "0 \<le> d \<Longrightarrow> 0 \<le> next_delay d \<and> next_delay d \<le> OVERLOAD_MAX_DELAY"
  by (simp add: next_delay_def fmul_def rnd_nonneg delay_bounds)

definition sleep_bound :: rat where "sleep_bound = 401 / 1000"

lemma fadd_bound:
  assumes "0 \<le> d" "d \<le> OVERLOAD_MAX_DELAY" "0 \<le> j" "j \<le> d"
  shows "0 \<le> fadd d j" "fadd d j \<le> sleep_bound"
proof -
  have m: "OVERLOAD_MAX_DELAY \<le> 2001 / 10000"
    using rnd_upper[of "1 / 5"] by (simp add: OVERLOAD_MAX_DELAY_def)
  have "rnd (d + j) \<le> rnd (2 * (2001 / 10000))" using assms m by (intro rnd_mono) linarith
  also have "\<dots> \<le> sleep_bound" using rnd_upper[of "2 * (2001 / 10000)"] by (simp add: sleep_bound_def)
  finally show "fadd d j \<le> sleep_bound" by (simp add: fadd_def)
  show "0 \<le> fadd d j" using assms by (simp add: fadd_def rnd_nonneg)
qed

text \<open>\<open>n\<close> sleeps were added, none of them longer than \<open>sleep_bound\<close>.\<close>

definition slept_more :: "nat \<Rightarrow> ('s, 'm) world_scheme \<Rightarrow> ('s, 'm) world_scheme \<Rightarrow> bool" where
  "slept_more n w w' \<longleftrightarrow> (\<exists>ds. slept w' = slept w @ ds \<and> length ds \<le> n
     \<and> (\<forall>d \<in> set ds. 0 \<le> d \<and> d \<le> sleep_bound))"

lemma slept_more_refl: "slept w' = slept w \<Longrightarrow> slept_more n w w'"
  by (simp add: slept_more_def)

lemma slept_more_step:
  assumes "slept u = slept w @ [d]" "0 \<le> d" "d \<le> sleep_bound" "slept_more n u w'"
  shows "slept_more (Suc n) w w'"
  using assms unfolding slept_more_def by (metis Cons_eq_append_conv append.assoc append_Cons
      append_Nil length_Cons not_less_eq_eq set_ConsD)

lemma slept_more_total:
  assumes "slept_more n w w'"
  shows "sum_list (drop (length (slept w)) (slept w')) \<le> of_nat n * sleep_bound"
proof -
  obtain ds where ds: "slept w' = slept w @ ds" "length ds \<le> n" "\<forall>d \<in> set ds. 0 \<le> d \<and> d \<le> sleep_bound"
    using assms by (auto simp: slept_more_def)
  have "sum_list ds \<le> of_nat (length ds) * sleep_bound"
    using ds(3) by (induction ds) (auto simp: algebra_simps)
  also have "\<dots> \<le> of_nat n * sleep_bound" using ds(2) by (intro mult_right_mono) (simp_all add: sleep_bound_def)
  finally show ?thesis using ds(1) by simp
qed

section \<open>A call that may be repeated\<close>

text \<open>One attempt at a call whose documented effect is \<open>f\<close>: it did what \<open>f\<close> does, or it failed
  for a transient reason, in which case \<open>f\<close> happened or did not.\<close>

definition attempt_ok :: "(db \<Rightarrow> (ae_error + 'a) \<times> db) \<Rightarrow> db \<Rightarrow> 'a exc \<Rightarrow> db \<Rightarrow> bool" where
  "attempt_ok f d res d' \<longleftrightarrow>
     res = lift_ae (fst (f d)) \<and> d' = snd (f d)
     \<or> (\<exists>e. res = Inl (AE e) \<and> transient e
          \<and> (d' = d \<or> d' = snd (f d) \<and> e \<noteq> DeviceOverload \<and> e \<noteq> MaxErrorRateExceeded))"

text \<open>An attempt either leaves the store alone or does what the request does; an error that is
  not transient is the request's own answer.\<close>

definition errors_pure :: "(db \<Rightarrow> (ae_error + 'a) \<times> db) \<Rightarrow> bool" where
  "errors_pure f \<longleftrightarrow> (\<forall>d e. fst (f d) = Inl e \<longrightarrow> snd (f d) = d)"

lemma attemptE:
  assumes "attempt_ok f d r d'" "errors_pure f"
  obtains (same) "d' = d" "\<And>out. r = Inr out \<Longrightarrow> f d = (Inr out, d)"
      "\<And>e. r = Inl (AE e) \<Longrightarrow> \<not> transient e \<Longrightarrow> fst (f d) = Inl e"
    | (did) out where "f d = (Inr out, d')" "\<And>o1. r = Inr o1 \<Longrightarrow> o1 = out"
      "\<And>e. r = Inl e \<Longrightarrow> \<exists>t. e = AE t \<and> transient t"
proof (cases "fst (f d)")
  case (Inl e)
  with assms(2) have "snd (f d) = d" by (simp add: errors_pure_def)
  with assms(1) Inl show ?thesis by (intro same) (auto simp: attempt_ok_def)
next
  case (Inr out)
  show ?thesis
  proof (cases "d' = snd (f d)")
    case True
    with Inr assms(1) show ?thesis by (intro did[of out]) (auto simp: attempt_ok_def prod_eq_iff)
  next
    case False
    with Inr assms(1) show ?thesis by (intro same) (auto simp: attempt_ok_def)
  qed
qed

text \<open>What the loop promises: as one attempt, from a state where the call had already been
  applied or had not.\<close>

definition retry_ok :: "(db \<Rightarrow> (ae_error + 'a) \<times> db) \<Rightarrow> db \<Rightarrow> 'a exc \<Rightarrow> db \<Rightarrow> bool" where
  "retry_ok f d res d' \<longleftrightarrow> (\<exists>d0 \<in> {d, snd (f d)}. attempt_ok f d0 res d')"

context aerospike_client begin

lemma attempt_with_fault:
  assumes "fault_ok fl" "res = lift_ae (fst (with_fault fl d (f d)))" "d' = snd (with_fault fl d (f d))"
  shows "attempt_ok f d res d'"
  using assms by (cases fl) (auto simp: attempt_ok_def)

lemma wp_operate_attempt:
  assumes "g = None \<or> view (srv w) pk \<noteq> None"
  shows "wp (client_operate X pk ops g)
    (\<lambda>res w'. attempt_ok (operate_db fits pk ops g) (view (srv w)) res (view (srv w')) \<and> slept w' = slept w) w"
  unfolding client_operate_def wp_simps
proof (rule wp_call_faulty)
  show "defined_req (ROperate pk ops g) (view (srv w))" using assms by (cases g) auto
  fix fl fs s'
  let ?d = "view (srv w)" and ?f = "operate_db fits pk ops g"
  assume fl: "fault_ok fl"
    and v: "view s' = snd (with_fault fl ?d (serve fits (x_code X) fs (ROperate pk ops g) ?d))"
  have split: "case fl of Fine \<Rightarrow> True | Rejected e \<Rightarrow> True | Applied e \<Rightarrow> True" by (cases fl) simp_all
  have "attempt_ok ?f ?d (ebind (lift_ae (fst (with_fault fl ?d (serve fits (x_code X) fs (ROperate pk ops g) ?d)))) as_rec)
      (view s')"
    using fl v
    by (intro attempt_with_fault[OF fl]; cases fl; cases "fst (?f ?d)") (simp_all add: map_resp_def)
  then show "case lift_ae (fst (with_fault fl ?d (serve fits (x_code X) fs (ROperate pk ops g) ?d))) of
      Inl e \<Rightarrow> attempt_ok ?f ?d (Inl e) (view (srv (w\<lparr>srv := s'\<rparr>))) \<and> slept (w\<lparr>srv := s'\<rparr>) = slept w
    | Inr r \<Rightarrow> attempt_ok ?f ?d (as_rec r) (view (srv (w\<lparr>srv := s'\<rparr>))) \<and> slept (w\<lparr>srv := s'\<rparr>) = slept w"
    by (simp add: ebind_def split: sum.splits)
qed

end

locale retryable = aerospike_client +
  fixes call :: "('a, 'm, 'r) io"
    and effect :: "db \<Rightarrow> (ae_error + 'r) \<times> db"
    and enabled :: "db \<Rightarrow> bool"
  assumes attempt: "enabled (view (srv w)) \<Longrightarrow>
      wp call (\<lambda>res w'. attempt_ok effect (view (srv w)) res (view (srv w')) \<and> slept w' = slept w) w"
    and enabled_effect: "enabled d \<Longrightarrow> enabled (snd (effect d))"
    and idempotent: "enabled d \<Longrightarrow> snd (effect (snd (effect d))) = snd (effect d)"
begin

lemma retry_loop_safe:
  assumes "enabled d" "view (srv w) = d \<or> view (srv w) = snd (effect d)"
    "0 \<le> delay" "delay \<le> OVERLOAD_MAX_DELAY" "as \<noteq> []" "last as = OVERLOAD_MAX_RETRIES"
  shows "wp (retry_loop X call rt as delay)
    (\<lambda>res w'. retry_ok effect d res (view (srv w')) \<and> slept_more (length as - 1) w w') w"
  using assms
proof (induction as arbitrary: w delay)
  case Nil
  then show ?case by simp
next
  case (Cons a as)
  let ?P = "\<lambda>res w'. retry_ok effect d res (view (srv w')) \<and> slept_more (length (a # as) - 1) w w'"
  have en: "enabled (view (srv w))" using Cons.prems enabled_effect by auto
  have more: "wp (thenE (back_off X delay) (retry_loop X call rt as (next_delay delay))) ?P w1"
    if v: "view (srv w1) = d \<or> view (srv w1) = snd (effect d)" and s: "slept w1 = slept w"
      and ne: "as \<noteq> []" for w1 :: "('a, 'm) world_scheme"
    unfolding back_off_def wp_simps
  proof (rule wp_uniform)
    show "0 \<le> delay" by fact
    fix s' j assume j: "view s' = view (srv w1)" "0 \<le> j" "j \<le> delay"
    let ?w = "w1\<lparr>srv := s', slept := slept w1 @ [fadd delay j]\<rparr>"
    have nd: "0 \<le> next_delay delay" "next_delay delay \<le> OVERLOAD_MAX_DELAY"
      using next_delay_bounds Cons.prems by simp_all
    have "wp (retry_loop X call rt as (next_delay delay))
      (\<lambda>res w'. retry_ok effect d res (view (srv w')) \<and> slept_more (length as - 1) ?w w') ?w"
      using Cons.prems v j ne nd by (intro Cons.IH) auto
    then have "wp (retry_loop X call rt as (next_delay delay)) ?P ?w"
    proof (rule wp_mono)
      fix res w' assume h: "retry_ok effect d res (view (srv w')) \<and> slept_more (length as - 1) ?w w'"
      then have "slept_more (Suc (length as - 1)) w w'"
        using s fadd_bound[OF Cons.prems(3,4) j(2,3)] by (intro slept_more_step[where u = ?w]) simp_all
      with h ne show "?P res w'" by simp
    qed
    then show "case Inr j of Inl e \<Rightarrow> case (Inl e :: unit exc) of Inl e \<Rightarrow> ?P (Inl e) (w1\<lparr>srv := s'\<rparr>)
        | Inr _ \<Rightarrow> wp (retry_loop X call rt as (next_delay delay)) ?P (w1\<lparr>srv := s'\<rparr>)
      | Inr j \<Rightarrow> case (Inr () :: unit exc) of Inl e \<Rightarrow> ?P (Inl e) (w1\<lparr>srv := s', slept := slept (w1\<lparr>srv := s'\<rparr>) @ [fadd delay j]\<rparr>)
        | Inr _ \<Rightarrow> wp (retry_loop X call rt as (next_delay delay)) ?P
            (w1\<lparr>srv := s', slept := slept (w1\<lparr>srv := s'\<rparr>) @ [fadd delay j]\<rparr>)" by simp
  qed
  show ?case
    unfolding retry_loop.simps wp_catchE
  proof (rule wp_mono[OF attempt[OF en]], elim conjE)
    fix res and w1 :: "('a, 'm) world_scheme"
    assume at: "attempt_ok effect (view (srv w)) res (view (srv w1))" and s: "slept w1 = slept w"
    have ok: "retry_ok effect d res (view (srv w1))"
      using at Cons.prems(2) by (auto simp: retry_ok_def)
    have v: "view (srv w1) = d \<or> view (srv w1) = snd (effect d)"
      using at Cons.prems(2) idempotent[OF Cons.prems(1)] by (auto simp: attempt_ok_def)
    have ne: "as \<noteq> []" if "swallowed rt a e" for e
      using that Cons.prems(6) by (auto simp: swallowed_def)
    show "case res of Inl e \<Rightarrow> if swallowed rt a e
        then wp (thenE (back_off X delay) (retry_loop X call rt as (next_delay delay))) ?P w1
        else ?P (Inl e) w1 | Inr x \<Rightarrow> ?P (Inr x) w1"
      using ok s more[OF v s] ne by (auto simp: slept_more_refl split: sum.split)
  qed
qed

lemma write_retrying_safe:
  assumes "enabled (view (srv w))"
  shows "wp (write_retrying_overload X call rt)
    (\<lambda>res w'. retry_ok effect (view (srv w)) res (view (srv w')) \<and> slept_more OVERLOAD_MAX_RETRIES w w') w"
  using retry_loop_safe[OF assms, of w OVERLOAD_BASE_DELAY "[0..<OVERLOAD_MAX_RETRIES + 1]" rt]
  by (simp add: write_retrying_overload_def delay_bounds)

end

section \<open>The two calls the service repeats\<close>

lemma kput_again: "kput k v (kput k v m) = kput k v m"
  by (induction k v m rule: kput.induct) auto

lemma dset_again [simp]: "dset k v (dset k w d) = dset k v d"
  unfolding dset_def by (induction d) auto

text \<open>The effect of a single \<open>map_put\<close> in one equation.\<close>

definition put_map :: "bin_name \<Rightarrow> string \<Rightarrow> pyval \<Rightarrow> bins \<Rightarrow> dict option" where
  "put_map b k v bs =
     (case map_of bs b of None \<Rightarrow> Some [(k, v)] | Some (PDict m) \<Rightarrow> Some (kput k v m) | Some _ \<Rightarrow> None)"

lemma operate_put:
  "operate_db fits pk [MapPut b k v] None d =
     (let bs = (case d pk of None \<Rightarrow> [] | Some x \<Rightarrow> x) in
      case put_map b k v bs of
        None \<Rightarrow> (Inl incompatible, d)
      | Some m \<Rightarrow>
          if fits (dset b (PDict m) bs)
          then (Inr [(b, PInt (int (length m)))], d(pk \<mapsto> dset b (PDict m) bs))
          else (Inl RecordTooBig, d))"
  by (simp add: operate_db_def run_ops_def put_map_def Let_def dset_def split: option.split pyval.split)

lemma put_map_again: "put_map b k v bs = Some m \<Longrightarrow> put_map b k v (dset b (PDict m) bs) = Some m"
  by (auto simp: put_map_def kput_again split: option.splits pyval.splits)

lemma operate_put_again:
  assumes "fst (operate_db fits pk [MapPut b k v] None d) = Inr out"
  shows "operate_db fits pk [MapPut b k v] None (snd (operate_db fits pk [MapPut b k v] None d))
    = operate_db fits pk [MapPut b k v] None d"
  using assms unfolding operate_put Let_def
  by (cases "put_map b k v (case d pk of None \<Rightarrow> [] | Some x \<Rightarrow> x)")
    (auto simp: put_map_again fun_upd_idem split: if_splits)

lemma operate_error_unchanged:
  "fst (operate_db fits pk ops g d) = Inl e \<Longrightarrow> snd (operate_db fits pk ops g d) = d"
  by (auto simp: operate_db_def run_ops_def split: option.splits sum.splits if_splits prod.splits)

lemma map_put_idempotent:
  "snd (operate_db fits pk [MapPut b k v] None (snd (operate_db fits pk [MapPut b k v] None d)))
   = snd (operate_db fits pk [MapPut b k v] None d)"
  using operate_put_again[of fits pk b k v d] operate_error_unchanged[of fits pk "[MapPut b k v]" None d]
  by (cases "fst (operate_db fits pk [MapPut b k v] None d)") auto

lemma guarded_bump_idempotent:
  "d pk \<noteq> None \<Longrightarrow>
   snd (operate_db fits pk [Increment b 1, ReadBin b] (Some (b, n))
     (snd (operate_db fits pk [Increment b 1, ReadBin b] (Some (b, n)) d)))
   = snd (operate_db fits pk [Increment b 1, ReadBin b] (Some (b, n)) d)"
  by (auto simp: operate_db_def run_ops_def fun_upd_idem split: option.split pyval.split)

lemma guarded_bump_exists:
  "d pk \<noteq> None \<Longrightarrow> snd (operate_db fits pk ops g d) pk \<noteq> None"
  by (auto simp: operate_db_def run_ops_def split: option.split sum.split)

sublocale aerospike_client \<subseteq> put: retryable X view fits
    "client_operate X pk [MapPut b k v] None" "operate_db fits pk [MapPut b k v] None" "\<lambda>_. True"
  for pk b k v
proof (unfold_locales, goal_cases)
  case (1 w)
  show ?case by (rule wp_operate_attempt) simp
qed (simp_all add: map_put_idempotent)

sublocale aerospike_client \<subseteq> bump: retryable X view fits
    "client_operate X pk [Increment b 1, ReadBin b] (Some (b, old))"
    "operate_db fits pk [Increment b 1, ReadBin b] (Some (b, old))" "\<lambda>d. d pk \<noteq> None"
  for pk b old
proof (unfold_locales, goal_cases)
  case (1 w)
  then show ?case by (intro wp_operate_attempt) simp
qed (rule guarded_bump_exists guarded_bump_idempotent; assumption)+

section \<open>What comes out of the loop\<close>

context aerospike_client begin

lemma retry_loop_outcome:
  assumes quiet: "\<And>w. slept (snd (m w)) = slept w"
    and "0 \<le> delay" "delay \<le> OVERLOAD_MAX_DELAY" "as \<noteq> []" "last as = OVERLOAD_MAX_RETRIES"
  shows "wp (retry_loop X m rt as delay)
    (\<lambda>r w'. (\<exists>w1 w2. m w1 = (r, w2)) \<and> slept_more (length as - 1) w w') w"
  using assms(2-)
proof (induction as arbitrary: w delay)
  case (Cons a as)
  let ?Q = "\<lambda>n w r w'. (\<exists>w1 w2. m w1 = (r, w2)) \<and> slept_more n w w'"
  obtain r1 w1 where m: "m w = (r1, w1)" by fastforce
  have s1: "slept w1 = slept w" using quiet[of w] m by simp
  have again: "wp (thenE (back_off X delay) (retry_loop X m rt as (next_delay delay))) (?Q (length as) w) w1"
    if ne: "as \<noteq> []"
    unfolding back_off_def wp_simps
  proof (rule wp_uniform)
    fix s' j assume j: "0 \<le> j" "j \<le> delay"
    let ?w = "w1\<lparr>srv := s', slept := slept w1 @ [fadd delay j]\<rparr>"
    have "wp (retry_loop X m rt as (next_delay delay)) (?Q (length as - 1) ?w) ?w"
      using Cons.prems ne next_delay_bounds[OF Cons.prems(1)] by (intro Cons.IH) auto
    then have "wp (retry_loop X m rt as (next_delay delay)) (?Q (length as) w) ?w"
    proof (rule wp_mono)
      fix r w' assume h: "?Q (length as - 1) ?w r w'"
      have "slept_more (Suc (length as - 1)) w w'"
        using h s1 fadd_bound[OF Cons.prems(1,2) j] by (intro slept_more_step[where u = ?w]) simp_all
      with h ne show "?Q (length as) w r w'" by simp
    qed
    then show "case Inr j of Inl e \<Rightarrow> case (Inl e :: unit exc) of Inl e \<Rightarrow> ?Q (length as) w (Inl e) (w1\<lparr>srv := s'\<rparr>)
        | Inr _ \<Rightarrow> wp (retry_loop X m rt as (next_delay delay)) (?Q (length as) w) (w1\<lparr>srv := s'\<rparr>)
      | Inr j \<Rightarrow> case (Inr () :: unit exc) of
          Inl e \<Rightarrow> ?Q (length as) w (Inl e) (w1\<lparr>srv := s', slept := slept (w1\<lparr>srv := s'\<rparr>) @ [fadd delay j]\<rparr>)
        | Inr _ \<Rightarrow> wp (retry_loop X m rt as (next_delay delay)) (?Q (length as) w)
            (w1\<lparr>srv := s', slept := slept (w1\<lparr>srv := s'\<rparr>) @ [fadd delay j]\<rparr>)" by simp
  qed (rule Cons.prems)
  have ne: "as \<noteq> []" if "swallowed rt a e" for e
    using that Cons.prems(4) by (auto simp: swallowed_def)
  show ?case
    unfolding retry_loop.simps wp_catchE
    using m s1 again ne by (auto simp: wp_def slept_more_refl split: sum.split)
qed simp

lemma write_retrying_outcome:
  assumes "\<And>w. slept (snd (m w)) = slept w"
  shows "wp (write_retrying_overload X m rt)
    (\<lambda>r w'. (\<exists>w1 w2. m w1 = (r, w2)) \<and> slept_more OVERLOAD_MAX_RETRIES w w') w"
  using retry_loop_outcome[OF assms, of OVERLOAD_BASE_DELAY "[0..<OVERLOAD_MAX_RETRIES + 1]" rt w]
  by (simp add: write_retrying_overload_def delay_bounds)

end

context aerospike_client begin

lemma put_retrying_safe:
  "wp (write_retrying_overload X (client_operate X pk [MapPut b k v] None) rt)
    (\<lambda>res w'. retry_ok (operate_db fits pk [MapPut b k v] None) (view (srv w)) res (view (srv w'))) w"
  using put.write_retrying_safe[OF TrueI] by (rule wp_mono) simp

lemma bump_retrying_safe:
  "view (srv w) pk \<noteq> None \<Longrightarrow>
   wp (write_retrying_overload X (client_operate X pk [Increment b 1, ReadBin b] (Some (b, old))) rt)
    (\<lambda>res w'. retry_ok (operate_db fits pk [Increment b 1, ReadBin b] (Some (b, old)))
       (view (srv w)) res (view (srv w'))) w"
  by (rule wp_mono[OF bump.write_retrying_safe]) simp_all

end

lemma retry_ok_put:
  assumes "retry_ok (operate_db fits pk [MapPut b k v] None) d r d'"
    and "d1 = snd (operate_db fits pk [MapPut b k v] None d)"
  shows "d' = d \<or> d' = d1" "(\<exists>out. r = Inr out) \<Longrightarrow> d' = d1" "r = Inl (AE RecordTooBig) \<Longrightarrow> d' = d"
proof -
  let ?f = "operate_db fits pk [MapPut b k v] None"
  from assms obtain d0 where d0: "d0 = d \<or> d0 = d1" and a: "attempt_ok ?f d0 r d'"
    by (auto simp: retry_ok_def)
  have f0: "snd (?f d0) = d1" using d0 assms(2) map_put_idempotent[of fits pk b k v d] by auto
  have big: "d1 = d" if "fst (?f d0) = Inl RecordTooBig"
    using d0 that operate_put_again[of fits pk b k v d] f0
      operate_error_unchanged[of fits pk "[MapPut b k v]" None d] assms(2)
    by (cases "fst (?f d)") auto
  show "d' = d \<or> d' = d1" using a d0 f0 by (auto simp: attempt_ok_def)
  show "(\<exists>out. r = Inr out) \<Longrightarrow> d' = d1" using a f0 by (auto simp: attempt_ok_def)
  show "r = Inl (AE RecordTooBig) \<Longrightarrow> d' = d"
    using a f0 big by (cases "fst (?f d0)") (auto simp: attempt_ok_def transient_def)
qed

section \<open>Properties\<close>

text \<open>
  C11. The retry loop always ends with the outcome of one of its attempts, so it never reaches
  its final \<open>raise RuntimeError("unreachable")\<close> on its own; it sleeps at most ten times and
  for 4.01 seconds in total, whatever the calls do and whatever the random jitter is.
\<close>

theorem retry_bounded:
  assumes "aerospike_client X view fits" "\<And>w. slept (snd (m w)) = slept w"
    "write_retrying_overload X m rt w = (r, w')"
  shows "(\<exists>w1 w2. m w1 = (r, w2))
    \<and> length (slept w') \<le> length (slept w) + 10
    \<and> sum_list (drop (length (slept w)) (slept w')) \<le> 401 / 100"
proof -
  from wpD[OF aerospike_client.write_retrying_outcome[OF assms(1,2)] assms(3)]
  have m: "\<exists>w1 w2. m w1 = (r, w2)" and s: "slept_more 10 w w'"
    by (auto simp: OVERLOAD_MAX_RETRIES_def)
  then show ?thesis
    using slept_more_total[OF s] by (auto simp: slept_more_def sleep_bound_def)
qed

definition always_busy :: "mem_server world \<Rightarrow> unit exc \<times> mem_server world" where
  "always_busy = raiseE (AE DeviceOverload)"

definition idle_world :: "mem_server world" where
  "idle_world = \<lparr>srv = empty_server [], slept = []\<rparr>"

theorem retry_bounded_witness:
  "\<exists>r w'. write_retrying_overload (scripted_ext 100) always_busy True idle_world = (r, w')
     \<and> r = Inl (AE DeviceOverload) \<and> sum_list (slept w') \<le> 401 / 100"
proof -
  obtain r w' where run: "write_retrying_overload (scripted_ext 100) always_busy True idle_world = (r, w')"
    by fastforce
  have "slept (snd (always_busy w)) = slept w" for w by (simp add: always_busy_def raiseE_def)
  from retry_bounded[OF scripted.aerospike_client_axioms this run] run show ?thesis
    by (auto simp: always_busy_def raiseE_def idle_world_def)
qed

text \<open>
  C10. Repeating an append is harmless. Whichever attempts are rejected, lost or applied without
  an answer, after the loop the event was put into the segment once or not at all; it was, if
  the loop returned; and it was not, if the segment was too big for it.
\<close>

theorem retried_put_once:
  assumes "aerospike_client X view fits"
    "write_retrying_overload X (client_operate X pk [MapPut b k v] None) rt w = (r, w')"
    "d = view (srv w)" "d1 = snd (operate_db fits pk [MapPut b k v] None d)"
  shows "(view (srv w') = d \<or> view (srv w') = d1)
    \<and> ((\<exists>out. r = Inr out) \<longrightarrow> view (srv w') = d1)
    \<and> (r = Inl (AE RecordTooBig) \<longrightarrow> view (srv w') = d)"
proof -
  have "retry_ok (operate_db fits pk [MapPut b k v] None) d r (view (srv w'))"
    using wpD[OF aerospike_client.put_retrying_safe[OF assms(1)] assms(2)] assms(3) by simp
  from retry_ok_put[OF this assms(4)] show ?thesis by blast
qed

theorem retried_put_once_witness:
  "\<exists>r w'. write_retrying_overload (scripted_ext 100)
       (client_operate (scripted_ext 100) (''t'', ''s'', ''k'') [MapPut EVENTS ''e'' (PDict [])] None) True
       (idle_world\<lparr>srv := empty_server [(Applied TimeoutError, [])]\<rparr>) = (r, w')
     \<and> r = Inr [(EVENTS, PInt 1)]
     \<and> mem_view (srv w') = snd (operate_db (size_limit 100) (''t'', ''s'', ''k'')
          [MapPut EVENTS ''e'' (PDict [])] None (mem_view (empty_server [(Applied TimeoutError, [])])))"
proof -
  let ?X = "scripted_ext 100"
  let ?w = "idle_world\<lparr>srv := empty_server [(Applied TimeoutError, [])]\<rparr>"
  let ?c = "client_operate ?X (''t'', ''s'', ''k'') [MapPut EVENTS ''e'' (PDict [])] None"
  have first: "fst (?c ?w) = Inl (AE TimeoutError)" by code_simp
  have second: "fst (?c ((snd (?c ?w))\<lparr>slept := ds\<rparr>)) = Inr [(EVENTS, PInt 1)]" for ds by code_simp
  obtain r w' where run: "write_retrying_overload ?X ?c True ?w = (r, w')" by fastforce
  have attempts: "[0..<OVERLOAD_MAX_RETRIES + 1] = 0 # 1 # [2..<11]"
    by (simp add: OVERLOAD_MAX_RETRIES_def upt_rec[of 0] upt_rec[of "Suc 0"] numeral_2_eq_2)
  have "swallowed True 0 (AE TimeoutError)" by (simp add: swallowed_def OVERLOAD_MAX_RETRIES_def)
  from retry_loop_miss[where m = ?c and w = ?w, OF first this] have "write_retrying_overload ?X ?c True ?w =
      thenE (back_off ?X OVERLOAD_BASE_DELAY)
        (retry_loop ?X ?c True (1 # [2..<11]) (next_delay OVERLOAD_BASE_DELAY)) (snd (?c ?w))"
    unfolding write_retrying_overload_def attempts .
  also have "fst \<dots> = Inr [(EVENTS, PInt 1)]"
    by (simp add: thenE_def bindE_def back_off_def uniform_def scripted_ext_def sleep_def modifyE_def
        del: retry_loop.simps)
      (simp only: retry_loop_hit[where m = ?c, OF second] second scripted_ext_def[symmetric])
  finally have "fst (write_retrying_overload ?X ?c True ?w) = Inr [(EVENTS, PInt 1)]" .
  with run retried_put_once[OF scripted.aerospike_client_axioms run refl refl] show ?thesis
    by (auto simp: idle_world_def)
qed

end
