(* ===== verification/Keys.thy ===== *)
theory Keys
  imports Py_Format
begin

text \<open>
  \<^verbatim>\<open>_internal/keys.py\<close>: primary keys as strings. The lemmas say when two keys can be
  equal. Keys of one user are kept apart by the session id, the segment index, the file name
  and the version, whatever characters a file name holds; keys of different users are kept
  apart when the identifiers hold no colon; and three session ids are not available to
  callers, because the package uses their keys or their scope itself.
\<close>

definition SEP :: string where "SEP = '':''"
definition USER_SCOPE_SID :: string where "USER_SCOPE_SID = ''user''"
definition ARTIFACT_HEAD_SUFFIX :: string where "ARTIFACT_HEAD_SUFFIX = ''__head__''"
definition MEMORY_KW_PREFIX :: string where "MEMORY_KW_PREFIX = ''kw''"
definition SESSION_MANIFEST_SUFFIX :: string where "SESSION_MANIFEST_SUFFIX = ''sl''"
definition SEGMENT_KEY_PREFIX :: string where "SEGMENT_KEY_PREFIX = ''g:''"

definition session_key :: "string \<Rightarrow> string \<Rightarrow> string \<Rightarrow> string" where
  "session_key app_name user_id session_id = app_name @ SEP @ user_id @ SEP @ session_id"

definition segment_key :: "string \<Rightarrow> string \<Rightarrow> string \<Rightarrow> int \<Rightarrow> string" where
  "segment_key app_name user_id session_id segment_idx =
     app_name @ SEP @ user_id @ SEP @ session_id @ SEP @ SEGMENT_KEY_PREFIX @ fmt_0d 8 segment_idx"

definition app_state_key :: "string \<Rightarrow> string" where
  "app_state_key app_name = app_name"

definition user_state_key :: "string \<Rightarrow> string \<Rightarrow> string" where
  "user_state_key app_name user_id = app_name @ SEP @ user_id"

definition artifact_key :: "string \<Rightarrow> string \<Rightarrow> string \<Rightarrow> string \<Rightarrow> int \<Rightarrow> string" where
  "artifact_key app_name user_id session_id filename version =
     app_name @ SEP @ user_id @ SEP @ session_id @ SEP @ filename @ SEP @ fmt_0d 8 version"

definition artifact_head_key :: "string \<Rightarrow> string \<Rightarrow> string \<Rightarrow> string \<Rightarrow> string" where
  "artifact_head_key app_name user_id session_id filename =
     app_name @ SEP @ user_id @ SEP @ session_id @ SEP @ filename @ SEP @ ARTIFACT_HEAD_SUFFIX"

definition artifact_scope_id :: "string \<Rightarrow> string option \<Rightarrow> string exc" where
  "artifact_scope_id filename session_id =
     (if prefix ''user:'' filename then Inr USER_SCOPE_SID
      else case session_id of
          None \<Rightarrow> Inl (ValueError ''session_id is required for non-user-scoped artifacts'')
        | Some sid \<Rightarrow> Inr sid)"

definition memory_key :: "string \<Rightarrow> string \<Rightarrow> string \<Rightarrow> string \<Rightarrow> string" where
  "memory_key app_name user_id session_id event_id =
     app_name @ SEP @ user_id @ SEP @ session_id @ SEP @ event_id"

definition session_manifest_key :: "string \<Rightarrow> string \<Rightarrow> string" where
  "session_manifest_key app_name user_id =
     app_name @ SEP @ user_id @ SEP @ SESSION_MANIFEST_SUFFIX"

definition memory_posting_key :: "string \<Rightarrow> string \<Rightarrow> string \<Rightarrow> string" where
  "memory_posting_key app_name user_id token =
     app_name @ SEP @ user_id @ SEP @ MEMORY_KW_PREFIX @ SEP @ token"

definition scope_tuple :: "string \<Rightarrow> string \<Rightarrow> string \<Rightarrow> string" where
  "scope_tuple app_name user_id scope_id = app_name @ SEP @ user_id @ SEP @ scope_id"

lemmas key_consts = SEP_def USER_SCOPE_SID_def ARTIFACT_HEAD_SUFFIX_def MEMORY_KW_PREFIX_def
  SESSION_MANIFEST_SUFFIX_def SEGMENT_KEY_PREFIX_def

lemmas key_defs = session_key_def segment_key_def app_state_key_def user_state_key_def
  artifact_key_def artifact_head_key_def memory_key_def session_manifest_key_def
  memory_posting_key_def scope_tuple_def

section \<open>Fields separated by a colon\<close>

abbreviation no_colon :: "string \<Rightarrow> bool" where
  "no_colon s \<equiv> CHR '':'' \<notin> set s"

lemma first_field_eq:
  assumes "no_colon s" "no_colon s'"
  shows "s @ CHR '':'' # t = s' @ CHR '':'' # t' \<longleftrightarrow> s = s' \<and> t = t'"
proof
  assume eq: "s @ CHR '':'' # t = s' @ CHR '':'' # t'"
  have "before (CHR '':'') (s @ CHR '':'' # t) = s" "after (CHR '':'') (s @ CHR '':'' # t) = t"
    "before (CHR '':'') (s' @ CHR '':'' # t') = s'" "after (CHR '':'') (s' @ CHR '':'' # t') = t'"
    using assms by simp_all
  with eq show "s = s' \<and> t = t'" by simp
qed simp

lemma last_field_eq:
  assumes "no_colon t" "no_colon t'"
  shows "s @ CHR '':'' # t = s' @ CHR '':'' # t' \<longleftrightarrow> s = s' \<and> t = t'"
  using first_field_eq[of "rev t" "rev t'" "rev s" "rev s'"] assms
  by (metis append.assoc append_Cons append_Nil rev.simps(2) rev_append rev_rev_ident set_rev)

lemma no_colon_field: "no_colon s \<Longrightarrow> s \<noteq> a @ CHR '':'' # b"
  by auto

section \<open>Keys of one user\<close>

lemma session_key_inject [simp]: "session_key a u s = session_key a u s' \<longleftrightarrow> s = s'"
  by (simp add: session_key_def)

lemma segment_key_inject [simp]: "segment_key a u s i = segment_key a u s j \<longleftrightarrow> i = j"
  by (simp add: segment_key_def)

lemma segment_key_session: "segment_key a u s i = session_key a u (s @ '':g:'' @ fmt_0d 8 i)"
  by (simp add: segment_key_def session_key_def key_consts)

lemma segment_key_not_session: "no_colon s' \<Longrightarrow> segment_key a u s i \<noteq> session_key a u s'"
  by (auto simp: segment_key_session)

lemma segment_key_own_session [simp]:
  "segment_key a u s i \<noteq> session_key a u s" "session_key a u s \<noteq> segment_key a u s i"
  by (simp_all add: segment_key_session)

lemma segment_key_not_manifest [simp]:
  "segment_key a u s i \<noteq> session_manifest_key a u" "session_manifest_key a u \<noteq> segment_key a u s i"
proof -
  have "\<not> no_colon (s @ '':g:'' @ fmt_0d 8 i)" by simp
  moreover have "no_colon ''sl''" by simp
  ultimately have "s @ '':g:'' @ fmt_0d 8 i \<noteq> ''sl''" by metis
  then show "segment_key a u s i \<noteq> session_manifest_key a u"
    by (simp add: segment_key_session session_key_def session_manifest_key_def SESSION_MANIFEST_SUFFIX_def)
  then show "session_manifest_key a u \<noteq> segment_key a u s i" by simp
qed

lemma session_key_manifest: "session_key a u s = session_manifest_key a u \<longleftrightarrow> s = ''sl''"
  by (simp add: session_key_def session_manifest_key_def SESSION_MANIFEST_SUFFIX_def)

lemma segment_key_other_session:
  assumes "no_colon s" "no_colon s'"
  shows "segment_key a u s i = segment_key a u s' j \<longleftrightarrow> s = s' \<and> i = j"
  using first_field_eq[OF assms] by (simp add: segment_key_def key_consts)

lemma artifact_key_inject [simp]:
  "artifact_key a u s f v = artifact_key a u s f' v' \<longleftrightarrow> f = f' \<and> v = v'"
  using last_field_eq[of "fmt_0d 8 v" "fmt_0d 8 v'" f f']
  by (simp add: artifact_key_def SEP_def)

lemma artifact_head_key_inject [simp]:
  "artifact_head_key a u s f = artifact_head_key a u s f' \<longleftrightarrow> f = f'"
  by (simp add: artifact_head_key_def)

lemma head_suffix_not_digits: "fmt_0d 8 v \<noteq> ''__head__''"
proof
  assume eq: "fmt_0d 8 v = ''__head__''"
  show False
  proof (cases "v < 0")
    case True
    with eq show False by (simp add: fmt_0d_def)
  next
    case False
    then have "\<forall>c \<in> set (fmt_0d 8 v). is_digit c" by (intro fmt_nonneg_digits) simp
    with eq show False by (simp add: is_digit_def)
  qed
qed

lemma artifact_head_not_version [simp]:
  "artifact_head_key a u s f \<noteq> artifact_key a' u' s' f' v"
  "artifact_key a' u' s' f' v \<noteq> artifact_head_key a u s f"
proof -
  have "no_colon ''__head__''" by simp
  from last_field_eq[OF this fmt_no_colon[of 8 v]] head_suffix_not_digits[of v]
  show "artifact_head_key a u s f \<noteq> artifact_key a' u' s' f' v"
    unfolding artifact_head_key_def artifact_key_def key_consts
    by (metis append.assoc append_Cons append_Nil)
  then show "artifact_key a' u' s' f' v \<noteq> artifact_head_key a u s f" by simp
qed

lemma memory_key_inject: "no_colon s \<Longrightarrow> no_colon s' \<Longrightarrow>
  memory_key a u s e = memory_key a u s' e' \<longleftrightarrow> s = s' \<and> e = e'"
  by (simp add: memory_key_def SEP_def first_field_eq)

lemma memory_posting_key_inject [simp]:
  "memory_posting_key a u t = memory_posting_key a u t' \<longleftrightarrow> t = t'"
  by (simp add: memory_posting_key_def)

lemma memory_key_posting: "no_colon s \<Longrightarrow>
  memory_key a u s e = memory_posting_key a u t \<longleftrightarrow> s = ''kw'' \<and> e = t"
  using first_field_eq[of s "''kw''" e t]
  by (simp add: memory_key_def memory_posting_key_def key_consts)

section \<open>Properties\<close>

text \<open>
  Identifiers without a colon are recovered from their keys: two session keys, or two
  segment keys, are equal only when application, user, session and segment index are; and no
  segment record can be taken for a session record.
\<close>

theorem keys_separate_tenants:
  assumes "no_colon a" "no_colon u" "no_colon s" "no_colon a'" "no_colon u'" "no_colon s'"
  shows "(session_key a u s = session_key a' u' s' \<longleftrightarrow> a = a' \<and> u = u' \<and> s = s')
    \<and> (segment_key a u s i = segment_key a' u' s' j \<longleftrightarrow> a = a' \<and> u = u' \<and> s = s' \<and> i = j)
    \<and> session_key a u s \<noteq> segment_key a' u' s' j
    \<and> (user_state_key a u = user_state_key a' u' \<longleftrightarrow> a = a' \<and> u = u')"
proof (intro conjI)
  show "session_key a u s = session_key a' u' s' \<longleftrightarrow> a = a' \<and> u = u' \<and> s = s'"
    using assms by (simp add: session_key_def SEP_def first_field_eq)
  show "segment_key a u s i = segment_key a' u' s' j \<longleftrightarrow> a = a' \<and> u = u' \<and> s = s' \<and> i = j"
    using assms by (simp add: segment_key_def key_consts first_field_eq)
  show "session_key a u s \<noteq> segment_key a' u' s' j"
    using assms no_colon_field[of s] by (simp add: session_key_def segment_key_def key_consts first_field_eq)
  show "user_state_key a u = user_state_key a' u' \<longleftrightarrow> a = a' \<and> u = u'"
    using assms by (simp add: user_state_key_def SEP_def first_field_eq)
qed

theorem keys_separate_tenants_witness:
  "session_key ''app'' ''ann'' ''s1'' \<noteq> session_key ''app'' ''bob'' ''s1''
   \<and> segment_key ''app'' ''ann'' ''s1'' 0 \<noteq> segment_key ''app'' ''ann'' ''s1'' 1"
  using keys_separate_tenants[of "''app''" "''ann''" "''s1''" "''app''" "''bob''" "''s1''" 0 0]
    keys_separate_tenants[of "''app''" "''ann''" "''s1''" "''app''" "''ann''" "''s1''" 0 1]
  by simp

text \<open>
  C40. The session ids that are not free. Among the ids without a colon, exactly one has a session
  key equal to the key of the user's session manifest (\<open>sl\<close>), exactly one has memory rows whose
  keys can be those of posting lists (\<open>kw\<close>), and exactly one has the scope of the user-scoped
  artifacts (\<open>user\<close>). In that last case only the scopes
  fall together: a session's own file and a user-scoped file, whose name starts with \<open>user:\<close>, never
  share the key of a version or of a counter.
\<close>

theorem reserved_session_ids:
  assumes "no_colon s"
  shows "(session_key a u s = session_manifest_key a u \<longleftrightarrow> s = ''sl'')
    \<and> ((\<exists>e t. memory_key a u s e = memory_posting_key a u t) \<longleftrightarrow> s = ''kw'')
    \<and> (scope_tuple a u s = scope_tuple a u USER_SCOPE_SID \<longleftrightarrow> s = ''user'')
    \<and> ((\<exists>f. \<not> prefix ''user:'' f \<and> artifact_scope_id f (Some s) = Inr USER_SCOPE_SID) \<longleftrightarrow> s = ''user'')
    \<and> (\<forall>f f' v v'. \<not> prefix ''user:'' f \<longrightarrow> prefix ''user:'' f' \<longrightarrow>
        artifact_key a u s f v \<noteq> artifact_key a u USER_SCOPE_SID f' v'
        \<and> artifact_head_key a u s f \<noteq> artifact_head_key a u USER_SCOPE_SID f')"
proof (intro conjI allI impI)
  show "(\<exists>f. \<not> prefix ''user:'' f \<and> artifact_scope_id f (Some s) = Inr USER_SCOPE_SID) \<longleftrightarrow> s = ''user''"
    by (auto simp: artifact_scope_id_def USER_SCOPE_SID_def intro: exI[of _ "''a''"])
next
  fix f f' v v'
  assume f: "\<not> prefix ''user:'' f" "prefix ''user:'' f'"
  have scope: "no_colon ''user''" by simp
  have "s = ''user'' \<and> f @ CHR '':'' # x = f' @ CHR '':'' # y"
    if "s @ CHR '':'' # f @ CHR '':'' # x = ''user'' @ CHR '':'' # f' @ CHR '':'' # y" for x y
    using that unfolding first_field_eq[OF assms scope] .
  then have apart: "s @ CHR '':'' # f @ CHR '':'' # x \<noteq> ''user'' @ CHR '':'' # f' @ CHR '':'' # y"
    if "no_colon x" "no_colon y" for x y
    using f last_field_eq[OF that] by metis
  show "artifact_key a u s f v \<noteq> artifact_key a u USER_SCOPE_SID f' v'"
    using apart[OF fmt_no_colon fmt_no_colon, of 8 v 8 v'] by (simp add: artifact_key_def key_consts)
  show "artifact_head_key a u s f \<noteq> artifact_head_key a u USER_SCOPE_SID f'"
    using apart[of "''__head__''" "''__head__''"] by (simp add: artifact_head_key_def key_consts)
qed (use assms in \<open>auto simp: session_key_manifest memory_key_posting scope_tuple_def USER_SCOPE_SID_def\<close>)

theorem reserved_session_ids_witness:
  "session_key ''app'' ''ann'' ''sl'' = session_manifest_key ''app'' ''ann''
   \<and> (\<exists>e t. memory_key ''app'' ''ann'' ''kw'' e = memory_posting_key ''app'' ''ann'' t)
   \<and> scope_tuple ''app'' ''ann'' ''user'' = scope_tuple ''app'' ''ann'' USER_SCOPE_SID
   \<and> artifact_key ''app'' ''ann'' ''user'' ''a.txt'' 0 \<noteq> artifact_key ''app'' ''ann'' USER_SCOPE_SID ''user:a.txt'' 0"
  using reserved_session_ids[of "''sl''" "''app''" "''ann''"]
    reserved_session_ids[of "''kw''" "''app''" "''ann''"]
    reserved_session_ids[of "''user''" "''app''" "''ann''"] by simp

text \<open>
  A version counter never shares a key with a stored version, of any file of any tenant;
  and inside one scope a stored version's key determines file name and version, even for
  file names that hold colons.
\<close>

theorem artifact_keys_disjoint:
  "artifact_head_key a u s f \<noteq> artifact_key a' u' s' f' v
   \<and> (artifact_key a u s f v = artifact_key a u s f' v' \<longleftrightarrow> f = f' \<and> v = v')"
  by simp_all

end
