(* ===== verification/Py_Text.thy ===== *)
theory Py_Text
  imports Py_Format
begin

text \<open>
  Text in the form the components need it: which sequences of bytes are UTF-8, what
  \<open>decode\<close> makes of them in its strict and in its replacing mode, case folding of ASCII
  letters, and splitting and joining at a separator.
\<close>

section \<open>Characters\<close>

definition in_range :: "nat \<Rightarrow> nat \<Rightarrow> char \<Rightarrow> bool" where
  "in_range lo hi c \<longleftrightarrow> lo \<le> of_char c \<and> (of_char c :: nat) \<le> hi"

definition is_letter :: "char \<Rightarrow> bool" where
  "is_letter c \<longleftrightarrow> (65 \<le> (of_char c :: nat) \<and> (of_char c :: nat) \<le> 90) \<or> (97 \<le> (of_char c :: nat) \<and> (of_char c :: nat) \<le> 122)"

definition lower_char :: "char \<Rightarrow> char" where
  "lower_char c = (if 65 \<le> (of_char c :: nat) \<and> (of_char c :: nat) \<le> 90 then char_of ((of_char c :: nat) + 32) else c)"

definition lower :: "string \<Rightarrow> string" where
  "lower s = map lower_char s"

section \<open>UTF-8\<close>

abbreviation tail_byte :: "char \<Rightarrow> bool" where
  "tail_byte \<equiv> in_range 128 191"

text \<open>\<open>bytes.decode("utf-8")\<close> succeeds on exactly these sequences of bytes.\<close>

function utf8_valid :: "string \<Rightarrow> bool" where
  "utf8_valid [] = True"
| "utf8_valid (b # s) =
     (if in_range 0 127 b then utf8_valid s
      else case s of
        [] \<Rightarrow> False
      | c1 # s1 \<Rightarrow>
          if in_range 194 223 b then tail_byte c1 \<and> utf8_valid s1
          else case s1 of
            [] \<Rightarrow> False
          | c2 # s2 \<Rightarrow>
              if in_range 224 239 b then
                (if in_range 224 224 b then in_range 160 191 c1
                 else if in_range 237 237 b then in_range 128 159 c1 else tail_byte c1)
                \<and> tail_byte c2 \<and> utf8_valid s2
              else case s2 of
                [] \<Rightarrow> False
              | c3 # s3 \<Rightarrow>
                  in_range 240 244 b
                  \<and> (if in_range 240 240 b then in_range 144 191 c1
                     else if in_range 244 244 b then in_range 128 143 c1 else tail_byte c1)
                  \<and> tail_byte c2 \<and> tail_byte c3 \<and> utf8_valid s3)"
  by pat_completeness auto
termination by (relation "measure length") auto

definition decode_utf8 :: "string \<Rightarrow> string exc" where
  "decode_utf8 b = (if utf8_valid b then Inr b else Inl UnicodeDecodeError)"

text \<open>\<open>decode("utf-8", "replace")\<close>: the longest prefix of a sequence that could have been
  continued becomes one replacement character. \<open>tails b\<close> is the number of bytes that have to
  follow \<open>b\<close>, and \<open>good_tails\<close> how many of them do.\<close>

definition tails :: "char \<Rightarrow> nat" where
  "tails b = (if in_range 194 223 b then 1 else if in_range 224 239 b then 2
     else if in_range 240 244 b then 3 else 0)"

definition second_ok :: "char \<Rightarrow> char \<Rightarrow> bool" where
  "second_ok b c =
     (if in_range 224 224 b then in_range 160 191 c else if in_range 237 237 b then in_range 128 159 c
      else if in_range 240 240 b then in_range 144 191 c else if in_range 244 244 b then in_range 128 143 c
      else tail_byte c)"

fun good_tails :: "char \<Rightarrow> string \<Rightarrow> nat" where
  "good_tails b [] = 0"
| "good_tails b (c # s) =
     (if 0 < tails b \<and> second_ok b c then Suc (length (takeWhile tail_byte (take (tails b - 1) s))) else 0)"

definition REPLACEMENT :: string where
  "REPLACEMENT = [char_of (239 :: nat), char_of (191 :: nat), char_of (189 :: nat)]"

function utf8_replace :: "string \<Rightarrow> string" where
  "utf8_replace [] = []"
| "utf8_replace (b # s) =
     (let n = good_tails b s
      in (if in_range 0 127 b \<or> 0 < tails b \<and> n = tails b then b # take n s else REPLACEMENT)
         @ utf8_replace (drop n s))"
  by pat_completeness auto
termination by (relation "measure length") auto

lemma in_range_exclusive:
  "in_range a b c \<Longrightarrow> b < a' \<Longrightarrow> \<not> in_range a' b' c"
  by (simp add: in_range_def)

lemma in_range_mono: "in_range a b c \<Longrightarrow> a' \<le> a \<Longrightarrow> b \<le> b' \<Longrightarrow> in_range a' b' c"
  by (simp add: in_range_def)

lemma utf8_replace_seq:
  assumes "\<not> in_range 0 127 b" "length cs = tails b" "cs \<noteq> []" "second_ok b (hd cs)" "\<forall>c \<in> set (tl cs). tail_byte c"
  shows "utf8_replace (b # cs @ s) = b # cs @ utf8_replace s"
proof -
  obtain c r where c: "cs = c # r" using assms(3) by (cases cs) auto
  have tw: "takeWhile tail_byte r = r" using assms(5) c by (simp add: takeWhile_eq_all_conv)
  have "good_tails b (cs @ s) = tails b" using assms(2,4) c by (auto simp: tw)
  moreover have "0 < tails b" using assms(2,3) by (cases cs) auto
  ultimately show ?thesis using assms(1,2) by (simp add: Let_def)
qed

text \<open>A sequence of bytes that is UTF-8 decodes to itself in both modes.\<close>

lemma utf8_replace_valid: "utf8_valid s \<Longrightarrow> utf8_replace s = s"
proof (induction s rule: utf8_valid.induct)
  case 1
  then show ?case by simp
next
  case (2 b s)
  show ?case
  proof (cases "in_range 0 127 b")
    case True
    then have "tails b = 0" by (auto simp: tails_def in_range_def)
    then have "good_tails b s = 0" by (cases s) auto
    with True 2 show ?thesis by (simp add: Let_def)
  next
    case False
    note na = False
    from 2(5) False obtain c1 s1 where s: "s = c1 # s1" by (auto split: list.splits)
    show ?thesis
    proof (cases "in_range 194 223 b")
      case True
      then have "tails b = Suc 0" "second_ok b c1 = tail_byte c1"
        by (auto simp: tails_def second_ok_def in_range_def)
      with 2(2)[OF na s True] 2(5) na True s utf8_replace_seq[OF na, of "[c1]" s1] show ?thesis by simp
    next
      case False
      note n2 = False
      from 2(5) na n2 s obtain c2 s2 where s1: "s1 = c2 # s2" by (auto split: list.splits)
      show ?thesis
      proof (cases "in_range 224 239 b")
        case True
        then have "tails b = 2"
          "second_ok b c1 = (if in_range 224 224 b then in_range 160 191 c1
                 else if in_range 237 237 b then in_range 128 159 c1 else tail_byte c1)"
          by (auto simp: tails_def second_ok_def in_range_def)
        with 2(3)[OF na s n2 s1 True] 2(5) na n2 True s s1 utf8_replace_seq[OF na, of "[c1, c2]" s2]
        show ?thesis by simp
      next
        case False
        note n3 = False
        from 2(5) na n2 n3 s s1 obtain c3 s3 where s2: "s2 = c3 # s3" by (auto split: list.splits)
        from 2(5) na n2 n3 s s1 s2 have r: "in_range 240 244 b" by simp
        then have "tails b = 3"
          "second_ok b c1 = (if in_range 240 240 b then in_range 144 191 c1
                     else if in_range 244 244 b then in_range 128 143 c1 else tail_byte c1)"
          by (auto simp: tails_def second_ok_def in_range_def)
        with 2(4)[OF na s n2 s1 n3 s2] 2(5) na n2 n3 s s1 s2 utf8_replace_seq[OF na, of "[c1, c2, c3]" s3]
        show ?thesis by simp
      qed
    qed
  qed
qed

section \<open>Splitting and joining\<close>

fun join :: "string \<Rightarrow> string list \<Rightarrow> string" where
  "join sep [] = []"
| "join sep [x] = x"
| "join sep (x # y # ys) = x @ sep @ join sep (y # ys)"

lemma split_on_nonempty [simp]: "split_on c s \<noteq> []"
  by (induction s) (auto split: list.split)

lemma split_on_field: "c \<notin> set s \<Longrightarrow> hd (split_on c (s @ c # t)) = s"
  by (induction s) (auto split: list.split)

lemma split_on_none: "c \<notin> set s \<Longrightarrow> split_on c s = [s]"
  by (induction s) auto

lemma split_on_append: "c \<notin> set s \<Longrightarrow> split_on c (s @ c # t) = s # split_on c t"
  by (induction s) auto

text \<open>\<open>s.join(xs).split(s)\<close> for fields without the separator.\<close>

lemma split_on_join:
  "xs \<noteq> [] \<Longrightarrow> \<forall>x \<in> set xs. c \<notin> set x \<Longrightarrow> split_on c (join [c] xs) = xs"
  by (induction "[c]" xs rule: join.induct) (simp_all add: split_on_none split_on_append)

lemma set_join: "set (join sep xs) \<subseteq> set sep \<union> (\<Union>x \<in> set xs. set x)"
  by (induction sep xs rule: join.induct) auto

lemma before_none [simp]: "c \<notin> set s \<Longrightarrow> before c s = s"
  by (induction s) (auto simp: before_def)

lemma after_none [simp]: "c \<notin> set s \<Longrightarrow> after c s = []"
  by (induction s) (auto simp: after_def)

text \<open>\<open>s.rpartition(c)\<close>: the text around the last \<open>c\<close>.\<close>

definition before_last :: "char \<Rightarrow> string \<Rightarrow> string" where
  "before_last c s = rev (after c (rev s))"

definition after_last :: "char \<Rightarrow> string \<Rightarrow> string" where
  "after_last c s = rev (before c (rev s))"

lemma around_last [simp]:
  assumes "c \<notin> set t"
  shows "before_last c (s @ c # t) = s" "after_last c (s @ c # t) = t"
  using before_after_sep[of c "rev t" "rev s"] assms by (simp_all add: before_last_def after_last_def)

lemma around_last_none [simp]:
  assumes "c \<notin> set t"
  shows "before_last c t = []" "after_last c t = t"
  using assms by (simp_all add: before_last_def after_last_def)

end
