(* ===== verification/Codec.thy ===== *)
theory Codec
  imports Schema Py_Float Py_Text
begin

text \<open>
  \<^verbatim>\<open>_internal/codec.py\<close>: the ADK types as far as the package reads them, the Map an event
  is stored as, and the key it is stored under. Pydantic's \<open>model_dump\<close> and
  \<open>model_validate\<close> and the base class's \<open>append_event\<close> belong to ADK and are the fields of
  the argument \<open>A\<close> of type \<open>adk\<close>; \<open>lossless\<close> and \<open>base_keeps\<close> say what is relied on.
\<close>

section \<open>ADK types\<close>

record blob =
  bl_mime_type :: "string option"
  bl_data :: "string option"

record file_data =
  fd_file_uri :: "string option"
  fd_mime_type :: "string option"

record part =
  pt_text :: "string option"
  pt_inline_data :: "blob option"
  pt_file_data :: "file_data option"

record content =
  ct_role :: "string option"
  ct_parts :: "part list option"

text \<open>\<open>ev_rest\<close> stands for the fields that the package passes on without reading them.\<close>

record event =
  ev_id :: string
  ev_timestamp :: rat
  ev_author :: string
  ev_content :: "content option"
  ev_partial :: bool
  ev_state_delta :: dict
  ev_rest :: dict

record session =
  s_id :: string
  s_app_name :: string
  s_user_id :: string
  s_state :: dict
  s_events :: "event list"
  s_last_update_time :: pyval

record adk =
  dump_event :: "event \<Rightarrow> dict"
  validate_event :: "dict \<Rightarrow> event exc"
  dump_content :: "content \<Rightarrow> dict"
  validate_content :: "pyval \<Rightarrow> content exc"
  base_append_event :: "session \<Rightarrow> event \<Rightarrow> session \<times> event"
  format_timestamp :: "rat \<Rightarrow> string"

definition lossless :: "adk \<Rightarrow> bool" where
  "lossless A \<longleftrightarrow> (\<forall>e. validate_event A (dump_event A e) = Inr e)"

text \<open>What a dump holds beside the rest: the model's fields under their names.\<close>

definition dumps_fields :: "adk \<Rightarrow> bool" where
  "dumps_fields A \<longleftrightarrow> (\<forall>e. map_of (dump_event A e) ''id'' = Some (PStr (ev_id e))
     \<and> map_of (dump_event A e) ''timestamp'' = Some (PFloat (ev_timestamp e))
     \<and> map_of (dump_event A e) ''author'' = Some (PStr (ev_author e)))"

text \<open>What the base class's \<open>append_event\<close> leaves alone: the identity of the session, and of
  the event everything but its state delta.\<close>

definition base_keeps :: "adk \<Rightarrow> bool" where
  "base_keeps A \<longleftrightarrow> (\<forall>s e. s_id (fst (base_append_event A s e)) = s_id s
     \<and> s_app_name (fst (base_append_event A s e)) = s_app_name s
     \<and> s_user_id (fst (base_append_event A s e)) = s_user_id s
     \<and> ev_id (snd (base_append_event A s e)) = ev_id e
     \<and> ev_timestamp (snd (base_append_event A s e)) = ev_timestamp e
     \<and> ev_partial (snd (base_append_event A s e)) = ev_partial e)"

fun opt_str :: "pyval \<Rightarrow> string option exc" where
  "opt_str PNone = Inr None"
| "opt_str (PStr s) = Inr (Some s)"
| "opt_str v = Inl (ValidationError ''not a string'')"

section \<open>Events as Maps\<close>

definition event_to_inline_dict :: "adk \<Rightarrow> event \<Rightarrow> dict" where
  "event_to_inline_dict A event =
     (let dump = dump_event A event in
      [(field_wire EF_SCHEMA_VERSION, PInt (int EVENT_SCHEMA_VERSION)),
       (field_wire EF_EVENT_ID, pget dump ''id''),
       (field_wire EF_TIMESTAMP, dget dump ''timestamp'' (PFloat 0)),
       (field_wire EF_AUTHOR, pget dump ''author''),
       (field_wire EF_PAYLOAD, PDict dump)])"

text \<open>\<open>v >= n\<close> for a number \<open>v\<close>; Python refuses to compare anything else with an int.\<close>

fun ge_int :: "pyval \<Rightarrow> int \<Rightarrow> bool exc" where
  "ge_int (PInt i) n = Inr (n \<le> i)"
| "ge_int (PBool b) n = Inr (n \<le> (if b then 1 else 0))"
| "ge_int (PFloat r) n = Inr (of_int n \<le> r)"
| "ge_int v n = Inl (TypeError ''not supported between instances'')"

definition slim_event :: "dict \<Rightarrow> dict" where
  "slim_event d =
     [(''id'', py_or (pget d (field_wire EF_EVENT_ID)) (PStr [])),
      (''timestamp'', dget d (field_wire EF_TIMESTAMP) (PFloat 0)),
      (''author'', pget d (field_wire EF_AUTHOR)),
      (''content'', pget d (field_wire EF_CONTENT)),
      (''actions'', pget d (field_wire EF_ACTIONS)),
      (''branch'', pget d (field_wire EF_BRANCH))]"

definition event_from_inline_dict :: "adk \<Rightarrow> dict \<Rightarrow> event exc" where
  "event_from_inline_dict A d =
     (let payload = pget d (field_wire EF_PAYLOAD) in
      ebind (ge_int (dget d (field_wire EF_SCHEMA_VERSION) (PInt 0)) 2) (\<lambda>v2.
        case (v2, payload) of
          (True, PDict p) \<Rightarrow> validate_event A p
        | _ \<Rightarrow> validate_event A (slim_event d)))"

section \<open>Event keys\<close>

definition ts_micros :: "rat \<Rightarrow> int" where
  "ts_micros timestamp = trunc (fmul timestamp 1000000)"

definition event_map_key :: "string \<Rightarrow> rat \<Rightarrow> string" where
  "event_map_key event_id timestamp = fmt_0d 20 (ts_micros timestamp) @ '':'' @ event_id"

definition event_ts_from_map_key :: "string \<Rightarrow> rat exc" where
  "event_ts_from_map_key key =
     ebind (int_of_str (hd (split_on (CHR '':'') key))) (\<lambda>micros. Inr (fdiv (of_int micros) 1000000))"

section \<open>Text\<close>

definition part_texts :: "part list \<Rightarrow> string list" where
  "part_texts ps = concat (map (\<lambda>p. case pt_text p of
     None \<Rightarrow> [] | Some t \<Rightarrow> if t = [] then [] else [t]) ps)"

definition extract_event_text :: "event \<Rightarrow> string" where
  "extract_event_text event =
     (case ev_content event of
        None \<Rightarrow> []
      | Some c \<Rightarrow>
          (case ct_parts c of
             None \<Rightarrow> []
           | Some ps \<Rightarrow> if ps = [] then [] else join '' '' (part_texts ps)))"

section \<open>Lemmas\<close>

lemma ts_micros_mono: "t \<le> t' \<Longrightarrow> ts_micros t \<le> ts_micros t'"
  by (simp add: ts_micros_def fmul_def trunc_mono rnd_mono)

lemma ts_micros_nonneg: "0 \<le> t \<Longrightarrow> 0 \<le> ts_micros t"
  by (simp add: ts_micros_def fmul_def trunc_nonneg rnd_nonneg)

lemma ts_micros_of_int: "0 \<le> t \<Longrightarrow> t < 9000000000 \<Longrightarrow> ts_micros (of_int t) = t * 1000000"
  using rnd_of_int[of "t * 1000000"] floor_of_int[where 'a = rat, of "t * 1000000"]
  by (simp add: ts_micros_def fmul_def trunc_def)

text \<open>Timestamps the 20 digits of a key can hold.\<close>

definition ts_ok :: "rat \<Rightarrow> bool" where
  "ts_ok t \<longleftrightarrow> 0 \<le> t \<and> ts_micros t < 10 ^ 20"

lemma key_less_iff:
  assumes "ts_ok t" "ts_ok t'"
  shows "event_map_key i t < event_map_key j t' \<longleftrightarrow>
    ts_micros t < ts_micros t' \<or> ts_micros t = ts_micros t' \<and> i < j"
proof -
  have m: "0 \<le> ts_micros t" "ts_micros t < 10 ^ 20" "0 \<le> ts_micros t'" "ts_micros t' < 10 ^ 20"
    using assms ts_micros_nonneg by (auto simp: ts_ok_def)
  then show ?thesis
    unfolding event_map_key_def
    by (subst append_less_iff) (simp_all add: length_fmt fmt_less_iff)
qed

lemma key_inject: "event_map_key i t = event_map_key j t' \<longleftrightarrow> i = j \<and> ts_micros t = ts_micros t'"
proof
  assume eq: "event_map_key i t = event_map_key j t'"
  have "before (CHR '':'') (event_map_key i t) = fmt_0d 20 (ts_micros t)"
    "before (CHR '':'') (event_map_key j t') = fmt_0d 20 (ts_micros t')"
    by (simp_all add: event_map_key_def)
  with eq have "ts_micros t = ts_micros t'" by (simp only: fmt_inject)
  with eq show "i = j \<and> ts_micros t = ts_micros t'" by (simp add: event_map_key_def)
qed (simp add: event_map_key_def)

text \<open>The lower bound of an \<open>after_timestamp\<close> read is the prefix of a key without its id.\<close>

definition cutoff_key :: "rat \<Rightarrow> string" where
  "cutoff_key after_ts = fmt_0d 20 (ts_micros after_ts) @ '':''"

lemma cutoff_le_key:
  assumes "ts_ok c" "ts_ok t"
  shows "cutoff_key c \<le> event_map_key i t \<longleftrightarrow> ts_micros c \<le> ts_micros t"
proof -
  have e: "cutoff_key c = event_map_key [] c" by (simp add: cutoff_key_def event_map_key_def)
  have "cutoff_key c \<le> event_map_key i t \<longleftrightarrow> \<not> event_map_key i t < event_map_key [] c"
    unfolding e by (simp add: not_less)
  also have "\<dots> \<longleftrightarrow> ts_micros c \<le> ts_micros t"
    using key_less_iff[OF assms(2,1), of i "[]"] by auto
  finally show ?thesis .
qed

lemma key_less_end: "event_map_key i t < '':''"
proof -
  obtain c s where k: "event_map_key i t = c # s" "c = CHR ''-'' \<or> is_digit c"
  proof (cases "ts_micros t < 0")
    case True
    then show ?thesis by (intro that[of "CHR ''-''"]) (simp_all add: event_map_key_def fmt_0d_def)
  next
    case False
    let ?f = "fmt_0d 20 (ts_micros t)"
    have "?f \<noteq> []" using False by (simp add: fmt_nonneg pad0_def)
    moreover from this have "is_digit (hd ?f)" using False fmt_nonneg_digits[of "ts_micros t" 20] by simp
    ultimately show ?thesis
      by (intro that[of "hd ?f" "tl ?f @ '':'' @ i"]) (simp_all add: event_map_key_def)
  qed
  have "c < CHR '':''" using k(2) by (auto simp: is_digit_def less_char_def)
  with k(1) show ?thesis by simp
qed

text \<open>A stored event is read from its payload, not from the copies next to it.\<close>

lemma stored_payload:
  "event_from_inline_dict A (event_to_inline_dict A e) = validate_event A (dump_event A e)"
  by (simp add: event_from_inline_dict_def event_to_inline_dict_def Let_def dget_def EVENT_SCHEMA_VERSION_def)

section \<open>Properties\<close>

text \<open>
  C33. The stored form of an event. The Map put into a segment has exactly five fields: the schema
  version 2, the event's own id, timestamp and author, and its full dump. An event read from that
  Map is the event that was stored, in whatever order the server keeps the fields. A record of an
  older version, without a payload, is read from its slim fields, each under the name that ADK's
  model has for it.
\<close>

theorem event_codec_roundtrip:
  assumes "lossless A" "dumps_fields A"
  shows "map_of (event_to_inline_dict A e) = [''_v'' \<mapsto> PInt 2, ''eid'' \<mapsto> PStr (ev_id e),
        ''ts'' \<mapsto> PFloat (ev_timestamp e), ''author'' \<mapsto> PStr (ev_author e), ''payload'' \<mapsto> PDict (dump_event A e)]
    \<and> (\<forall>d. map_of d = map_of (event_to_inline_dict A e) \<longrightarrow> event_from_inline_dict A d = Inr e)
    \<and> (\<forall>n i t au con act br. n < 2 \<longrightarrow>
        event_from_inline_dict A [(''_v'', PInt n), (''eid'', PStr i), (''ts'', t), (''author'', au),
          (''content'', con), (''actions'', act), (''branch'', br)]
        = validate_event A [(''id'', PStr i), (''timestamp'', t), (''author'', au),
          (''content'', con), (''actions'', act), (''branch'', br)])"
proof (intro conjI allI impI)
  show fields: "map_of (event_to_inline_dict A e) = [''_v'' \<mapsto> PInt 2, ''eid'' \<mapsto> PStr (ev_id e),
        ''ts'' \<mapsto> PFloat (ev_timestamp e), ''author'' \<mapsto> PStr (ev_author e), ''payload'' \<mapsto> PDict (dump_event A e)]"
    using assms(2) unfolding dumps_fields_def
    by (simp add: event_to_inline_dict_def Let_def dget_def EVENT_SCHEMA_VERSION_def fun_eq_iff)
  show "event_from_inline_dict A d = Inr e" if "map_of d = map_of (event_to_inline_dict A e)" for d
    using that assms(1) unfolding fields lossless_def by (simp add: event_from_inline_dict_def dget_def)
next
  fix n i t au con act br
  assume "(n :: int) < 2"
  then show "event_from_inline_dict A [(''_v'', PInt n), (''eid'', PStr i), (''ts'', t), (''author'', au),
          (''content'', con), (''actions'', act), (''branch'', br)]
        = validate_event A [(''id'', PStr i), (''timestamp'', t), (''author'', au),
          (''content'', con), (''actions'', act), (''branch'', br)]"
    by (simp add: event_from_inline_dict_def slim_event_def dget_def py_or_def)
qed

text \<open>
  C34. Keys sort the way events happened. For timestamps that fit the 20 digits, the byte order
  of two keys is the order of the microseconds, with the event id deciding inside one
  microsecond; a later timestamp never gets an earlier microsecond in spite of the rounding of
  the multiplication; and two keys are equal only for one event id in one microsecond.
\<close>

theorem event_keys_chronological:
  assumes "ts_ok t" "ts_ok t'"
  shows "(event_map_key i t < event_map_key j t' \<longleftrightarrow>
          ts_micros t < ts_micros t' \<or> ts_micros t = ts_micros t' \<and> i < j)
    \<and> (t \<le> t' \<longrightarrow> ts_micros t \<le> ts_micros t')
    \<and> (event_map_key i t = event_map_key j t' \<longleftrightarrow> i = j \<and> ts_micros t = ts_micros t')"
  using assms by (simp add: key_less_iff ts_micros_mono key_inject)

text \<open>
  The range read for \<open>after_timestamp\<close> selects exactly the events whose microsecond is not
  before the cutoff's, and its upper bound excludes no event.
\<close>

theorem cutoff_selects_events:
  assumes "ts_ok c" "ts_ok t"
  shows "(cutoff_key c \<le> event_map_key i t \<and> event_map_key i t < '':'')
    \<longleftrightarrow> ts_micros c \<le> ts_micros t"
  using assms by (simp add: cutoff_le_key key_less_end)

text \<open>\<open>event_ts_from_map_key\<close> reads the microseconds of a key back, in seconds.\<close>

lemma event_ts_roundtrip:
  assumes "0 \<le> t"
  shows "event_ts_from_map_key (event_map_key i t) = Inr (fdiv (of_int (ts_micros t)) 1000000)"
  using assms
  by (simp add: event_ts_from_map_key_def event_map_key_def split_on_field int_of_str_fmt ts_micros_nonneg)

section \<open>A concrete ADK for the witnesses\<close>

text \<open>Every field is stored under its own name; \<open>content\<close> is a list of the parts' fields.\<close>

definition opt_val :: "('a \<Rightarrow> pyval) \<Rightarrow> 'a option \<Rightarrow> pyval" where
  "opt_val f x = (case x of None \<Rightarrow> PNone | Some y \<Rightarrow> PList [f y])"

fun val_opt :: "(pyval \<Rightarrow> 'a) \<Rightarrow> pyval \<Rightarrow> 'a option" where
  "val_opt g (PList [v]) = Some (g v)"
| "val_opt g _ = None"

fun val_str :: "pyval \<Rightarrow> string" where
  "val_str (PStr s) = s"
| "val_str _ = []"

fun val_list :: "pyval \<Rightarrow> pyval list" where
  "val_list (PList l) = l"
| "val_list _ = []"

fun val_dict :: "pyval \<Rightarrow> dict" where
  "val_dict (PDict d) = d"
| "val_dict _ = []"

fun val_float :: "pyval \<Rightarrow> rat" where
  "val_float (PFloat r) = r"
| "val_float _ = 0"

definition part_val :: "part \<Rightarrow> pyval" where
  "part_val p = PList
     [opt_val PStr (pt_text p),
      opt_val (\<lambda>b. PList [opt_val PStr (bl_mime_type b), opt_val PStr (bl_data b)]) (pt_inline_data p),
      opt_val (\<lambda>f. PList [opt_val PStr (fd_file_uri f), opt_val PStr (fd_mime_type f)]) (pt_file_data p)]"

definition val_part :: "pyval \<Rightarrow> part" where
  "val_part v = \<lparr>pt_text = val_opt val_str (val_list v ! 0),
     pt_inline_data = val_opt (\<lambda>b. \<lparr>bl_mime_type = val_opt val_str (val_list b ! 0),
        bl_data = val_opt val_str (val_list b ! 1)\<rparr>) (val_list v ! 1),
     pt_file_data = val_opt (\<lambda>f. \<lparr>fd_file_uri = val_opt val_str (val_list f ! 0),
        fd_mime_type = val_opt val_str (val_list f ! 1)\<rparr>) (val_list v ! 2)\<rparr>"

definition content_val :: "content \<Rightarrow> dict" where
  "content_val c = [(''role'', opt_val PStr (ct_role c)),
     (''parts'', opt_val (\<lambda>ps. PList (map part_val ps)) (ct_parts c))]"

definition val_content :: "pyval \<Rightarrow> content" where
  "val_content v = \<lparr>ct_role = val_opt val_str (pget (val_dict v) ''role''),
     ct_parts = val_opt (\<lambda>l. map val_part (val_list l)) (pget (val_dict v) ''parts'')\<rparr>"

definition event_val :: "event \<Rightarrow> dict" where
  "event_val e = [(''id'', PStr (ev_id e)), (''timestamp'', PFloat (ev_timestamp e)),
     (''author'', PStr (ev_author e)), (''content'', opt_val (\<lambda>c. PDict (content_val c)) (ev_content e)),
     (''partial'', PBool (ev_partial e)), (''actions'', PDict (ev_state_delta e)),
     (''rest'', PDict (ev_rest e))]"

definition val_event :: "dict \<Rightarrow> event" where
  "val_event d = \<lparr>ev_id = val_str (pget d ''id''), ev_timestamp = val_float (pget d ''timestamp''),
     ev_author = val_str (pget d ''author''), ev_content = val_opt val_content (pget d ''content''),
     ev_partial = truthy (pget d ''partial''), ev_state_delta = val_dict (pget d ''actions''),
     ev_rest = val_dict (pget d ''rest'')\<rparr>"

definition temp_free :: "dict \<Rightarrow> dict" where
  "temp_free d = filter (\<lambda>(k, _). \<not> prefix SCOPE_TEMP k) d"

text \<open>ADK's base class drops the \<open>temp:\<close> keys from the delta of an event that it applies.\<close>

definition strips_temp :: "adk \<Rightarrow> bool" where
  "strips_temp A \<longleftrightarrow> (\<forall>s e. \<not> ev_partial e \<longrightarrow>
     snd (base_append_event A s e) = e\<lparr>ev_state_delta := temp_free (ev_state_delta e)\<rparr>)"

definition sample_adk :: adk where
  "sample_adk =
     \<lparr>dump_event = event_val, validate_event = (\<lambda>d. Inr (val_event d)),
      dump_content = content_val, validate_content = (\<lambda>v. Inr (val_content v)),
      base_append_event = (\<lambda>s e.
        if ev_partial e then (s, e)
        else let e' = e\<lparr>ev_state_delta := temp_free (ev_state_delta e)\<rparr>
             in (s\<lparr>s_state := dupdate (s_state s) (ev_state_delta e), s_events := s_events s @ [e']\<rparr>, e')),
      format_timestamp = (\<lambda>t. fmt_0d 1 (trunc t))\<rparr>"

lemma val_opt_val: "(\<And>x. g (f x) = x) \<Longrightarrow> val_opt g (opt_val f x) = x"
  by (cases x) (simp_all add: opt_val_def)

lemma val_part_val: "val_part (part_val p) = p"
  by (cases p) (simp add: part_val_def val_part_def val_opt_val)

lemma val_content_val: "val_content (PDict (content_val c)) = c"
  by (cases c) (simp add: content_val_def val_content_def dget_def val_opt_val val_part_val comp_def)

lemma val_event_val: "val_event (event_val e) = e"
  by (cases e) (simp add: event_val_def val_event_def dget_def val_opt_val val_content_val)

lemma sample_adk_lossless: "lossless sample_adk"
  by (simp add: lossless_def sample_adk_def val_event_val)

lemma sample_adk_dumps: "dumps_fields sample_adk"
  by (simp add: dumps_fields_def sample_adk_def event_val_def)

lemma sample_adk_keeps: "base_keeps sample_adk"
  by (simp add: base_keeps_def sample_adk_def Let_def)

lemma sample_adk_strips: "strips_temp sample_adk" "base_keeps sample_adk"
  by (simp_all add: strips_temp_def base_keeps_def sample_adk_def Let_def)

definition sample_event :: "string \<Rightarrow> rat \<Rightarrow> dict \<Rightarrow> event" where
  "sample_event i t d = \<lparr>ev_id = i, ev_timestamp = t, ev_author = ''user'',
     ev_content = Some \<lparr>ct_role = Some ''user'', ct_parts = Some [\<lparr>pt_text = Some ''hello'', pt_inline_data = None,
       pt_file_data = None\<rparr>]\<rparr>, ev_partial = False, ev_state_delta = d, ev_rest = []\<rparr>"

theorem event_codec_roundtrip_witness:
  "event_from_inline_dict sample_adk (rev (event_to_inline_dict sample_adk (sample_event ''e1'' 5 [])))
     = Inr (sample_event ''e1'' 5 [])
   \<and> map_of (event_to_inline_dict sample_adk (sample_event ''e1'' 5 [])) ''eid'' = Some (PStr ''e1'')
   \<and> map_of (event_to_inline_dict sample_adk (sample_event ''e1'' 5 [])) ''author'' = Some (PStr ''user'')"
proof -
  note roundtrip = event_codec_roundtrip[OF sample_adk_lossless sample_adk_dumps, of "sample_event ''e1'' 5 []"]
  have "map_of (rev (event_to_inline_dict sample_adk (sample_event ''e1'' 5 [])))
      = map_of (event_to_inline_dict sample_adk (sample_event ''e1'' 5 []))"
    by (rule map_of_rev_distinct) (simp add: event_to_inline_dict_def Let_def)
  with roundtrip show ?thesis by (auto simp: sample_event_def)
qed

lemma ts_micros_5: "ts_micros 5 = 5000000" "ts_micros 6 = 6000000"
  using ts_micros_of_int[of 5] ts_micros_of_int[of 6] by simp_all

lemma ts_ok_5: "ts_ok 5" "ts_ok 6"
  by (simp_all add: ts_ok_def ts_micros_5)

theorem event_keys_chronological_witness:
  "event_map_key ''b'' 5 < event_map_key ''a'' 6 \<and> event_map_key ''a'' 5 < event_map_key ''b'' 5"
  using event_keys_chronological[OF ts_ok_5, of "''b''" "''a''"]
    event_keys_chronological[OF ts_ok_5(1) ts_ok_5(1), of "''a''" "''b''"]
  by (simp add: ts_micros_5)

theorem cutoff_selects_events_witness:
  "\<not> (cutoff_key 6 \<le> event_map_key ''a'' 5 \<and> event_map_key ''a'' 5 < '':'')
   \<and> cutoff_key 5 \<le> event_map_key ''a'' 6"
  using cutoff_selects_events[OF ts_ok_5(2) ts_ok_5(1), of "''a''"]
    cutoff_selects_events[OF ts_ok_5, of "''a''"]
  by (simp add: ts_micros_5)

end
