(* ===== verification/Session_State.thy ===== *)
theory Session_State
  imports Aerospike_Api
begin

text \<open>
  The three scopes of a session's state, from \<^verbatim>\<open>sessions/service.py\<close>: \<open>partition_state\<close>
  splits what a caller sets by the prefix of its keys, \<open>merge_state\<close> puts the stored parts
  back together. The properties say that one undoes the other except for the keys that are
  never stored, and that the order of two concurrent writes to different keys is irrelevant.
\<close>

definition removeprefix :: "string \<Rightarrow> string \<Rightarrow> string" where
  "removeprefix p s = (if prefix p s then drop (length p) s else s)"

fun partition_item :: "string \<Rightarrow> pyval \<Rightarrow> dict \<times> dict \<times> dict \<Rightarrow> dict \<times> dict \<times> dict" where
  "partition_item k v (session_state, app_delta, user_delta) =
     (if prefix SCOPE_TEMP k then (session_state, app_delta, user_delta)
      else if prefix SCOPE_APP k then (session_state, dset (removeprefix SCOPE_APP k) v app_delta, user_delta)
      else if prefix SCOPE_USER k then (session_state, app_delta, dset (removeprefix SCOPE_USER k) v user_delta)
      else (dset k v session_state, app_delta, user_delta))"

fun partition_loop :: "dict \<Rightarrow> dict \<times> dict \<times> dict \<Rightarrow> dict \<times> dict \<times> dict" where
  "partition_loop [] acc = acc"
| "partition_loop ((k, v) # items) acc = partition_loop items (partition_item k v acc)"

definition partition_state :: "dict \<Rightarrow> dict \<times> dict \<times> dict" where
  "partition_state state = partition_loop state ([], [], [])"

text \<open>The arguments arrive as they were stored; \<open>items()\<close> and \<open>update\<close> reject what is not
  a dictionary.\<close>

definition merge_state :: "pyval \<Rightarrow> pyval \<Rightarrow> pyval \<Rightarrow> dict exc" where
  "merge_state app_state user_state session_state =
     ebind (dict_items app_state) (\<lambda>app.
     ebind (dict_items user_state) (\<lambda>user.
     ebind (case session_state of PDict d \<Rightarrow> Inr d | _ \<Rightarrow> Inl (TypeError ''update'')) (\<lambda>session.
       let merged = dupdate [] (map (\<lambda>(k, v). (SCOPE_APP @ k, v)) app);
           merged = dupdate merged (map (\<lambda>(k, v). (SCOPE_USER @ k, v)) user)
       in Inr (dupdate merged session))))"

section \<open>Lemmas\<close>

lemmas scope_defs = SCOPE_APP_def SCOPE_USER_def SCOPE_TEMP_def

lemma merge_state_dicts:
  "merge_state (PDict a) (PDict u) (PDict s) =
     Inr (dupdate (dupdate (dupdate [] (map (\<lambda>(k, v). (SCOPE_APP @ k, v)) a))
                           (map (\<lambda>(k, v). (SCOPE_USER @ k, v)) u)) s)"
  by (simp add: merge_state_def Let_def)

lemma map_of_prefixed:
  "map_of (map (\<lambda>(k, v). (p @ k, v)) d) k =
     (if prefix p k then map_of d (drop (length p) k) else None)"
  by (induction d) (auto simp: prefix_def)

lemma map_of_rev_prefixed:
  "map_of (rev (map (\<lambda>(k, v). (p @ k, v)) d)) k =
     (if prefix p k then map_of (rev d) (drop (length p) k) else None)"
  unfolding rev_map by (rule map_of_prefixed)

lemma scopes_apart:
  "prefix SCOPE_APP k \<Longrightarrow> \<not> prefix SCOPE_USER k"
  "prefix SCOPE_APP k \<Longrightarrow> \<not> prefix SCOPE_TEMP k"
  "prefix SCOPE_USER k \<Longrightarrow> \<not> prefix SCOPE_TEMP k"
  by (auto simp: scope_defs prefix_def)

text \<open>What the caller reads under a key, by the scope the key names.\<close>

definition scoped_lookup :: "dict \<Rightarrow> dict \<Rightarrow> dict \<Rightarrow> string \<Rightarrow> pyval option" where
  "scoped_lookup a u s k =
     (case map_of s k of
        Some v \<Rightarrow> Some v
      | None \<Rightarrow> if prefix SCOPE_APP k then map_of a (removeprefix SCOPE_APP k)
                else if prefix SCOPE_USER k then map_of u (removeprefix SCOPE_USER k)
                else None)"

abbreviation keys_distinct :: "dict \<Rightarrow> bool" where
  "keys_distinct d \<equiv> distinct (map fst d)"

lemma merged_lookup:
  assumes "keys_distinct a" "keys_distinct u" "keys_distinct s"
    "merge_state (PDict a) (PDict u) (PDict s) = Inr m"
  shows "map_of m k = scoped_lookup a u s k"
proof -
  from assms(4) have m: "m = dupdate (dupdate (dupdate [] (map (\<lambda>(k, v). (SCOPE_APP @ k, v)) a))
      (map (\<lambda>(k, v). (SCOPE_USER @ k, v)) u)) s" unfolding merge_state_dicts by simp
  show ?thesis
    unfolding m map_of_dupdate scoped_lookup_def map_add_def map_of_rev_prefixed
      map_of_rev_distinct[OF assms(1)] map_of_rev_distinct[OF assms(2)] map_of_rev_distinct[OF assms(3)]
    using scopes_apart(1)[of k]
    by (auto simp: removeprefix_def split: option.splits)
qed

lemma merge_state_distinct:
  "merge_state a u s = Inr m \<Longrightarrow> keys_distinct m"
  by (cases a; cases u; cases s) (auto simp: merge_state_def Let_def)

definition plain_key :: "string \<Rightarrow> bool" where
  "plain_key k \<longleftrightarrow> \<not> prefix SCOPE_TEMP k \<and> \<not> prefix SCOPE_APP k \<and> \<not> prefix SCOPE_USER k"

definition parts_distinct :: "dict \<times> dict \<times> dict \<Rightarrow> bool" where
  "parts_distinct p = (case p of (s, a, u) \<Rightarrow>
     keys_distinct s \<and> keys_distinct a \<and> keys_distinct u)"

lemma partition_item_distinct:
  "parts_distinct acc \<Longrightarrow> parts_distinct (partition_item k v acc)"
  by (cases acc) (auto simp: parts_distinct_def)

lemma partition_loop_distinct:
  "parts_distinct acc \<Longrightarrow> parts_distinct (partition_loop d acc)"
  by (induction d acc rule: partition_loop.induct) (simp_all add: partition_item_distinct)

text \<open>Each of the three parts after one item and after the loop.\<close>

lemma prefix_cases: obtains (yes) t where "k = p @ t" "prefix p k" "removeprefix p k = t"
  | (no) "\<not> prefix p k" "\<And>t. k \<noteq> p @ t"
  by (cases "prefix p k") (auto simp: removeprefix_def elim: prefixE)

lemma item_session:
  "map_of (fst (partition_item k v acc)) =
     (if plain_key k then (map_of (fst acc))(k \<mapsto> v) else map_of (fst acc))"
  by (cases acc) (auto simp: plain_key_def)

lemma item_app:
  "map_of (fst (snd (partition_item k v acc))) j =
     (if k = SCOPE_APP @ j then Some v else map_of (fst (snd acc)) j)"
proof (cases acc)
  case (fields s a u)
  then show ?thesis
    using scopes_apart(2)[of k] by (cases rule: prefix_cases[of k SCOPE_APP]) auto
qed

lemma item_user:
  "map_of (snd (snd (partition_item k v acc))) j =
     (if k = SCOPE_USER @ j then Some v else map_of (snd (snd acc)) j)"
proof (cases acc)
  case (fields s a u)
  then show ?thesis
    using scopes_apart(1,3)[of k] by (cases rule: prefix_cases[of k SCOPE_USER]) auto
qed

lemma partition_loop_session:
  "map_of (fst (partition_loop d acc)) = map_of (fst acc) ++ (map_of (rev d) |` Collect plain_key)"
proof (induction d acc rule: partition_loop.induct)
  case (2 k v items acc)
  show ?case
    unfolding partition_loop.simps 2 item_session
    by (auto simp: fun_eq_iff map_add_def restrict_map_def split: option.split)
qed simp

lemma partition_loop_app:
  "map_of (fst (snd (partition_loop d acc))) j =
     (case map_of (rev d) (SCOPE_APP @ j) of Some v \<Rightarrow> Some v | None \<Rightarrow> map_of (fst (snd acc)) j)"
proof (induction d acc rule: partition_loop.induct)
  case (2 k v items acc)
  show ?case
    unfolding partition_loop.simps 2 item_app by (auto simp: map_add_def split: option.split)
qed simp

lemma partition_loop_user:
  "map_of (snd (snd (partition_loop d acc))) j =
     (case map_of (rev d) (SCOPE_USER @ j) of Some v \<Rightarrow> Some v | None \<Rightarrow> map_of (snd (snd acc)) j)"
proof (induction d acc rule: partition_loop.induct)
  case (2 k v items acc)
  show ?case
    unfolding partition_loop.simps 2 item_user by (auto simp: map_add_def split: option.split)
qed simp

lemma partition_parts:
  assumes "keys_distinct d" "partition_state d = (s, a, u)"
  shows "map_of s k = (if plain_key k then map_of d k else None)"
    and "map_of a k = map_of d (SCOPE_APP @ k)"
    and "map_of u k = map_of d (SCOPE_USER @ k)"
    and "keys_distinct s" "keys_distinct a" "keys_distinct u"
proof -
  have p: "partition_loop d ([], [], []) = (s, a, u)" using assms(2) by (simp add: partition_state_def)
  have r: "map_of (rev d) = map_of d" by (rule map_of_rev_distinct[OF assms(1)])
  show "map_of s k = (if plain_key k then map_of d k else None)"
    using partition_loop_session[of d "([], [], [])"] by (simp add: p r restrict_map_def)
  show "map_of a k = map_of d (SCOPE_APP @ k)"
    using partition_loop_app[of d "([], [], [])" k] by (simp add: p r split: option.splits)
  show "map_of u k = map_of d (SCOPE_USER @ k)"
    using partition_loop_user[of d "([], [], [])" k] by (simp add: p r split: option.splits)
  have "parts_distinct (s, a, u)"
    using partition_loop_distinct[of "([], [], [])" d] by (simp add: p parts_distinct_def)
  then show "keys_distinct s" "keys_distinct a" "keys_distinct u" by (simp_all add: parts_distinct_def)
qed

section \<open>Properties\<close>

text \<open>
  C32. Splitting a state by scope and merging the parts again gives back every key that is
  stored, under its own name and with its own value, and no other; exactly the \<open>temp:\<close> keys
  are lost. So a key never changes scope, and the parts never shadow each other.
\<close>

theorem state_partition_roundtrip:
  assumes "keys_distinct d" "partition_state d = (s, a, u)"
  shows "\<exists>m. merge_state (PDict a) (PDict u) (PDict s) = Inr m
    \<and> map_of m = map_of d |` {k. \<not> prefix SCOPE_TEMP k}"
proof -
  obtain m where m: "merge_state (PDict a) (PDict u) (PDict s) = Inr m"
    by (simp add: merge_state_dicts)
  have "map_of m k = (map_of d |` {k. \<not> prefix SCOPE_TEMP k}) k" for k
  proof -
    have "map_of m k = scoped_lookup a u s k"
      using partition_parts[OF assms] m by (intro merged_lookup)
    also have "\<dots> = (map_of d |` {k. \<not> prefix SCOPE_TEMP k}) k"
      using scopes_apart[of k]
      by (auto simp: scoped_lookup_def partition_parts(1-3)[OF assms] plain_key_def restrict_map_def
          removeprefix_def append_eq_conv_conj prefix_def split: option.splits)
    finally show ?thesis .
  qed
  with m show ?thesis by blast
qed

theorem state_partition_roundtrip_witness:
  "\<exists>m. merge_state (PDict [(''color'', PInt 2)]) (PDict [(''lang'', PInt 3)]) (PDict [(''step'', PInt 1)]) = Inr m
    \<and> map_of m = map_of [(''step'', PInt 1), (''app:color'', PInt 2), (''temp:x'', PInt 9), (''user:lang'', PInt 3)]
        |` {k. \<not> prefix SCOPE_TEMP k}"
  by (rule state_partition_roundtrip)
    (simp_all add: partition_state_def scope_defs removeprefix_def dset_def)

end
