(* ===== verification/Segment_Store.thy ===== *)
theory Segment_Store
  imports Retry Keys Codec Session_State
begin

text \<open>
  The segments of \<^verbatim>\<open>sessions/service.py\<close>: where the next event of a session goes, what
  happens when a segment is full, and how events are read back. A session's events live in
  records \<open>...:g:00000000\<close>, \<open>...:g:00000001\<close>, and so on, each with one key-ordered Map; the
  session record's \<open>cur\<close> bin names the one that is appended to.

  The service object's \<open>_client\<close> is the argument \<open>X\<close>, its \<open>_schema\<close> the argument \<open>S\<close>, and
  its \<open>_cur_cache\<close> a field of the world.
\<close>

record 's session_world = "'s world" +
  cur_cache :: "string \<Rightarrow> int option"

type_synonym ('s, 'a) sio = "'s session_world \<Rightarrow> 'a exc \<times> 's session_world"

record get_config =
  num_recent_events :: "int option"
  after_timestamp :: "rat option"

section \<open>Records\<close>

definition session_pk :: "schema \<Rightarrow> string \<Rightarrow> string \<Rightarrow> string \<Rightarrow> pk" where
  "session_pk S app_name user_id session_id =
     (namespace S, sessions_set S, session_key app_name user_id session_id)"

definition segment_pk :: "schema \<Rightarrow> string \<Rightarrow> string \<Rightarrow> string \<Rightarrow> int \<Rightarrow> pk" where
  "segment_pk S app_name user_id session_id gidx =
     (namespace S, sessions_set S, segment_key app_name user_id session_id gidx)"

definition app_state_pk :: "schema \<Rightarrow> string \<Rightarrow> pk" where
  "app_state_pk S app_name = (namespace S, app_state_set S, app_state_key app_name)"

definition user_state_pk :: "schema \<Rightarrow> string \<Rightarrow> string \<Rightarrow> pk" where
  "user_state_pk S app_name user_id = (namespace S, user_state_set S, user_state_key app_name user_id)"

definition cache_cur :: "string \<Rightarrow> int \<Rightarrow> ('s, unit) sio" where
  "cache_cur pk_str n = modifyE (\<lambda>w. w\<lparr>cur_cache := (cur_cache w)(pk_str \<mapsto> n)\<rparr>)"

lemma wp_cache_cur [wp_simps]:
  "wp (cache_cur k n) Q w = Q (Inr ()) (w\<lparr>cur_cache := (cur_cache w)(k \<mapsto> n)\<rparr>)"
  by (simp add: cache_cur_def wp_modifyE)

definition current_segment :: "'s ext \<Rightarrow> schema \<Rightarrow> string \<Rightarrow> string \<Rightarrow> string \<Rightarrow> ('s, int) sio" where
  "current_segment X S app_name user_id session_id =
     (let pk_str = session_key app_name user_id session_id in
      bindE (getsE (\<lambda>w. cur_cache w pk_str)) (\<lambda>cached.
        case cached of
          Some n \<Rightarrow> retE n
        | None \<Rightarrow>
            bindE (or_not_found (bindE
                (client_select X (session_pk S app_name user_id session_id) [CUR_SEGMENT])
                (\<lambda>bins. liftE (py_int (dget bins CUR_SEGMENT (PInt 0))))))
            (\<lambda>found. let cur = (case found of None \<Rightarrow> 0 | Some c \<Rightarrow> c) in
              thenE (cache_cur pk_str cur) (retE cur))))"

section \<open>Placing an event\<close>

definition segment_size :: "'s ext \<Rightarrow> pk \<Rightarrow> ('s, int) sio" where
  "segment_size X seg_pk =
     bindE (or_not_found (client_operate X seg_pk [MapSize EVENTS] None))
       (\<lambda>found. case found of
          None \<Rightarrow> retE 0
        | Some res \<Rightarrow> liftE (py_int (dget res EVENTS (PInt 0))))"

definition bump_ops :: "operation list" where
  "bump_ops = [Increment CUR_SEGMENT 1, ReadBin CUR_SEGMENT]"

definition roll_over :: "'s ext \<Rightarrow> schema \<Rightarrow> string \<Rightarrow> string \<Rightarrow> string \<Rightarrow> int \<Rightarrow> ('s, int) sio" where
  "roll_over X S app_name user_id session_id n =
     (let pk = session_pk S app_name user_id session_id in
      bindE
        (catchE
          (bindE (write_retrying_overload X (client_operate X pk bump_ops (Some (CUR_SEGMENT, n))) True)
            (\<lambda>res. liftE (py_int (dget res CUR_SEGMENT (PInt (n + 1))))))
          (is_ae FilteredOut)
          (\<lambda>_. bindE (client_select X pk [CUR_SEGMENT])
            (\<lambda>bins. liftE (py_int (dget bins CUR_SEGMENT (PInt (n + 1)))))))
        (\<lambda>new_cur. thenE (cache_cur (session_key app_name user_id session_id) new_cur) (retE new_cur)))"

text \<open>The loop's argument is the number of attempts that are left.\<close>

fun place_loop ::
  "'s ext \<Rightarrow> schema \<Rightarrow> string \<Rightarrow> string \<Rightarrow> string \<Rightarrow> operation \<Rightarrow> nat \<Rightarrow> int \<Rightarrow> ('s, unit) sio" where
  "place_loop X S app_name user_id session_id seg_op 0 cur =
     raiseE (RuntimeError ''append did not converge after rollover retries'')"
| "place_loop X S app_name user_id session_id seg_op (Suc attempts) cur =
     (let seg_pk = segment_pk S app_name user_id session_id cur in
      bindE
        (catchE
          (thenE (write_retrying_overload X (client_operate X seg_pk [seg_op] None) True) (retE None))
          (is_ae RecordTooBig)
          (\<lambda>e. bindE (segment_size X seg_pk) (\<lambda>size.
             if size = 0 then raiseE e
             else bindE (roll_over X S app_name user_id session_id cur) (\<lambda>c. retE (Some c)))))
        (\<lambda>next_cur. case next_cur of
           Some c \<Rightarrow> place_loop X S app_name user_id session_id seg_op attempts c
         | None \<Rightarrow> cache_cur (session_key app_name user_id session_id) cur))"

definition max_attempts :: nat where "max_attempts = 64"

definition place_event ::
  "'s ext \<Rightarrow> schema \<Rightarrow> string \<Rightarrow> string \<Rightarrow> string \<Rightarrow> int \<Rightarrow> operation \<Rightarrow> bool \<Rightarrow> ('s, unit) sio" where
  "place_event X S app_name user_id session_id cur seg_op after_overflow =
     bindE (if after_overflow then roll_over X S app_name user_id session_id cur else retE cur)
       (\<lambda>cur. place_loop X S app_name user_id session_id seg_op max_attempts cur)"

definition batch_error :: "'s ext \<Rightarrow> int \<Rightarrow> exn" where
  "batch_error X result_code =
     (if result_code = x_code X RecordTooBig then AE RecordTooBig else AE (AerospikeError result_code))"

text \<open>The writes of one append: the segment first, then each scope that has a delta.\<close>

definition append_writes ::
  "schema \<Rightarrow> string \<Rightarrow> string \<Rightarrow> string \<Rightarrow> int \<Rightarrow> operation \<Rightarrow> dict \<Rightarrow> dict \<Rightarrow> dict \<Rightarrow> rat
   \<Rightarrow> (pk \<times> operation list) list" where
  "append_writes S app_name user_id session_id cur seg_op session_delta app_delta user_delta now =
     [(segment_pk S app_name user_id session_id cur, [seg_op])]
     @ (if session_delta \<noteq> [] then
          [(session_pk S app_name user_id session_id,
            [MapPutItems STATE session_delta, WriteBin LAST_UPDATE (PFloat now)])] else [])
     @ (if app_delta \<noteq> [] then
          [(app_state_pk S app_name, [MapPutItems STATE app_delta])] else [])
     @ (if user_delta \<noteq> [] then
          [(user_state_pk S app_name user_id, [MapPutItems STATE user_delta])] else [])"

fun first_nonzero :: "int list \<Rightarrow> int option" where
  "first_nonzero [] = None"
| "first_nonzero (r # rs) = (if r \<noteq> 0 then Some r else first_nonzero rs)"

definition append_event_record ::
  "'s ext \<Rightarrow> schema \<Rightarrow> string \<Rightarrow> string \<Rightarrow> string \<Rightarrow> string \<Rightarrow> dict \<Rightarrow> dict \<Rightarrow> dict \<Rightarrow> dict \<Rightarrow> rat
   \<Rightarrow> ('s, unit) sio" where
  "append_event_record X S app_name user_id session_id ev_key event_dict
       session_delta app_delta user_delta now =
     bindE (current_segment X S app_name user_id session_id) (\<lambda>cur.
       let seg_op = MapPut EVENTS ev_key (PDict event_dict) in
       if \<not> (session_delta \<noteq> [] \<or> app_delta \<noteq> [] \<or> user_delta \<noteq> [])
       then place_event X S app_name user_id session_id cur seg_op False
       else
         bindE (batch_write_with_retry X
             (append_writes S app_name user_id session_id cur seg_op session_delta app_delta user_delta now))
           (\<lambda>results. case results of
              [] \<Rightarrow> raiseE (IndexError ''list index out of range'')
            | seg_result # others \<Rightarrow>
                (case first_nonzero others of
                   Some r \<Rightarrow> raiseE (batch_error X r)
                 | None \<Rightarrow>
                     if seg_result = 0 then cache_cur (session_key app_name user_id session_id) cur
                     else if seg_result = x_code X RecordTooBig then
                       place_event X S app_name user_id session_id cur seg_op True
                     else raiseE (batch_error X seg_result))))"

section \<open>Reading events back\<close>

definition KEY_RANGE_END :: string where "KEY_RANGE_END = '':''"

definition read_op :: "int option \<Rightarrow> rat option \<Rightarrow> operation" where
  "read_op want_last_n after_ts =
     (case after_ts of
        Some t \<Rightarrow> MapGetByKeyRange EVENTS (fmt_0d 20 (trunc (fmul t 1000000)) @ '':'') KEY_RANGE_END
      | None \<Rightarrow>
          (case want_last_n of
             Some n \<Rightarrow> MapGetByIndexRange EVENTS (- n) n
           | None \<Rightarrow> MapGetByIndexRange EVENTS 0 (2 ^ 31 - 1)))"

text \<open>\<open>zip(flat[0::2], flat[1::2], strict=True)\<close>\<close>

fun pairs :: "pyval list \<Rightarrow> (pyval \<times> pyval) list exc" where
  "pairs [] = Inr []"
| "pairs [x] = Inl (ValueError ''zip() argument 2 is shorter than argument 1'')"
| "pairs (x # y # r) = ebind (pairs r) (\<lambda>ps. Inr ((x, y) # ps))"

definition read_segment_entries ::
  "'s ext \<Rightarrow> schema \<Rightarrow> string \<Rightarrow> string \<Rightarrow> string \<Rightarrow> int \<Rightarrow> int option \<Rightarrow> rat option
   \<Rightarrow> ('s, (pyval \<times> pyval) list) sio" where
  "read_segment_entries X S app_name user_id session_id gidx want_last_n after_ts =
     bindE (or_not_found (client_operate X (segment_pk S app_name user_id session_id gidx)
              [read_op want_last_n after_ts] None))
       (\<lambda>found. case found of
          None \<Rightarrow> retE []
        | Some res \<Rightarrow> liftE (ebind (list_items (py_or (pget res EVENTS) (PList []))) pairs))"

text \<open>The inner loop over one segment's entries, newest first; the flag is \<open>done\<close>.\<close>

fun collect :: "int option \<Rightarrow> pyval list \<Rightarrow> pyval list \<Rightarrow> pyval list \<times> bool" where
  "collect num_recent collected [] = (collected, False)"
| "collect num_recent collected (ev # evs) =
     (let collected = collected @ [ev] in
      if (case num_recent of None \<Rightarrow> False | Some n \<Rightarrow> n \<le> int (length collected))
      then (collected, True) else collect num_recent collected evs)"

fun load_loop ::
  "'s ext \<Rightarrow> schema \<Rightarrow> string \<Rightarrow> string \<Rightarrow> string \<Rightarrow> int option \<Rightarrow> rat option \<Rightarrow> int list \<Rightarrow> pyval list
   \<Rightarrow> ('s, pyval list) sio" where
  "load_loop X S app_name user_id session_id num_recent after_ts [] collected = retE collected"
| "load_loop X S app_name user_id session_id num_recent after_ts (gidx # rest) collected =
     (let need = (case num_recent of None \<Rightarrow> None | Some n \<Rightarrow> Some (n - int (length collected))) in
      bindE (read_segment_entries X S app_name user_id session_id gidx need after_ts) (\<lambda>entries.
        case collect num_recent collected (map snd (rev entries)) of (collected, done) \<Rightarrow>
          if done then retE collected
          else if after_ts \<noteq> None \<and> entries = [] then retE collected
          else load_loop X S app_name user_id session_id num_recent after_ts rest collected))"

definition down_to_zero :: "int \<Rightarrow> int list" where
  "down_to_zero cur = map int (rev [0..<nat (cur + 1)])"

definition event_of_val :: "adk \<Rightarrow> pyval \<Rightarrow> event exc" where
  "event_of_val A v = (case v of PDict d \<Rightarrow> event_from_inline_dict A d | _ \<Rightarrow> Inl (AttributeError ''get''))"

definition load_events ::
  "'s ext \<Rightarrow> adk \<Rightarrow> schema \<Rightarrow> string \<Rightarrow> string \<Rightarrow> string \<Rightarrow> int \<Rightarrow> get_config option
   \<Rightarrow> ('s, event list) sio" where
  "load_events X A S app_name user_id session_id cur config =
     (let num_recent = (case config of None \<Rightarrow> None | Some c \<Rightarrow> num_recent_events c);
          after_ts = (case config of None \<Rightarrow> None | Some c \<Rightarrow> after_timestamp c)
      in if num_recent = Some 0 then retE []
         else bindE (load_loop X S app_name user_id session_id num_recent after_ts (down_to_zero cur) [])
                (\<lambda>collected. liftE (emap (event_of_val A) (rev collected))))"

end
