(* ===== verification/Batch_Reads.thy ===== *)
theory Batch_Reads
  imports Aerospike_Api
begin

text \<open>
  The \<open>_batch_read\<close> helper that the session service and the memory service both have: one
  request for many records, answered as a dictionary from keys to records.
\<close>

definition batch_rows ::
  "pk list \<Rightarrow> (int \<times> bins option) list \<Rightarrow> (pk, bins option) pydict exc" where
  "batch_rows keys records =
     (if length keys \<noteq> length records then Inl (ValueError ''zip() arguments differ in length'')
      else Inr (dupdate [] (map (\<lambda>(k, (result, rec)). (k, if result = 0 then rec else None)) (zip keys records))))"

definition batch_read :: "'s ext \<Rightarrow> pk list \<Rightarrow> ('s, 'm, (pk, bins option) pydict) io" where
  "batch_read X keys =
     (if keys = [] then retE []
      else bindE (client_batch_read X keys) (\<lambda>records. liftE (batch_rows keys records)))"

lemma batch_rows_items:
  "\<exists>rows. batch_rows ks (map f ks) = Inr rows
    \<and> (\<forall>k. map_of rows k = (if k \<in> set ks then Some (if fst (f k) = 0 then snd (f k) else None) else None))"
proof -
  let ?h = "\<lambda>k. if fst (f k) = 0 then snd (f k) else None"
  have z: "map (\<lambda>(k, (result, rec)). (k, if result = 0 then rec else None)) (zip ks (map f ks)) = map (\<lambda>k. (k, ?h k)) ks"
    by (auto simp: zip_map2 zip_same_conv_map case_prod_beta)
  have "map_of (dupdate [] (map (\<lambda>k. (k, ?h k)) ks)) = (Some \<circ> ?h) |` set ks"
    using map_of_map_restrict[of ?h "rev ks"] by (simp add: rev_map)
  then show ?thesis unfolding batch_rows_def z by (auto simp: restrict_map_def)
qed

context reliable_client begin

lemma batch_item_code [simp]: "fst (batch_item (x_code X) r) = 0 \<longleftrightarrow> r \<noteq> None"
  using code_nonzero[of RecordNotFound] by (cases r) simp_all

lemma wp_batch_read_map:
  assumes "ks \<noteq> []"
    and Q: "\<And>s' rows. view s' = view (srv w) \<Longrightarrow>
      (\<And>k. k \<in> set ks \<Longrightarrow> map_of rows k = Some (view (srv w) k)) \<Longrightarrow> Q (Inr rows) (w\<lparr>srv := s'\<rparr>)"
  shows "wp (batch_read X ks) Q w"
proof -
  let ?f = "\<lambda>pk. batch_item (x_code X) (view (srv w) pk)"
  from batch_rows_items[of ks ?f] obtain rows where rows: "batch_rows ks (map ?f ks) = Inr rows"
    "\<forall>k. map_of rows k = (if k \<in> set ks then Some (if fst (?f k) = 0 then snd (?f k) else None) else None)"
    by blast
  have look: "map_of rows k = Some (view (srv w) k)" if k: "k \<in> set ks" for k
  proof -
    have "map_of rows k = Some (if fst (?f k) = 0 then snd (?f k) else None)" using rows(2) k by metis
    then show ?thesis unfolding batch_item_code by (cases "view (srv w) k") simp_all
  qed
  have "wp (client_batch_read X ks) (\<lambda>r w'. case r of Inl e \<Rightarrow> Q (Inl e) w' | Inr records \<Rightarrow> Q (batch_rows ks records) w') w"
    by (rule wp_batch_read) (simp only: sum.case rows(1) Q[OF _ look])
  then show ?thesis
    unfolding batch_read_def if_not_P[OF assms(1)] wp_bindE wp_liftE .
qed

end

end
