(* ===== verification/Session_Service.thy ===== *)
theory Session_Service
  imports Segment_Store Batch_Reads
begin

text \<open>
  The methods of \<open>AerospikeSessionService\<close> (\<^verbatim>\<open>sessions/service.py\<close>) over the segments of
  \<open>Segment_Store\<close>: create, get, list and delete a session, append an event, and the per-user
  manifest of session ids that lists are read from.
\<close>

section \<open>Batch reads\<close>

definition batch_read_bins ::
  "'s ext \<Rightarrow> pk list \<Rightarrow> bin_name list \<Rightarrow> ('s, (pk, bins option) pydict) sio" where
  "batch_read_bins X keys bin_names =
     (if keys = [] then retE []
      else bindE (client_batch_write X (map (\<lambda>k. (k, map ReadBin bin_names)) keys))
             (\<lambda>records. liftE (batch_rows keys records)))"

text \<open>\<open>records[pk]\<close> for a key that was asked for, and \<open>(rec or {}).get(Bins.STATE) or {}\<close>.\<close>

definition row :: "(pk, bins option) pydict \<Rightarrow> pk \<Rightarrow> bins option exc" where
  "row records k = (case map_of records k of None \<Rightarrow> Inl (KeyError ''records'') | Some r \<Rightarrow> Inr r)"

definition state_of :: "bins option \<Rightarrow> pyval" where
  "state_of rec = py_or (pget (case rec of None \<Rightarrow> [] | Some b \<Rightarrow> b) STATE) (PDict [])"

definition merge_state_for_read ::
  "'s ext \<Rightarrow> schema \<Rightarrow> string \<Rightarrow> string \<Rightarrow> pyval \<Rightarrow> ('s, dict) sio" where
  "merge_state_for_read X S app_name user_id session_state =
     (let app_pk = app_state_pk S app_name; user_pk = user_state_pk S app_name user_id in
      bindE (batch_read X [app_pk, user_pk]) (\<lambda>records.
        liftE (ebind (row records app_pk) (\<lambda>a. ebind (row records user_pk) (\<lambda>u.
          merge_state (state_of a) (state_of u) session_state)))))"

definition merge_scoped_state ::
  "'s ext \<Rightarrow> schema \<Rightarrow> string \<Rightarrow> string \<Rightarrow> dict \<Rightarrow> ('s, unit) sio" where
  "merge_scoped_state X S set_name primary_key delta =
     bindE (client_operate X (namespace S, set_name, primary_key) [MapPutItems STATE delta] None) (\<lambda>_. retE ())"

section \<open>The manifest\<close>

definition manifest_pk :: "schema \<Rightarrow> string \<Rightarrow> string \<Rightarrow> pk" where
  "manifest_pk S app_name user_id =
     (namespace S, sessions_set S, session_manifest_key app_name user_id)"

definition manifest_add :: "'s ext \<Rightarrow> schema \<Rightarrow> string \<Rightarrow> string \<Rightarrow> string \<Rightarrow> ('s, unit) sio" where
  "manifest_add X S app_name user_id session_id =
     bindE (client_operate X (manifest_pk S app_name user_id)
              [ListAppend SESSION_MANIFEST (PStr session_id)] None) (\<lambda>_. retE ())"

definition manifest_remove :: "'s ext \<Rightarrow> schema \<Rightarrow> string \<Rightarrow> string \<Rightarrow> pyval \<Rightarrow> ('s, unit) sio" where
  "manifest_remove X S app_name user_id session_id =
     bindE (or_not_found (client_operate X (manifest_pk S app_name user_id)
              [ListRemoveByValue SESSION_MANIFEST session_id] None)) (\<lambda>_. retE ())"

definition manifest_remove_stale ::
  "'s ext \<Rightarrow> schema \<Rightarrow> string \<Rightarrow> string \<Rightarrow> pyval list \<Rightarrow> ('s, unit) sio" where
  "manifest_remove_stale X S app_name user_id session_ids =
     forE (manifest_remove X S app_name user_id) session_ids"

definition LIST_SESSION_BINS :: "bin_name list" where
  "LIST_SESSION_BINS = [APP_NAME, USER_ID, SESSION_ID, LAST_UPDATE]"

text \<open>The loop over the manifest's ids and their rows. Only strings are ever appended to a
  manifest, so the ids are strings here; \<open>list_sessions_for_user\<close> fails on anything else.\<close>

fun sort_rows ::
  "string \<Rightarrow> string \<Rightarrow> (string \<times> bins option) list \<Rightarrow> session list \<Rightarrow> string list
   \<Rightarrow> (session list \<times> string list) exc" where
  "sort_rows app_name user_id [] sessions stale_ids = Inr (sessions, stale_ids)"
| "sort_rows app_name user_id ((sid, rec) # rows) sessions stale_ids =
     (let bins = (case rec of None \<Rightarrow> [] | Some b \<Rightarrow> b) in
      if bins = [] then sort_rows app_name user_id rows sessions (stale_ids @ [sid])
      else if pget bins APP_NAME \<noteq> PStr app_name then sort_rows app_name user_id rows sessions (stale_ids @ [sid])
      else if pget bins USER_ID \<noteq> PStr user_id then sort_rows app_name user_id rows sessions (stale_ids @ [sid])
      else ebind (str_of (dget bins SESSION_ID (PStr sid))) (\<lambda>i.
        sort_rows app_name user_id rows
          (sessions @ [\<lparr>s_id = i, s_app_name = app_name, s_user_id = user_id, s_state = [],
                        s_events = [], s_last_update_time = dget bins LAST_UPDATE (PFloat 0)\<rparr>])
          stale_ids))"

definition list_sessions_for_user :: "'s ext \<Rightarrow> schema \<Rightarrow> string \<Rightarrow> string \<Rightarrow> ('s, session list) sio" where
  "list_sessions_for_user X S app_name user_id =
     bindE (or_not_found (client_get X (manifest_pk S app_name user_id))) (\<lambda>found.
       case found of
         None \<Rightarrow> retE []
       | Some manifest_bins \<Rightarrow>
           bindE (liftE (ebind (list_items (py_or (pget manifest_bins SESSION_MANIFEST) (PList [])))
                    (emap str_of))) (\<lambda>session_ids.
             if session_ids = [] then retE []
             else
               let session_pks = map (session_pk S app_name user_id) session_ids in
               bindE (batch_read_bins X session_pks LIST_SESSION_BINS) (\<lambda>rows.
               bindE (liftE (sort_rows app_name user_id
                        (map (\<lambda>sid. (sid, dget rows (session_pk S app_name user_id sid) None)) session_ids) [] []))
                 (\<lambda>(sessions, stale_ids).
                    thenE (whenE (stale_ids \<noteq> [])
                             (manifest_remove_stale X S app_name user_id (map PStr stale_ids)))
                          (retE sessions)))))"

section \<open>The public methods\<close>

definition session_bins :: "string \<Rightarrow> string \<Rightarrow> string \<Rightarrow> dict \<Rightarrow> rat \<Rightarrow> bins" where
  "session_bins app_name user_id session_id session_state now =
     [(APP_NAME, PStr app_name), (USER_ID, PStr user_id), (SESSION_ID, PStr session_id),
      (STATE, PDict session_state), (LAST_UPDATE, PFloat now), (CUR_SEGMENT, PInt 0)]"

definition create_session ::
  "'s ext \<Rightarrow> schema \<Rightarrow> string \<Rightarrow> string \<Rightarrow> dict option \<Rightarrow> string option \<Rightarrow> ('s, session) sio" where
  "create_session X S app_name user_id state session_id =
     bindE (case session_id of Some i \<Rightarrow> if i \<noteq> [] then retE i else uuid_hex X | None \<Rightarrow> uuid_hex X)
     (\<lambda>session_id.
       case partition_state (case state of None \<Rightarrow> [] | Some s \<Rightarrow> s) of
         (session_state, app_delta, user_delta) \<Rightarrow>
     bindE (now_time X) (\<lambda>now.
     thenE (write_retrying_overload X
              (client_put X (session_pk S app_name user_id session_id)
                 (session_bins app_name user_id session_id session_state now) True) False)
     (thenE (cache_cur (session_key app_name user_id session_id) 0)
     (thenE (whenE (app_delta \<noteq> [])
              (merge_scoped_state X S (app_state_set S) (app_state_key app_name) app_delta))
     (thenE (whenE (user_delta \<noteq> [])
              (merge_scoped_state X S (user_state_set S) (user_state_key app_name user_id) user_delta))
     (thenE (manifest_add X S app_name user_id session_id)
     (bindE (merge_state_for_read X S app_name user_id (PDict session_state)) (\<lambda>merged.
        retE \<lparr>s_id = session_id, s_app_name = app_name, s_user_id = user_id, s_state = merged,
              s_events = [], s_last_update_time = PFloat now\<rparr>))))))))"

definition get_session ::
  "'s ext \<Rightarrow> adk \<Rightarrow> schema \<Rightarrow> string \<Rightarrow> string \<Rightarrow> string \<Rightarrow> get_config option \<Rightarrow> ('s, session option) sio" where
  "get_session X A S app_name user_id session_id config =
     (let spk = session_pk S app_name user_id session_id;
          app_pk = app_state_pk S app_name;
          user_pk = user_state_pk S app_name user_id
      in
      bindE (batch_read X [spk, app_pk, user_pk]) (\<lambda>records.
      bindE (liftE (row records spk)) (\<lambda>session_rec.
        case session_rec of
          None \<Rightarrow> retE None
        | Some rec \<Rightarrow>
            bindE (liftE (ebind (row records app_pk) (\<lambda>a. ebind (row records user_pk) (\<lambda>u.
                     merge_state (state_of a) (state_of u) (state_of (Some rec)))))) (\<lambda>merged.
            bindE (liftE (py_int (dget rec CUR_SEGMENT (PInt 0)))) (\<lambda>cur.
            thenE (cache_cur (session_key app_name user_id session_id) cur)
            (bindE (load_events X A S app_name user_id session_id cur config) (\<lambda>events.
              let last_update = dget rec LAST_UPDATE (PFloat 0);
                  last_update = (if events \<noteq> [] then py_or (PFloat (ev_timestamp (last events))) last_update
                                 else last_update)
              in retE (Some \<lparr>s_id = session_id, s_app_name = app_name, s_user_id = user_id,
                             s_state = merged, s_events = events, s_last_update_time = last_update\<rparr>))))))))"

fun query_rows :: "string \<Rightarrow> bins list \<Rightarrow> session list exc" where
  "query_rows app_name [] = Inr []"
| "query_rows app_name (bins # records) =
     (if pget bins APP_NAME \<noteq> PStr app_name then query_rows app_name records
      else case (map_of bins SESSION_ID, map_of bins APP_NAME, map_of bins USER_ID) of
          (Some i, Some a, Some u) \<Rightarrow>
            ebind (str_of i) (\<lambda>i. ebind (str_of a) (\<lambda>a. ebind (str_of u) (\<lambda>u.
            ebind (query_rows app_name records) (\<lambda>sessions.
              Inr (\<lparr>s_id = i, s_app_name = a, s_user_id = u, s_state = [], s_events = [],
                    s_last_update_time = dget bins LAST_UPDATE (PFloat 0)\<rparr> # sessions)))))
        | _ \<Rightarrow> Inl (KeyError ''bins''))"

definition list_sessions :: "'s ext \<Rightarrow> schema \<Rightarrow> string \<Rightarrow> string option \<Rightarrow> ('s, session list) sio" where
  "list_sessions X S app_name user_id =
     (case user_id of
        Some u \<Rightarrow> list_sessions_for_user X S app_name u
      | None \<Rightarrow>
          bindE (client_query X (namespace S) (sessions_set S) APP_NAME (PStr app_name))
            (\<lambda>records. liftE (query_rows app_name records)))"

definition delete_session :: "'s ext \<Rightarrow> schema \<Rightarrow> string \<Rightarrow> string \<Rightarrow> string \<Rightarrow> ('s, unit) sio" where
  "delete_session X S app_name user_id session_id =
     (let spk = session_pk S app_name user_id session_id in
      bindE (or_not_found (client_get X spk)) (\<lambda>found.
        case found of
          None \<Rightarrow> retE ()
        | Some bins \<Rightarrow>
            bindE (liftE (py_int (dget bins CUR_SEGMENT (PInt 0)))) (\<lambda>cur.
            thenE (forE (\<lambda>gidx. bindE (or_not_found
                      (client_remove X (segment_pk S app_name user_id session_id (int gidx)))) (\<lambda>_. retE ()))
                    [0..<nat (cur + 2)])
            (thenE (or_not_found (client_remove X spk))
            (thenE (modifyE (\<lambda>w. w\<lparr>cur_cache := (cur_cache w)(session_key app_name user_id session_id := None)\<rparr>))
              (manifest_remove X S app_name user_id (PStr session_id)))))))"

text \<open>The result is the event and the caller's session object after the call.\<close>

definition append_event ::
  "'s ext \<Rightarrow> adk \<Rightarrow> schema \<Rightarrow> session \<Rightarrow> event \<Rightarrow> ('s, event \<times> session) sio" where
  "append_event X A S session0 event0 =
     (case base_append_event A session0 event0 of (session, event) \<Rightarrow>
      if ev_partial event then retE (event, session)
      else
        bindE (if ev_timestamp event \<noteq> 0 then retE (ev_timestamp event) else now_time X) (\<lambda>now.
          case partition_state (ev_state_delta event) of (session_delta, app_delta, user_delta) \<Rightarrow>
            thenE (append_event_record X S (s_app_name session) (s_user_id session) (s_id session)
                     (event_map_key (ev_id event) now) (event_to_inline_dict A event)
                     session_delta app_delta user_delta now)
              (retE (event, session\<lparr>s_last_update_time := PFloat now\<rparr>))))"

end
