(* ===== verification/Stability.thy ===== *)
theory Stability
  imports Retry
begin

text \<open>
  What a method leaves true of the store whatever the cluster does. \<open>keeps view P m\<close> says that
  \<open>P\<close> survives \<open>m\<close>, on every path and with every fault; the rules below reduce it to the
  requests \<open>m\<close> sends, each of which has to be \<open>stable\<close>. Invariants and frame conditions of
  all services are proved this way.
\<close>

definition keeps :: "('s \<Rightarrow> db) \<Rightarrow> (db \<Rightarrow> bool) \<Rightarrow> (('s, 'm) world_scheme \<Rightarrow> 'a exc \<times> ('s, 'm) world_scheme) \<Rightarrow> bool" where
  "keeps view P m \<longleftrightarrow> (\<forall>w. P (view (srv w)) \<longrightarrow> wp m (\<lambda>_ w'. P (view (srv w'))) w)"

definition stable :: "(bins \<Rightarrow> bool) \<Rightarrow> (ae_error \<Rightarrow> int) \<Rightarrow> (db \<Rightarrow> bool) \<Rightarrow> request \<Rightarrow> bool" where
  "stable fits code P r \<longleftrightarrow> (\<forall>d fs. P d \<longrightarrow> P (snd (serve fits code fs r d)))"

named_theorems keeps_intros "how a property of the store passes through a program"

lemma keepsD: "keeps view P m \<Longrightarrow> P (view (srv w)) \<Longrightarrow> m w = (r, w') \<Longrightarrow> P (view (srv w'))"
  by (auto simp: keeps_def wp_def)

lemma keepsI: "(\<And>w r w'. P (view (srv w)) \<Longrightarrow> m w = (r, w') \<Longrightarrow> P (view (srv w'))) \<Longrightarrow> keeps view P m"
  by (simp add: keeps_def wp_def split: prod.split)

lemma keeps_bindE [keeps_intros]:
  assumes "keeps view P m" "\<And>x. keeps view P (f x)"
  shows "keeps view P (bindE m f)"
proof (rule keepsI)
  fix w r w' assume w: "P (view (srv w))" and run: "bindE m f w = (r, w')"
  obtain r1 w1 where m: "m w = (r1, w1)" by fastforce
  with keepsD[OF assms(1) w] have "P (view (srv w1))" .
  with run m keepsD[OF assms(2)] show "P (view (srv w'))"
    by (cases r1) (auto simp: bindE_def)
qed

lemma keeps_thenE [keeps_intros]:
  "keeps view P m \<Longrightarrow> keeps view P n \<Longrightarrow> keeps view P (thenE m n)"
  unfolding thenE_def by (rule keeps_bindE)

lemma keeps_catchE [keeps_intros]:
  assumes "keeps view P m" "\<And>e. keeps view P (h e)"
  shows "keeps view P (catchE m p h)"
proof (rule keepsI)
  fix w r w' assume w: "P (view (srv w))" and run: "catchE m p h w = (r, w')"
  obtain r1 w1 where m: "m w = (r1, w1)" by fastforce
  with keepsD[OF assms(1) w] have "P (view (srv w1))" .
  with run m keepsD[OF assms(2)] show "P (view (srv w'))"
    by (cases r1) (auto simp: catchE_def split: if_splits)
qed

lemma keeps_retE [keeps_intros]: "keeps view P (retE x)"
  and keeps_raiseE [keeps_intros]: "keeps view P (raiseE e)"
  and keeps_liftE [keeps_intros]: "keeps view P (liftE r)"
  and keeps_getsE [keeps_intros]: "keeps view P (getsE g)"
  by (simp_all add: keeps_def wp_simps)

lemma keeps_modifyE [keeps_intros]: "(\<And>w. srv (f w) = srv w) \<Longrightarrow> keeps view P (modifyE f)"
  by (simp add: keeps_def wp_simps)

lemma keeps_or_not_found [keeps_intros]: "keeps view P m \<Longrightarrow> keeps view P (or_not_found m)"
  unfolding or_not_found_def by (intro keeps_catchE keeps_bindE keeps_retE)

lemma keeps_sleep [keeps_intros]: "keeps view P (sleep d)"
  unfolding sleep_def by (rule keeps_modifyE) simp

lemma keeps_if [keeps_intros]:
  "(b \<Longrightarrow> keeps view P m) \<Longrightarrow> (\<not> b \<Longrightarrow> keeps view P n) \<Longrightarrow> keeps view P (if b then m else n)"
  by simp

lemma keeps_whenE [keeps_intros]: "(b \<Longrightarrow> keeps view P m) \<Longrightarrow> keeps view P (whenE b m)"
  unfolding whenE_def by (intro keeps_intros) simp

lemma keeps_option [keeps_intros]:
  "keeps view P m \<Longrightarrow> (\<And>x. v = Some x \<Longrightarrow> keeps view P (f x)) \<Longrightarrow>
   keeps view P (case v of None \<Rightarrow> m | Some x \<Rightarrow> f x)"
  by (simp split: option.split)

lemma keeps_prod [keeps_intros]:
  "(\<And>x y. v = (x, y) \<Longrightarrow> keeps view P (f x y)) \<Longrightarrow> keeps view P (case v of (x, y) \<Rightarrow> f x y)"
  by (simp split: prod.split)

lemma keeps_list [keeps_intros]:
  "keeps view P m \<Longrightarrow> (\<And>x xs. v = x # xs \<Longrightarrow> keeps view P (f x xs)) \<Longrightarrow>
   keeps view P (case v of [] \<Rightarrow> m | x # xs \<Rightarrow> f x xs)"
  by (simp split: list.split)

lemma keeps_forE [keeps_intros]: "(\<And>x. x \<in> set xs \<Longrightarrow> keeps view P (f x)) \<Longrightarrow> keeps view P (forE f xs)"
proof (induction xs)
  case Nil
  then show ?case by (simp add: keeps_retE)
next
  case (Cons x xs)
  then show ?case by (simp add: keeps_thenE)
qed

lemma stable_read [simp]:
  "stable fits code P (RGet pk)"
  "stable fits code P (RSelect pk names)"
  "stable fits code P (RBatchRead pks)"
  by (simp_all add: stable_def)

lemma stable_operate_read [simp]:
  "\<not> list_ex modifies ops \<Longrightarrow> stable fits code P (ROperate pk ops g)"
proof -
  assume a: "\<not> list_ex modifies ops"
  then have "\<not> list_ex creates ops"
    by (auto simp: list_ex_iff elim!: creates.elims intro: modifies.simps)
  with a have "snd (operate_db fits pk ops g d) = d" for d
    by (auto simp: operate_db_def run_ops_def split: option.split sum.split prod.split)
  then show ?thesis by (simp add: stable_def map_resp_def)
qed

text \<open>A request leaves alone every record that it does not name.\<close>

lemma stable_frame: "k \<notin> set (touched r) \<Longrightarrow> stable fits code (\<lambda>d. d k = v) r"
  by (simp add: stable_def serve_frame)

text \<open>A property of each record holds on after a request if the operations keep it.\<close>

definition each_record :: "(bins \<Rightarrow> bool) \<Rightarrow> db \<Rightarrow> bool" where
  "each_record R d \<longleftrightarrow> (\<forall>k bs. d k = Some bs \<longrightarrow> R bs)"

lemma each_recordD: "each_record R d \<Longrightarrow> d k = Some bs \<Longrightarrow> R bs"
  unfolding each_record_def by blast

definition op_keeps :: "(bins \<Rightarrow> bool) \<Rightarrow> operation \<Rightarrow> bool" where
  "op_keeps R x \<longleftrightarrow> (\<forall>bs bs' out. R bs \<longrightarrow> apply_op x bs = Inr (bs', out) \<longrightarrow> R bs')"

lemma apply_ops_keeps:
  assumes "list_all (op_keeps R) xs" "R bs" "apply_ops xs bs out = Inr (bs', out')"
  shows "R bs'"
  using assms
proof (induction xs bs out rule: apply_ops.induct)
  case (2 x xs bs out)
  then obtain b r where x: "apply_op x bs = Inr (b, r)"
    by (cases "apply_op x bs") auto
  with "2.prems"(1,2) have "R b" by (auto simp: op_keeps_def)
  with 2 x show ?case by (cases r) auto
qed simp

lemma operate_db_keeps:
  assumes "list_all (op_keeps R) ops" "R []" "each_record R d"
  shows "each_record R (snd (operate_db fits pk ops g d))"
proof -
  have run: "each_record R (snd (run_ops fits pk ops bs d))" if "R bs" for bs
    using assms(1,3) that apply_ops_keeps[OF assms(1) that]
    by (auto simp: each_record_def run_ops_def split: sum.splits prod.splits)
  have "d pk = Some bs \<Longrightarrow> R bs" for bs using assms(3) unfolding each_record_def by blast
  then show ?thesis
    using assms(2,3) run by (auto simp: operate_db_def split: option.split)
qed

lemma batch_db_keeps:
  assumes "\<forall>(pk, ops) \<in> set ws. list_all (op_keeps R) ops" "R []" "each_record R d"
  shows "each_record R (snd (batch_db fits code fs ws d))"
  using assms
proof (induction ws arbitrary: fs d)
  case (Cons p ws)
  obtain pk ops where p: "p = (pk, ops)" by (cases p)
  let ?d = "snd (with_fault (hd_fault fs) d (operate_db fits pk ops None d))"
  have "each_record R (snd (operate_db fits pk ops None d))"
    using Cons.prems p by (intro operate_db_keeps) auto
  then have "each_record R ?d" using Cons.prems(3) by (cases "hd_fault fs") simp_all
  then have "each_record R (snd (batch_db fits code (tl fs) ws ?d))" using Cons by simp
  then show ?case by (simp add: p Let_def case_prod_beta)
qed simp

lemma stable_operate:
  "list_all (op_keeps R) ops \<Longrightarrow> R [] \<Longrightarrow> stable fits code (each_record R) (ROperate pk ops g)"
  by (simp add: stable_def map_resp_def operate_db_keeps)

lemma stable_batch_write:
  "\<forall>(pk, ops) \<in> set ws. list_all (op_keeps R) ops \<Longrightarrow> R [] \<Longrightarrow>
   stable fits code (each_record R) (RBatchWrite ws)"
  using batch_db_keeps by (fastforce simp: stable_def case_prod_beta)

lemma stable_remove: "stable fits code (each_record R) (RRemove pk)"
  by (auto simp: stable_def each_record_def split: option.split)

lemma stable_put:
  assumes "\<And>old. R old \<Longrightarrow> R (put_bins old bs)" "R []"
  shows "stable fits code (each_record R) (RPut pk bs c)"
  using assms by (auto simp: stable_def each_record_def put_db_def Let_def split: option.split)

text \<open>The same for a property that also depends on where the record is.\<close>

definition each_keyed :: "(pk \<Rightarrow> bins \<Rightarrow> bool) \<Rightarrow> db \<Rightarrow> bool" where
  "each_keyed R d \<longleftrightarrow> (\<forall>k bs. d k = Some bs \<longrightarrow> R k bs)"

lemma each_keyedD: "each_keyed R d \<Longrightarrow> d k = Some bs \<Longrightarrow> R k bs"
  unfolding each_keyed_def by blast

lemma each_keyedI: "(\<And>k bs. d k = Some bs \<Longrightarrow> R k bs) \<Longrightarrow> each_keyed R d"
  unfolding each_keyed_def by blast

lemma each_keyed_upd: "each_keyed R d \<Longrightarrow> R pk bs \<Longrightarrow> each_keyed R (d(pk \<mapsto> bs))"
  unfolding each_keyed_def by (metis fun_upd_apply option.inject)

lemma each_keyed_del: "each_keyed R d \<Longrightarrow> each_keyed R (d(pk := None))"
  unfolding each_keyed_def by (metis fun_upd_apply option.distinct(1))

lemma stable_keyed_remove: "stable fits code (each_keyed R) (RRemove pk)"
  by (auto simp: stable_def each_keyed_del split: option.split)

lemma stable_keyed_put:
  assumes "\<And>old. R pk old \<Longrightarrow> R pk (put_bins old bs)" "R pk (put_bins [] bs)"
  shows "stable fits code (each_keyed R) (RPut pk bs c)"
proof -
  have "R pk (put_bins old bs)" if "each_keyed R d" "d pk = Some old" for d old
    using assms(1) each_keyedD[OF that] .
  then show ?thesis
    using assms(2) by (auto simp: stable_def put_db_def Let_def intro!: each_keyed_upd split: option.split)
qed

lemma stable_keyed_operate:
  assumes "list_all (op_keeps (R pk)) ops" "R pk []"
  shows "stable fits code (each_keyed R) (ROperate pk ops g)"
proof -
  have run: "each_keyed R (snd (run_ops fits pk ops bs d))" if "each_keyed R d" "R pk bs" for d bs
    using apply_ops_keeps[OF assms(1) that(2)] that(1)
    by (auto simp: run_ops_def each_keyed_upd split: sum.splits prod.splits)
  have "each_keyed R (snd (operate_db fits pk ops g d))" if d: "each_keyed R d" for d
    using run[OF d] assms(2) each_keyedD[OF d, of pk] d by (auto simp: operate_db_def split: option.split)
  then show ?thesis by (simp add: stable_def map_resp_def)
qed

text \<open>A record that exists is out of reach of a write that only creates.\<close>

lemma stable_create_only: "stable fits code (\<lambda>d. d k = Some r) (RPut pk bs True)"
  by (auto simp: stable_def put_db_def Let_def)

context aerospike_client begin

lemma keeps_call:
  assumes "stable fits (x_code X) P r"
  shows "keeps view P (client_call X r)"
  unfolding keeps_def
proof (intro allI impI)
  fix w :: "('s, 'b) world_scheme" assume P: "P (view (srv w))"
  obtain res s' where c: "x_call X r (srv w) = (res, s')" by fastforce
  have ok: "P (snd (with_fault f (view (srv w)) (serve fits (x_code X) fs r (view (srv w)))))" for f fs
    using assms P by (cases f) (simp_all add: stable_def)
  have "P (view s')"
  proof (cases "defined_req r (view (srv w))")
    case True
    from call_law[OF True c] ok show ?thesis by (metis snd_conv)
  next
    case False
    from open_law[OF False c] obtain f fs where
      "(res, view s') = with_fault f (view (srv w)) (serve fits (x_code X) fs r (view (srv w)))
       \<or> (res, view s') = with_fault f (view (srv w)) (Inl FilteredOut, view (srv w))" by blast
    then show ?thesis
    proof
      assume "(res, view s') = with_fault f (view (srv w)) (Inl FilteredOut, view (srv w))"
      then have "view s' = view (srv w)" by (cases f) simp_all
      with P show ?thesis by simp
    qed (metis ok snd_conv)
  qed
  then show "wp (client_call X r) (\<lambda>_ w'. P (view (srv w'))) w"
    by (simp add: wp_def client_call_def c)
qed

lemma keeps_get: "keeps view P (client_get X pk)"
  and keeps_select: "keeps view P (client_select X pk names)"
  and keeps_batch_read: "keeps view P (client_batch_read X pks)"
  unfolding client_get_def client_select_def client_batch_read_def
  by (intro keeps_intros keeps_call; simp)+

lemma keeps_put: "stable fits (x_code X) P (RPut pk bs c) \<Longrightarrow> keeps view P (client_put X pk bs c)"
  and keeps_operate: "stable fits (x_code X) P (ROperate pk ops g) \<Longrightarrow> keeps view P (client_operate X pk ops g)"
  and keeps_remove: "stable fits (x_code X) P (RRemove pk) \<Longrightarrow> keeps view P (client_remove X pk)"
  and keeps_batch_write: "stable fits (x_code X) P (RBatchWrite ws) \<Longrightarrow> keeps view P (client_batch_write X ws)"
  unfolding client_put_def client_operate_def client_remove_def client_batch_write_def
  by (intro keeps_intros keeps_call; simp)+

lemma keeps_query: "keeps view P (client_query X ns st b v)"
  using query_law by (fastforce simp: keeps_def wp_def client_query_def split: prod.split)

lemma keeps_now_time: "keeps view P (now_time X)"
  using time_law by (fastforce simp: keeps_def wp_def now_time_def split: prod.split)

lemma keeps_uuid_hex: "keeps view P (uuid_hex X)"
  using uuid_law by (fastforce simp: keeps_def wp_def uuid_hex_def split: prod.split)

lemma keeps_uniform: "lo \<le> hi \<Longrightarrow> keeps view P (uniform X lo hi)"
  by (simp add: keeps_def wp_uniform)

lemma keeps_back_off: "0 \<le> d \<Longrightarrow> keeps view P (back_off X d)"
  unfolding back_off_def by (intro keeps_intros keeps_uniform)

lemma keeps_retry_loop:
  assumes "keeps view P m"
  shows "0 \<le> d \<Longrightarrow> keeps view P (retry_loop X m rt as d)"
proof (induction as arbitrary: d)
  case (Cons a as)
  have nd: "0 \<le> next_delay d" using Cons.prems next_delay_bounds by blast
  show ?case
    unfolding retry_loop.simps
    by (rule keeps_catchE keeps_thenE assms keeps_back_off Cons.prems Cons.IH nd)+
qed (simp add: keeps_raiseE)

lemma keeps_retrying: "keeps view P m \<Longrightarrow> keeps view P (write_retrying_overload X m rt)"
  unfolding write_retrying_overload_def by (intro keeps_retry_loop delay_bounds)

lemma keeps_batch_loop:
  assumes "stable fits (x_code X) P (RBatchWrite ws)"
  shows "0 \<le> d \<Longrightarrow> keeps view P (batch_retry_loop X ws as d)"
proof (induction as arbitrary: d)
  case (Cons a as)
  have nd: "0 \<le> next_delay d" using Cons.prems next_delay_bounds by blast
  show ?case
    unfolding batch_retry_loop.simps Let_def
    by (rule keeps_bindE keeps_thenE keeps_catchE keeps_option keeps_if keeps_retE keeps_back_off
        keeps_batch_write assms Cons.prems Cons.IH nd)+
qed (simp add: keeps_raiseE)

lemma keeps_batch_retry:
  "stable fits (x_code X) P (RBatchWrite ws) \<Longrightarrow> keeps view P (batch_write_with_retry X ws)"
  unfolding batch_write_with_retry_def by (intro keeps_batch_loop delay_bounds)

lemmas keeps_calls = keeps_get keeps_select keeps_batch_read keeps_put keeps_operate keeps_remove
  keeps_batch_write keeps_query keeps_now_time keeps_uuid_hex keeps_retrying keeps_batch_retry

end

end
