(* ===== verification/Ordered_Map.thy ===== *)
theory Ordered_Map
  imports Aerospike_Api
begin

text \<open>
  Key-ordered Maps, the representation of a segment's events. The locale \<open>keyed_map\<close> states
  what a put promises to a reader; repetition, reordering and replay of puts are settled
  there once and hold for \<open>kput\<close> by the interpretation below.
\<close>

locale keyed_map =
  fixes put :: "'k \<Rightarrow> 'v \<Rightarrow> 'm \<Rightarrow> 'm"
    and look :: "'m \<Rightarrow> 'k \<Rightarrow> 'v option"
    and ok :: "'m \<Rightarrow> bool"
  assumes ok_put: "ok m \<Longrightarrow> ok (put k v m)"
    and look_put: "ok m \<Longrightarrow> look (put k v m) = (look m)(k \<mapsto> v)"
    and ok_eqI: "ok m \<Longrightarrow> ok m' \<Longrightarrow> look m = look m' \<Longrightarrow> m = m'"
begin

lemma put_again: "ok m \<Longrightarrow> look m k = Some v \<Longrightarrow> put k v m = m"
  by (rule ok_eqI) (auto simp: ok_put look_put)

lemma put_idem: "ok m \<Longrightarrow> put k v (put k v m) = put k v m"
  by (rule put_again) (simp_all add: ok_put look_put)

lemma put_commute: "ok m \<Longrightarrow> k \<noteq> k' \<Longrightarrow> put k v (put k' v' m) = put k' v' (put k v m)"
  by (rule ok_eqI) (simp_all add: ok_put look_put fun_upd_twist)

lemma ok_fold: "ok m \<Longrightarrow> ok (fold (\<lambda>(k, v). put k v) kvs m)"
  by (induction kvs arbitrary: m) (auto simp: ok_put)

lemma look_fold: "ok m \<Longrightarrow> look (fold (\<lambda>(k, v). put k v) kvs m) = look m ++ map_of (rev kvs)"
proof (induction kvs arbitrary: m)
  case Nil
  then show ?case by simp
next
  case (Cons p kvs)
  then show ?case
    by (cases p) (auto simp: ok_put look_put fun_eq_iff map_add_def split: option.split)
qed

text \<open>Any schedule of a set of puts with one value per key, repetitions included, ends in the
  same map.\<close>

lemma schedule_irrelevant:
  assumes "ok m" "set kvs = set kvs'" "\<And>k v v'. (k, v) \<in> set kvs \<Longrightarrow> (k, v') \<in> set kvs \<Longrightarrow> v = v'"
  shows "fold (\<lambda>(k, v). put k v) kvs m = fold (\<lambda>(k, v). put k v) kvs' m"
proof (rule ok_eqI)
  have "map_of (rev kvs) = map_of (rev kvs')"
  proof
    fix k
    show "map_of (rev kvs) k = map_of (rev kvs') k"
    proof (cases "map_of (rev kvs) k")
      case None
      then show ?thesis using assms(2) by (metis (no_types) image_set map_of_eq_None_iff set_rev)
    next
      case (Some v)
      then have "(k, v) \<in> set kvs" by (metis map_of_SomeD set_rev)
      then obtain v' where v': "map_of (rev kvs') k = Some v'"
        using assms(2) by (metis weak_map_of_SomeI set_rev)
      then have "(k, v') \<in> set kvs" using assms(2) by (metis map_of_SomeD set_rev)
      with \<open>(k, v) \<in> set kvs\<close> assms(3) Some v' show ?thesis by simp
    qed
  qed
  then show "look (fold (\<lambda>(k, v). put k v) kvs m) = look (fold (\<lambda>(k, v). put k v) kvs' m)"
    using assms(1) by (simp add: look_fold)
qed (simp_all add: ok_fold assms(1))

end

definition ordered :: "dict \<Rightarrow> bool" where
  "ordered m \<longleftrightarrow> sorted_wrt (<) (map fst m)"

lemma ordered_simps [simp]:
  "ordered []"
  "ordered ((k, v) # m) \<longleftrightarrow> (\<forall>a \<in> fst ` set m. k < a) \<and> ordered m"
  by (simp_all add: ordered_def)

lemma kput_keys: "fst ` set (kput k v m) = insert k (fst ` set m)"
  by (induction k v m rule: kput.induct) auto

lemma ordered_kput: "ordered m \<Longrightarrow> ordered (kput k v m)"
  by (induction k v m rule: kput.induct) (auto simp: kput_keys intro: less_trans)

lemma map_of_kput: "map_of (kput k v m) = (map_of m)(k \<mapsto> v)" if "ordered m"
  using that
proof (induction k v m rule: kput.induct)
  case (2 k v a w m)
  then show ?case by (auto simp: fun_eq_iff)
qed simp

lemma ordered_distinct: "ordered m \<Longrightarrow> distinct (map fst m)"
  unfolding ordered_def by (simp add: strict_sorted_iff)

lemma ordered_eqI:
  assumes "ordered m" "ordered m'" "map_of m = map_of m'"
  shows "m = m'"
proof -
  have d: "distinct (map fst m)" "distinct (map fst m')" using assms ordered_distinct by auto
  have s: "set m = set m'" using map_of_inject_set[OF d] assms(3) by simp
  show ?thesis
  proof (rule map_sorted_distinct_set_unique)
    show "inj_on fst (set m \<union> set m')" using d(1) s by (simp add: distinct_map)
  qed (use assms d s in \<open>simp_all add: ordered_def strict_sorted_iff\<close>)
qed

interpretation events: keyed_map kput map_of ordered
  by unfold_locales (auto simp: ordered_kput map_of_kput intro: ordered_eqI)

lemma length_kput: "ordered m \<Longrightarrow> length (kput k v m) = (if map_of m k = None then Suc (length m) else length m)"
proof (induction k v m rule: kput.induct)
  case (2 k v a w m)
  have "a < k \<Longrightarrow> k \<noteq> a" by auto
  moreover have "k < a \<Longrightarrow> map_of m k = None" using 2(2) by (auto simp: map_of_eq_None_iff dest: less_asym)
  ultimately show ?case using 2 by (auto simp: not_less)
qed simp

lemma set_kput: "ordered m \<Longrightarrow> set (kput k v m) = insert (k, v) {p \<in> set m. fst p \<noteq> k}"
  by (induction k v m rule: kput.induct) (auto dest: less_imp_neq)

lemma kput_last: "\<forall>a \<in> fst ` set m. a < k \<Longrightarrow> kput k v m = m @ [(k, v)]"
  by (induction k v m rule: kput.induct) (auto dest: less_asym)

lemma kput_nonempty [simp]: "kput k v m \<noteq> []"
  by (cases m) (auto split: if_splits)

end
