(* ===== verification/Session_Invariant.thy ===== *)
theory Session_Invariant
  imports Session_Service Stability Ordered_Map
begin

text \<open>
  What the session service keeps true of the store, on every path of every method and under
  every fault of the cluster: the shape of the records it writes, and every record that
  belongs to somebody else.
\<close>

section \<open>The requests of the service\<close>

text \<open>A property that survives each write request the service can send for one session.\<close>

definition tolerates ::
  "(bins \<Rightarrow> bool) \<Rightarrow> (ae_error \<Rightarrow> int) \<Rightarrow> (db \<Rightarrow> bool) \<Rightarrow> schema \<Rightarrow> string \<Rightarrow> string \<Rightarrow> string \<Rightarrow> bool" where
  "tolerates fits code P S a u i \<longleftrightarrow>
     (\<forall>g k v. stable fits code P (ROperate (segment_pk S a u i g) [MapPut EVENTS k (PDict v)] None))
   \<and> (\<forall>n. stable fits code P (ROperate (session_pk S a u i) bump_ops (Some (CUR_SEGMENT, n))))
   \<and> (\<forall>g k v ds da du now. stable fits code P
        (RBatchWrite (append_writes S a u i g (MapPut EVENTS k (PDict v)) ds da du now)))
   \<and> (\<forall>st now. keys_distinct st \<longrightarrow> stable fits code P (RPut (session_pk S a u i) (session_bins a u i st now) True))
   \<and> (\<forall>items. stable fits code P (ROperate (app_state_pk S a) [MapPutItems STATE items] None))
   \<and> (\<forall>items. stable fits code P (ROperate (user_state_pk S a u) [MapPutItems STATE items] None))
   \<and> (\<forall>j. stable fits code P (ROperate (manifest_pk S a u) [ListAppend SESSION_MANIFEST (PStr j)] None))
   \<and> (\<forall>v. stable fits code P (ROperate (manifest_pk S a u) [ListRemoveByValue SESSION_MANIFEST v] None))
   \<and> (\<forall>g. stable fits code P (RRemove (segment_pk S a u i g)))
   \<and> stable fits code P (RRemove (session_pk S a u i))"

lemma partition_fst_distinct: "partition_state d = (s, a, u) \<Longrightarrow> keys_distinct s"
  using partition_loop_distinct[of "([], [], [])" d]
  by (simp add: partition_state_def parts_distinct_def)

context aerospike_client begin

lemma keeps_cache_cur: "keeps view P (cache_cur k n)"
  unfolding cache_cur_def by (intro keeps_intros) simp

lemmas keeps_rules = keeps_intros keeps_calls keeps_cache_cur

lemma keeps_current_segment: "keeps view P (current_segment X S a u i)"
  unfolding current_segment_def Let_def by (intro keeps_rules)

lemma keeps_segment_size: "keeps view P (segment_size X k)"
  unfolding segment_size_def by (intro keeps_rules) simp

lemma keeps_bump:
  assumes "stable fits (x_code X) P (ROperate (session_pk S a u i) bump_ops (Some (CUR_SEGMENT, n)))"
  shows "keeps view P (roll_over X S a u i n)"
  unfolding roll_over_def Let_def by (intro keeps_rules assms)

lemma keeps_roll_over:
  assumes "tolerates fits (x_code X) P S a u i"
  shows "keeps view P (roll_over X S a u i n)"
  by (rule keeps_bump) (use assms in \<open>simp add: tolerates_def\<close>)

lemma keeps_place_loop:
  assumes "tolerates fits (x_code X) P S a u i"
  shows "keeps view P (place_loop X S a u i (MapPut EVENTS k (PDict v)) n c)"
proof (induction n arbitrary: c)
  case (Suc n)
  show ?case
    unfolding place_loop.simps Let_def
    by (intro keeps_rules Suc.IH keeps_segment_size keeps_roll_over[OF assms])
      (use assms in \<open>simp add: tolerates_def\<close>)
qed (simp add: keeps_raiseE)

lemma keeps_place_event:
  assumes "tolerates fits (x_code X) P S a u i"
  shows "keeps view P (place_event X S a u i c (MapPut EVENTS k (PDict v)) b)"
  unfolding place_event_def by (intro keeps_rules keeps_roll_over[OF assms] keeps_place_loop[OF assms])

lemma keeps_append_event_record:
  assumes "tolerates fits (x_code X) P S a u i"
  shows "keeps view P (append_event_record X S a u i k v ds da du now)"
  unfolding append_event_record_def Let_def
  by (intro keeps_rules keeps_current_segment keeps_place_event[OF assms])
    (use assms in \<open>simp add: tolerates_def\<close>)

lemma keeps_append_event:
  assumes "tolerates fits (x_code X) P S (s_app_name s) (s_user_id s) (s_id s)" "base_keeps A"
  shows "keeps view P (append_event X A S s e)"
proof -
  obtain s' e' where b: "base_append_event A s e = (s', e')" by fastforce
  with assms(2) have i: "s_id s' = s_id s" "s_app_name s' = s_app_name s" "s_user_id s' = s_user_id s"
    unfolding base_keeps_def by (metis fst_conv)+
  show ?thesis
    unfolding append_event_def b prod.case i
    by (intro keeps_rules keeps_append_event_record[OF assms(1)])
qed

lemma keeps_load_loop: "keeps view P (load_loop X S a u i nr ts gs c)"
proof (induction gs arbitrary: c)
  case (Cons g gs)
  show ?case
    unfolding load_loop.simps Let_def read_segment_entries_def
    by (intro keeps_rules Cons.IH) (simp add: read_op_def split: option.split)
qed (simp add: keeps_retE)

lemma keeps_batch_rows: "keeps view P (batch_read X ks)"
  unfolding batch_read_def by (intro keeps_rules)

lemma keeps_get_session: "keeps view P (get_session X A S a u i config)"
  unfolding get_session_def load_events_def Let_def
  by (intro keeps_rules keeps_load_loop keeps_batch_rows)

lemma keeps_manifest_remove:
  assumes "tolerates fits (x_code X) P S a u i"
  shows "keeps view P (manifest_remove X S a u v)"
  unfolding manifest_remove_def by (intro keeps_rules) (use assms in \<open>simp add: tolerates_def\<close>)

lemma stable_batch_reads: "stable fits code P (RBatchWrite (map (\<lambda>k. (k, map ReadBin bs)) ks))"
proof -
  have "snd (operate_db fits k (map ReadBin bs) None d) = d" for k d
    by (auto simp: operate_db_def run_ops_def list_ex_iff split: option.split sum.split prod.split)
  then have "snd (with_fault f d (operate_db fits k (map ReadBin bs) None d)) = d" for f k d
    by (cases f) simp_all
  then have "snd (batch_db fits code fs (map (\<lambda>k. (k, map ReadBin bs)) ks) d) = d" for fs d
    by (induction ks arbitrary: fs) (simp_all add: Let_def case_prod_beta)
  then show ?thesis by (simp add: stable_def case_prod_beta)
qed

lemma keeps_list_sessions_for_user:
  assumes "tolerates fits (x_code X) P S a u i"
  shows "keeps view P (list_sessions_for_user X S a u)"
  unfolding list_sessions_for_user_def batch_read_bins_def manifest_remove_stale_def Let_def
  by (intro keeps_rules keeps_manifest_remove[OF assms] stable_batch_reads)

lemma keeps_list_sessions_user:
  assumes "tolerates fits (x_code X) P S a u i"
  shows "keeps view P (list_sessions X S a (Some u))"
  unfolding list_sessions_def option.case by (rule keeps_list_sessions_for_user[OF assms])

lemma keeps_list_sessions:
  assumes "\<And>u i. tolerates fits (x_code X) P S a u i"
  shows "keeps view P (list_sessions X S a user)"
  unfolding list_sessions_def by (intro keeps_rules keeps_list_sessions_for_user[OF assms])

lemma keeps_delete_session:
  assumes "tolerates fits (x_code X) P S a u i"
  shows "keeps view P (delete_session X S a u i)"
  unfolding delete_session_def Let_def
  by (intro keeps_rules keeps_manifest_remove[OF assms]) (use assms in \<open>simp_all add: tolerates_def\<close>)

lemma keeps_create_session:
  assumes "\<And>i. (\<And>j. sid = Some j \<Longrightarrow> j \<noteq> [] \<Longrightarrow> i = j) \<Longrightarrow> tolerates fits (x_code X) P S a u i"
  shows "keeps view P (create_session X S a u st sid)"
proof -
  define rest where "rest = (\<lambda>i. case partition_state (case st of None \<Rightarrow> [] | Some s \<Rightarrow> s) of
     (s, da, du) \<Rightarrow>
     bindE (now_time X) (\<lambda>now.
     thenE (write_retrying_overload X (client_put X (session_pk S a u i) (session_bins a u i s now) True) False)
     (thenE (cache_cur (session_key a u i) 0)
     (thenE (whenE (da \<noteq> []) (merge_scoped_state X S (app_state_set S) (app_state_key a) da))
     (thenE (whenE (du \<noteq> []) (merge_scoped_state X S (user_state_set S) (user_state_key a u) du))
     (thenE (manifest_add X S a u i)
     (bindE (merge_state_for_read X S a u (PDict s)) (\<lambda>merged.
        retE \<lparr>s_id = i, s_app_name = a, s_user_id = u, s_state = merged,
              s_events = [], s_last_update_time = PFloat now\<rparr>))))))))"
  have rest: "keeps view P (rest i)" if "tolerates fits (x_code X) P S a u i" for i
    unfolding rest_def merge_scoped_state_def manifest_add_def merge_state_for_read_def Let_def
      app_state_pk_def[symmetric] user_state_pk_def[symmetric]
    by (intro keeps_rules keeps_batch_rows)
      (use that in \<open>auto simp: tolerates_def dest: partition_fst_distinct\<close>)
  have "create_session X S a u st sid =
      bindE (case sid of Some i \<Rightarrow> if i \<noteq> [] then retE i else uuid_hex X | None \<Rightarrow> uuid_hex X) rest"
    unfolding create_session_def rest_def ..
  moreover have "keeps view P (bindE (retE i) rest)" if "sid = Some i" "i \<noteq> []" for i
    using rest[OF assms[of i]] that by (simp add: bindE_def retE_def)
  moreover have "keeps view P (bindE (uuid_hex X) rest)" if "sid = None \<or> sid = Some []"
    using that by (intro keeps_bindE keeps_uuid_hex rest assms) auto
  ultimately show ?thesis by (auto split: option.split)
qed

end

section \<open>The shape of the records\<close>

fun is_dict :: "pyval \<Rightarrow> bool" where
  "is_dict (PDict d) = True"
| "is_dict _ = False"

fun is_str :: "pyval \<Rightarrow> bool" where
  "is_str (PStr s) = True"
| "is_str _ = False"

fun val_ok :: "bin_name \<Rightarrow> pyval \<Rightarrow> bool" where
  "val_ok EVENTS v = (case v of PDict m \<Rightarrow> ordered m \<and> list_all (is_dict \<circ> snd) m | _ \<Rightarrow> False)"
| "val_ok STATE v = (case v of PDict d \<Rightarrow> keys_distinct d | _ \<Rightarrow> False)"
| "val_ok CUR_SEGMENT v = (case v of PInt c \<Rightarrow> 0 \<le> c | _ \<Rightarrow> False)"
| "val_ok SESSION_MANIFEST v = (case v of PList l \<Rightarrow> list_all is_str l | _ \<Rightarrow> False)"
| "val_ok SESSION_ID v = is_str v"
| "val_ok b v = True"

definition bins_ok :: "bins \<Rightarrow> bool" where
  "bins_ok bs \<longleftrightarrow> distinct (map fst bs) \<and> list_all (\<lambda>(b, v). val_ok b v) bs"

abbreviation store_ok :: "db \<Rightarrow> bool" where
  "store_ok \<equiv> each_record bins_ok"

lemma bins_ok_iff:
  "bins_ok bs \<longleftrightarrow> distinct (map fst bs) \<and> (\<forall>b v. map_of bs b = Some v \<longrightarrow> val_ok b v)"
  by (auto simp: bins_ok_def list_all_iff dest: map_of_SomeD)

lemma bins_ok_Nil [simp]: "bins_ok []"
  by (simp add: bins_ok_def)

lemma bins_ok_dset: "bins_ok bs \<Longrightarrow> val_ok b v \<Longrightarrow> bins_ok (dset b v bs)"
  by (auto simp: bins_ok_iff)

lemma distinct_ddel [simp]: "distinct (map fst d) \<Longrightarrow> distinct (map fst (ddel k d))"
  unfolding ddel_def by (rule distinct_delete)

lemma bins_ok_ddel: "bins_ok bs \<Longrightarrow> bins_ok (ddel b bs)"
  by (auto simp: bins_ok_iff split: if_splits)

lemma bins_okD: "bins_ok bs \<Longrightarrow> map_of bs b = Some v \<Longrightarrow> val_ok b v"
  by (auto simp: bins_ok_iff)

lemma dicts_kput: "list_all (is_dict \<circ> snd) m \<Longrightarrow> is_dict v \<Longrightarrow> list_all (is_dict \<circ> snd) (kput k v m)"
  by (induction k v m rule: kput.induct) auto

lemma op_keeps_events: "op_keeps bins_ok (MapPut EVENTS k (PDict v))"
  unfolding op_keeps_def
  by (auto intro!: bins_ok_dset simp: ordered_kput dicts_kput dest: bins_okD
      split: option.splits pyval.splits)

lemma op_keeps_state: "op_keeps bins_ok (MapPutItems STATE items)"
  unfolding op_keeps_def
  by (auto intro!: bins_ok_dset dest: bins_okD split: option.splits pyval.splits)

lemma op_keeps_bump: "list_all (op_keeps bins_ok) bump_ops"
  unfolding op_keeps_def bump_ops_def
  by (auto intro!: bins_ok_dset dest: bins_okD split: option.splits pyval.splits)

lemma op_keeps_touch: "op_keeps bins_ok (WriteBin LAST_UPDATE (PFloat now))"
  unfolding op_keeps_def by (auto intro!: bins_ok_dset)

lemma op_keeps_manifest:
  "op_keeps bins_ok (ListAppend SESSION_MANIFEST (PStr j))"
  "op_keeps bins_ok (ListRemoveByValue SESSION_MANIFEST v)"
  unfolding op_keeps_def
  by (auto intro!: bins_ok_dset simp: list_all_iff dest: bins_okD split: option.splits pyval.splits)

lemma put_session_bins: "keys_distinct st \<Longrightarrow> bins_ok old \<Longrightarrow> bins_ok (put_bins old (session_bins a u i st now))"
  by (auto simp: session_bins_def intro!: bins_ok_dset)

lemma store_ok_tolerates: "tolerates fits code store_ok S a u i"
  unfolding tolerates_def
  by (auto intro!: stable_operate stable_put stable_remove stable_batch_write
      simp: op_keeps_events op_keeps_state op_keeps_bump op_keeps_manifest op_keeps_touch
        put_session_bins append_writes_def)

section \<open>The records of others\<close>

text \<open>The records that belong to one session and its user and application.\<close>

definition footprint :: "schema \<Rightarrow> string \<Rightarrow> string \<Rightarrow> string \<Rightarrow> pk set" where
  "footprint S a u i =
     {session_pk S a u i, app_state_pk S a, user_state_pk S a u, manifest_pk S a u}
     \<union> range (segment_pk S a u i)"

lemma frame_tolerates: "k \<notin> footprint S a u i \<Longrightarrow> tolerates fits code (\<lambda>d. d k = v) S a u i"
  unfolding tolerates_def footprint_def by (auto intro!: stable_frame simp: append_writes_def)

text \<open>All records that hold data of one user.\<close>

definition user_records :: "schema \<Rightarrow> string \<Rightarrow> string \<Rightarrow> pk set" where
  "user_records S a u =
     insert (user_state_pk S a u) (insert (manifest_pk S a u)
       (range (session_pk S a u) \<union> (\<Union>i. range (segment_pk S a u i))))"

lemma user_records_session_keys:
  assumes "k \<in> user_records S a u"
  shows "k = user_state_pk S a u \<or> (\<exists>t. k = (namespace S, sessions_set S, a @ '':'' @ u @ '':'' @ t))"
  using assms
  by (auto simp: user_records_def manifest_pk_def session_pk_def segment_pk_def session_manifest_key_def
      session_key_def segment_key_def key_consts)

lemma footprint_session_keys:
  assumes "k \<in> footprint S a u i"
  shows "k = user_state_pk S a u \<or> k = app_state_pk S a
    \<or> (\<exists>t. k = (namespace S, sessions_set S, a @ '':'' @ u @ '':'' @ t))"
  using assms
  by (auto simp: footprint_def manifest_pk_def session_pk_def segment_pk_def session_manifest_key_def
      session_key_def segment_key_def key_consts)

lemma other_user_apart:
  assumes "no_colon a" "no_colon u" "no_colon a'" "no_colon u'" "(a, u) \<noteq> (a', u')"
    "k \<in> user_records S a' u'"
  shows "k \<notin> footprint S a u i"
proof
  assume "k \<in> footprint S a u i"
  from footprint_session_keys[OF this] user_records_session_keys[OF assms(6)] show False
    using assms(1-5) set_names_distinct[of S]
    by (auto simp: user_state_pk_def app_state_pk_def user_state_key_def SEP_def first_field_eq)
qed

section \<open>Properties\<close>

text \<open>
  C9. Whatever the cluster does, the records keep their shape. After any method of the session
  service, on any path and with any fault at any call, every \<open>events\<close> bin is a Map of event
  Maps in strictly ascending key order, every \<open>state\<close> bin a Map without repeated keys, every
  \<open>cur\<close> bin a non-negative integer, every session id a string and every manifest a list of
  strings, if they were before.
\<close>

theorem session_store_invariant:
  assumes "aerospike_client X view fits" "base_keeps A"
  shows "keeps view store_ok (create_session X S a u st sid)
    \<and> keeps view store_ok (get_session X A S a u i config)
    \<and> keeps view store_ok (list_sessions X S a user)
    \<and> keeps view store_ok (delete_session X S a u i)
    \<and> keeps view store_ok (append_event X A S s e)"
  using aerospike_client.keeps_create_session[OF assms(1) store_ok_tolerates]
    aerospike_client.keeps_get_session[OF assms(1)]
    aerospike_client.keeps_list_sessions[OF assms(1) store_ok_tolerates]
    aerospike_client.keeps_delete_session[OF assms(1) store_ok_tolerates]
    aerospike_client.keeps_append_event[OF assms(1) store_ok_tolerates assms(2)]
  by (intro conjI)

definition demo_session :: session where
  "demo_session = \<lparr>s_id = ''s1'', s_app_name = ''app'', s_user_id = ''ann'', s_state = [], s_events = [],
     s_last_update_time = PFloat 0\<rparr>"

definition demo_world :: "(pk \<times> bins) list \<Rightarrow> (fault \<times> fault list) list \<Rightarrow> mem_server session_world" where
  "demo_world kvs fs = \<lparr>srv = loaded_server kvs fs, slept = [], cur_cache = Map.empty\<rparr>"

lemma demo_world_simps [simp]:
  "srv (demo_world kvs fs) = loaded_server kvs fs" "cur_cache (demo_world kvs fs) = Map.empty"
  by (simp_all add: demo_world_def)

definition demo_records :: "(pk \<times> bins) list" where
  "demo_records = [(session_pk demo_schema ''app'' ''ann'' ''s1'', session_bins ''app'' ''ann'' ''s1'' [] 5)]"

theorem session_store_invariant_witness:
  "keeps mem_view store_ok (create_session (scripted_ext 500) demo_schema ''app'' ''ann'' None None)
   \<and> keeps mem_view store_ok (append_event (scripted_ext 500) sample_adk demo_schema demo_session (sample_event ''e1'' 7 []))"
  using session_store_invariant[OF scripted.aerospike_client_axioms sample_adk_keeps,
      where S = demo_schema and a = "''app''" and u = "''ann''" and st = None and sid = None
        and s = demo_session and e = "sample_event ''e1'' 7 []"]
  by blast

text \<open>
  C8. No method touches another user's data. With identifiers that hold no colon, creating,
  reading, deleting or appending to a session of one user leaves every session, segment,
  manifest and user-state record of every other user as it was, whatever the session ids are
  and whatever faults occur.
\<close>

theorem tenant_isolation:
  assumes "aerospike_client X view fits" "base_keeps A"
    and "no_colon a" "no_colon u" "no_colon a'" "no_colon u'" "(a, u) \<noteq> (a', u')"
    and "k \<in> user_records S a' u'"
  shows "keeps view (\<lambda>d. d k = r) (create_session X S a u st sid)
    \<and> keeps view (\<lambda>d. d k = r) (get_session X A S a u i config)
    \<and> keeps view (\<lambda>d. d k = r) (list_sessions X S a (Some u))
    \<and> keeps view (\<lambda>d. d k = r) (delete_session X S a u i)
    \<and> (s_app_name s = a \<and> s_user_id s = u \<longrightarrow> keeps view (\<lambda>d. d k = r) (append_event X A S s e))"
proof -
  have t: "tolerates fits (x_code X) (\<lambda>d. d k = r) S a u j" for j
    by (rule frame_tolerates[OF other_user_apart[OF assms(3-8)]])
  show ?thesis
  proof (intro conjI impI)
    assume "s_app_name s = a \<and> s_user_id s = u"
    then have "tolerates fits (x_code X) (\<lambda>d. d k = r) S (s_app_name s) (s_user_id s) (s_id s)"
      using t by simp
    then show "keeps view (\<lambda>d. d k = r) (append_event X A S s e)"
      by (rule aerospike_client.keeps_append_event[OF assms(1) _ assms(2)])
  qed (rule aerospike_client.keeps_create_session[OF assms(1) t]
      aerospike_client.keeps_get_session[OF assms(1)]
      aerospike_client.keeps_list_sessions_user[OF assms(1) t]
      aerospike_client.keeps_delete_session[OF assms(1) t])+
qed

theorem tenant_isolation_witness:
  "keeps mem_view (\<lambda>d. d (session_pk demo_schema ''app'' ''bob'' ''s1'') = None)
     (delete_session (scripted_ext 500) demo_schema ''app'' ''ann'' ''s1'')"
proof -
  have "session_pk demo_schema ''app'' ''bob'' ''s1'' \<in> user_records demo_schema ''app'' ''bob''"
    by (simp add: user_records_def)
  from tenant_isolation[OF scripted.aerospike_client_axioms sample_adk_keeps _ _ _ _ _ this,
      of "''app''" "''ann''"]
  show ?thesis by simp
qed

end
