(* ===== verification/Placement.thy ===== *)
theory Placement
  imports Session_Invariant
begin

text \<open>
  Where an appended event ends up. The first part follows \<open>place_event\<close> under arbitrary
  faults: the event is in one segment or in none. The second part follows it on a reliable
  cluster and computes the store it leaves, including a stale cache and a full segment.
\<close>

section \<open>Segments as maps\<close>

definition events_of :: "bins \<Rightarrow> dict" where
  "events_of bs = (case map_of bs EVENTS of Some (PDict m) \<Rightarrow> m | _ \<Rightarrow> [])"

definition seg :: "db \<Rightarrow> schema \<Rightarrow> string \<Rightarrow> string \<Rightarrow> string \<Rightarrow> int \<Rightarrow> dict" where
  "seg d S a u i g = (case d (segment_pk S a u i g) of None \<Rightarrow> [] | Some bs \<Rightarrow> events_of bs)"

lemma segment_pk_inject [simp]: "segment_pk S a u i g = segment_pk S a u i h \<longleftrightarrow> g = h"
  by (simp add: segment_pk_def)

lemma segment_pk_not_session [simp]:
  "segment_pk S a u i g \<noteq> session_pk S a u i" "session_pk S a u i \<noteq> segment_pk S a u i g"
  by (simp_all add: segment_pk_def session_pk_def)

lemma seg_put:
  assumes "\<And>bs. d (segment_pk S a u i g) = Some bs \<Longrightarrow> bins_ok bs"
    "d' = snd (operate_db fits (segment_pk S a u i g) [MapPut EVENTS k v] None d)"
  shows "fst (operate_db fits (segment_pk S a u i g) [MapPut EVENTS k v] None d) = Inr out \<Longrightarrow>
      seg d' S a u i h = (if h = g then kput k v (seg d S a u i g) else seg d S a u i h)"
proof -
  let ?bs = "case d (segment_pk S a u i g) of None \<Rightarrow> [] | Some x \<Rightarrow> x"
  have ok: "bins_ok ?bs"
    by (cases "d (segment_pk S a u i g)") (auto dest: assms(1))
  assume "fst (operate_db fits (segment_pk S a u i g) [MapPut EVENTS k v] None d) = Inr out"
  then obtain m where m: "put_map EVENTS k v ?bs = Some m"
    "d' = d(segment_pk S a u i g \<mapsto> dset EVENTS (PDict m) ?bs)"
    using assms(2) unfolding operate_put Let_def by (auto split: option.splits if_splits)
  have "m = kput k v (seg d S a u i g)"
    using m(1) bins_okD[OF ok, of EVENTS]
    by (cases "d (segment_pk S a u i g)")
      (auto simp: put_map_def seg_def events_of_def split: option.splits pyval.splits)
  with m(2) show ?thesis by (simp add: seg_def events_of_def)
qed

section \<open>Any faults: at most one segment\<close>

text \<open>Two stores that differ in nothing but the \<open>cur\<close> bin of a session record.\<close>

definition only_cur :: "schema \<Rightarrow> string \<Rightarrow> string \<Rightarrow> string \<Rightarrow> db \<Rightarrow> db \<Rightarrow> bool" where
  "only_cur S a u i d d' \<longleftrightarrow> (\<forall>k. k \<noteq> session_pk S a u i \<longrightarrow> d' k = d k)
     \<and> (\<exists>bs bs'. d (session_pk S a u i) = Some bs \<and> d' (session_pk S a u i) = Some bs'
          \<and> (\<forall>b. b \<noteq> CUR_SEGMENT \<longrightarrow> map_of bs' b = map_of bs b))"

lemma only_curD: "only_cur S a u i d d' \<Longrightarrow> k \<noteq> session_pk S a u i \<Longrightarrow> d' k = d k"
  unfolding only_cur_def by blast

lemma bump_only_cur:
  assumes "only_cur S a u i d0 d"
  shows "only_cur S a u i d0 (snd (operate_db fits (session_pk S a u i) bump_ops g d))"
proof -
  from assms obtain bs bs' where b: "d0 (session_pk S a u i) = Some bs" "d (session_pk S a u i) = Some bs'"
    "\<forall>b. b \<noteq> CUR_SEGMENT \<longrightarrow> map_of bs' b = map_of bs b" "\<forall>k. k \<noteq> session_pk S a u i \<longrightarrow> d k = d0 k"
    by (auto simp: only_cur_def)
  have "only_cur S a u i d0 (snd (run_ops fits (session_pk S a u i) bump_ops bs' d))"
    using assms b
    by (cases "map_of bs' CUR_SEGMENT")
      (auto simp: run_ops_def bump_ops_def only_cur_def split: pyval.split)
  with assms b(2) show ?thesis by (auto simp: operate_db_def split: option.split)
qed

lemma only_cur_stable:
  "stable fits code (only_cur S a u i d0) (ROperate (session_pk S a u i) bump_ops g)"
  by (simp add: stable_def map_resp_def bump_only_cur)

definition landed :: "(bins \<Rightarrow> bool) \<Rightarrow> schema \<Rightarrow> string \<Rightarrow> string \<Rightarrow> string \<Rightarrow> string \<Rightarrow> pyval \<Rightarrow> db \<Rightarrow> db \<Rightarrow> bool" where
  "landed fits S a u i k v d d' \<longleftrightarrow> (\<exists>d2 g out. only_cur S a u i d d2
     \<and> operate_db fits (segment_pk S a u i g) [MapPut EVENTS k v] None d2 = (Inr out, d'))"

lemma retry_ok_landed:
  assumes "retry_ok (operate_db fits (segment_pk S a u i g) [MapPut EVENTS k v] None) d r d'"
    "only_cur S a u i d0 d"
  shows "only_cur S a u i d0 d' \<or> landed fits S a u i k v d0 d'"
    and "r = Inr out \<Longrightarrow> landed fits S a u i k v d0 d'"
    and "r = Inl (AE RecordTooBig) \<Longrightarrow> only_cur S a u i d0 d'"
proof -
  let ?f = "operate_db fits (segment_pk S a u i g) [MapPut EVENTS k v] None"
  note cases = retry_ok_put[OF assms(1) refl]
  have good: "landed fits S a u i k v d0 (snd (?f d))" if "fst (?f d) = Inr o1" for o1
    using that assms(2) unfolding landed_def by (metis prod.collapse)
  have bad: "snd (?f d) = d" if "fst (?f d) = Inl e" for e
    using that by (rule operate_error_unchanged)
  show "only_cur S a u i d0 d' \<or> landed fits S a u i k v d0 d'"
    using cases(1) good bad assms(2) by (cases "fst (?f d)") auto
  show "r = Inl (AE RecordTooBig) \<Longrightarrow> only_cur S a u i d0 d'" using cases(3) assms(2) by simp
  assume r: "r = Inr out"
  show "landed fits S a u i k v d0 d'"
  proof (cases "fst (?f d)")
    case (Inr o1)
    with r cases(2) good show ?thesis by simp
  next
    case (Inl e)
    with assms(1) r bad have False by (auto simp: retry_ok_def attempt_ok_def)
    then show ?thesis ..
  qed
qed

context aerospike_client begin

lemma wp_place_loop_faulty:
  assumes "only_cur S a u i d0 (view (srv w))"
  shows "wp (place_loop X S a u i (MapPut EVENTS k v) n c)
    (\<lambda>r w'. (only_cur S a u i d0 (view (srv w')) \<or> landed fits S a u i k v d0 (view (srv w')))
        \<and> (r = Inr () \<longrightarrow> landed fits S a u i k v d0 (view (srv w')))) w"
  using assms
proof (induction n arbitrary: c w)
  case 0
  then show ?case by (simp add: wp_simps)
next
  case (Suc n)
  let ?Q = "\<lambda>r w'. (only_cur S a u i d0 (view (srv w')) \<or> landed fits S a u i k v d0 (view (srv w')))
        \<and> (r = Inr () \<longrightarrow> landed fits S a u i k v d0 (view (srv w')))"
  let ?rest = "\<lambda>r w'. case r of Inl e \<Rightarrow> ?Q (Inl e) w'
     | Inr (x :: int option) \<Rightarrow> wp (case x of Some c \<Rightarrow> place_loop X S a u i (MapPut EVENTS k v) n c
          | None \<Rightarrow> cache_cur (session_key a u i) c) ?Q w'"
  have handler: "wp (bindE (segment_size X (segment_pk S a u i c)) (\<lambda>size.
       if size = 0 then raiseE e
       else bindE (roll_over X S a u i c) (\<lambda>c. retE (Some c)))) ?rest w1"
    if o: "only_cur S a u i d0 (view (srv w1))" for e and w1 :: "'s session_world"
  proof -
    have "keeps view (only_cur S a u i d0) (bindE (segment_size X (segment_pk S a u i c)) (\<lambda>size.
       if size = 0 then raiseE e else bindE (roll_over X S a u i c) (\<lambda>c. retE (Some c))))"
      by (intro keeps_intros keeps_segment_size keeps_bump only_cur_stable)
    then have "wp (bindE (segment_size X (segment_pk S a u i c)) (\<lambda>size.
       if size = 0 then raiseE e else bindE (roll_over X S a u i c) (\<lambda>c. retE (Some c))))
       (\<lambda>_ w'. only_cur S a u i d0 (view (srv w'))) w1" using o by (simp add: keeps_def)
    moreover have "wp (bindE (segment_size X (segment_pk S a u i c)) (\<lambda>size.
       if size = 0 then raiseE e else bindE (roll_over X S a u i c) (\<lambda>c. retE (Some c))))
       (\<lambda>r _. r \<noteq> Inr None) w1"
      by (auto simp: wp_def bindE_def raiseE_def retE_def split: prod.split sum.split)
    ultimately show ?thesis
      by (rule wp_mono[OF wp_conjI]) (auto split: sum.split option.split intro!: Suc.IH)
  qed
  show ?case
    unfolding place_loop.simps Let_def wp_bindE[of "catchE _ _ _"] wp_catchE wp_thenE wp_retE
  proof (rule wp_mono[OF put_retrying_safe], goal_cases)
    case (1 r w1)
    note l = retry_ok_landed[OF 1 Suc.prems]
    show ?case
    proof (cases r)
      case (Inl e)
      then show ?thesis using l(1) handler[OF l(3), of e] by (auto simp: is_ae_def)
    next
      case (Inr x)
      then show ?thesis using l(2) by (simp add: wp_simps)
    qed
  qed
qed

lemma wp_append_faulty:
  assumes "view (srv w) (session_pk S a u i) \<noteq> None"
  shows "wp (append_event_record X S a u i k v [] [] [] now)
    (\<lambda>r w'. (only_cur S a u i (view (srv w)) (view (srv w')) \<or> landed fits S a u i k (PDict v) (view (srv w)) (view (srv w')))
        \<and> (r = Inr () \<longrightarrow> landed fits S a u i k (PDict v) (view (srv w)) (view (srv w')))) w"
proof -
  have c: "wp (current_segment X S a u i) (\<lambda>_ w'. view (srv w') = view (srv w)) w"
    using keeps_current_segment[of "\<lambda>d. d = view (srv w)"] by (simp add: keeps_def)
  have o: "only_cur S a u i (view (srv w)) (view (srv w))" using assms by (auto simp: only_cur_def)
  show ?thesis
    unfolding append_event_record_def wp_bindE
    by (rule wp_mono[OF c])
      (auto simp: o place_event_def bindE_def retE_def intro!: wp_place_loop_faulty split: sum.split)
qed

end

lemma only_cur_seg: "only_cur S a u i d d' \<Longrightarrow> seg d' S a u i g = seg d S a u i g"
  by (simp add: only_curD seg_def)

lemma landed_segs:
  assumes "landed fits S a u i k v d d'" "store_ok d"
  obtains g where "seg d' S a u i g = kput k v (seg d S a u i g)"
    "\<And>h. h \<noteq> g \<Longrightarrow> seg d' S a u i h = seg d S a u i h"
    "\<And>p. p \<noteq> segment_pk S a u i g \<Longrightarrow> p \<noteq> session_pk S a u i \<Longrightarrow> d' p = d p"
    "\<exists>bs bs'. d (session_pk S a u i) = Some bs \<and> d' (session_pk S a u i) = Some bs'
       \<and> (\<forall>b. b \<noteq> CUR_SEGMENT \<longrightarrow> map_of bs' b = map_of bs b)"
proof -
  from assms(1) obtain d2 g out where o: "only_cur S a u i d d2"
    and f: "operate_db fits (segment_pk S a u i g) [MapPut EVENTS k v] None d2 = (Inr out, d')"
    by (auto simp: landed_def)
  have "bins_ok bs" if "d2 (segment_pk S a u i g) = Some bs" for bs
    using that each_recordD[OF assms(2)] by (simp add: only_curD[OF o])
  then have s: "seg d' S a u i h = (if h = g then kput k v (seg d2 S a u i g) else seg d2 S a u i h)" for h
    by (rule seg_put[where fits = fits and out = out]) (simp_all add: f)
  have fr: "d' p = d2 p" if "p \<noteq> segment_pk S a u i g" for p
    using operate_db_frame[OF that, of fits "[MapPut EVENTS k v]" None d2] f by simp
  show ?thesis
  proof (rule that[of g])
    show "seg d' S a u i g = kput k v (seg d S a u i g)" using s only_cur_seg[OF o] by simp
    show "seg d' S a u i h = seg d S a u i h" if "h \<noteq> g" for h using s that only_cur_seg[OF o] by simp
    show "d' p = d p" if "p \<noteq> segment_pk S a u i g" "p \<noteq> session_pk S a u i" for p
      using fr that by (simp add: only_curD[OF o])
    show "\<exists>bs bs'. d (session_pk S a u i) = Some bs \<and> d' (session_pk S a u i) = Some bs'
       \<and> (\<forall>b. b \<noteq> CUR_SEGMENT \<longrightarrow> map_of bs' b = map_of bs b)"
      using o unfolding only_cur_def fr[OF segment_pk_not_session(2)] by blast
  qed
qed

section \<open>A reliable cluster: the exact outcome\<close>

lemma apply_ops_errors: "apply_ops ops bs out = Inl e \<Longrightarrow> e = AerospikeError 12 \<or> e = AerospikeError 4"
proof (induction ops bs out rule: apply_ops.induct)
  case (2 x xs bs out)
  have "apply_op x bs = Inl e' \<Longrightarrow> e' = AerospikeError 12 \<or> e' = AerospikeError 4" for e'
    by (cases x) (auto simp: incompatible_def split: option.splits pyval.splits if_splits)
  with 2 show ?case by (auto split: sum.splits option.splits)
qed simp

lemma operate_db_errors:
  "fst (operate_db fits pk ops g d) = Inl e \<Longrightarrow> e \<notin> {DeviceOverload, MaxErrorRateExceeded, TimeoutError}"
  by (auto simp: operate_db_def run_ops_def dest: apply_ops_errors
      split: option.splits sum.splits if_splits prod.splits)

context reliable_client begin

lemma wp_retry_calm:
  assumes "wp m (\<lambda>r w'. (\<forall>e. r = Inl (AE e) \<longrightarrow> e \<notin> {DeviceOverload, MaxErrorRateExceeded, TimeoutError})
      \<and> Q r w') w"
  shows "wp (write_retrying_overload X m rt) Q w"
proof -
  have "[0..<OVERLOAD_MAX_RETRIES + 1] = 0 # [1..<OVERLOAD_MAX_RETRIES + 1]"
    by (simp add: OVERLOAD_MAX_RETRIES_def upt_rec[of 0])
  then show ?thesis
    unfolding write_retrying_overload_def
    by (simp only: retry_loop.simps wp_catchE)
      (rule wp_mono[OF assms], auto simp: swallowed_def split: sum.split)
qed

lemma wp_operate_retrying:
  assumes "g = None \<or> view (srv w) pk \<noteq> None"
    and "\<And>s'. view s' = snd (operate_db fits pk ops g (view (srv w))) \<Longrightarrow>
      Q (lift_ae (fst (operate_db fits pk ops g (view (srv w))))) (w\<lparr>srv := s'\<rparr>)"
  shows "wp (write_retrying_overload X (client_operate X pk ops g) rt) Q w"
proof (rule wp_retry_calm, rule wp_operate[OF assms(1)], intro conjI allI impI)
  fix s' e
  assume "lift_ae (fst (operate_db fits pk ops g (view (srv w)))) = Inl (AE e)"
  then have "fst (operate_db fits pk ops g (view (srv w))) = Inl e"
    by (cases "fst (operate_db fits pk ops g (view (srv w)))") simp_all
  then show "e \<notin> {DeviceOverload, MaxErrorRateExceeded, TimeoutError}" by (rule operate_db_errors)
qed (rule assms(2))

lemma wp_roll_over:
  assumes rec: "view (srv w) (session_pk S a u i) = Some sb" "map_of sb CUR_SEGMENT = Some (PInt c)"
    and fit: "fits (dset CUR_SEGMENT (PInt (c + 1)) sb)"
    and Q: "\<And>s'. view s' = (if n = c then (view (srv w))(session_pk S a u i \<mapsto> dset CUR_SEGMENT (PInt (c + 1)) sb)
        else view (srv w)) \<Longrightarrow>
      Q (Inr (if n = c then c + 1 else c))
        (w\<lparr>srv := s', cur_cache := (cur_cache w)(session_key a u i \<mapsto> if n = c then c + 1 else c)\<rparr>)"
  shows "wp (roll_over X S a u i n) Q w"
  unfolding roll_over_def Let_def wp_bindE[of "catchE _ _ _"] wp_catchE wp_bindE[of "write_retrying_overload _ _ _"] wp_liftE
proof (rule wp_operate_retrying, goal_cases)
  case 1
  then show ?case using rec by simp
next
  case (2 s')
  let ?f = "operate_db fits (session_pk S a u i) bump_ops (Some (CUR_SEGMENT, n)) (view (srv w))"
  show ?case
  proof (cases "n = c")
    case True
    have "?f = (Inr [(CUR_SEGMENT, PInt (c + 1))],
        (view (srv w))(session_pk S a u i \<mapsto> dset CUR_SEGMENT (PInt (c + 1)) sb))"
      using rec fit True by (simp add: operate_db_def run_ops_def bump_ops_def dset_def[of _ _ "[]"])
    with 2 Q[of s'] True show ?thesis by (simp add: wp_simps dget_def)
  next
    case False
    have "?f = (Inl FilteredOut, view (srv w))" using rec False by (simp add: operate_db_def)
    moreover have "wp (client_select X (session_pk S a u i) [CUR_SEGMENT]) (\<lambda>r w'. case r of
        Inl e \<Rightarrow> Q (Inl e) w' | Inr bins \<Rightarrow> (case py_int (dget bins CUR_SEGMENT (PInt (n + 1))) of
          Inl e \<Rightarrow> Q (Inl e) w'
        | Inr c \<Rightarrow> Q (Inr c) (w'\<lparr>cur_cache := (cur_cache w')(session_key a u i \<mapsto> c)\<rparr>))) (w\<lparr>srv := s'\<rparr>)"
    proof (rule wp_select)
      fix s2 assume "view s2 = view (srv (w\<lparr>srv := s'\<rparr>))"
      with 2 \<open>?f = _\<close> have v: "view s2 = view (srv w)" "view s' = view (srv w)" by simp_all
      have "map_of (filter (\<lambda>(b, _). b \<in> set [CUR_SEGMENT]) sb) CUR_SEGMENT = Some (PInt c)"
        using rec(2) by (induction sb) auto
      then show "case (case view (srv (w\<lparr>srv := s'\<rparr>)) (session_pk S a u i) of None \<Rightarrow> Inl (AE RecordNotFound)
           | Some bs \<Rightarrow> Inr (filter (\<lambda>(b, _). b \<in> set [CUR_SEGMENT]) bs)) of
          Inl e \<Rightarrow> Q (Inl e) (w\<lparr>srv := s', srv := s2\<rparr>)
        | Inr bins \<Rightarrow> (case py_int (dget bins CUR_SEGMENT (PInt (n + 1))) of
            Inl e \<Rightarrow> Q (Inl e) (w\<lparr>srv := s', srv := s2\<rparr>)
          | Inr c \<Rightarrow> Q (Inr c) (w\<lparr>srv := s', srv := s2, cur_cache := (cur_cache (w\<lparr>srv := s', srv := s2\<rparr>))(session_key a u i \<mapsto> c)\<rparr>))"
        using v rec Q[of s2] False by (simp add: dget_def)
    qed
    ultimately show ?thesis
      by (simp add: is_ae_def wp_bindE) (erule wp_mono, auto simp: wp_simps split: sum.splits)
  qed
qed

end

text \<open>A segment record holds its events and nothing else.\<close>

definition pure_segs :: "db \<Rightarrow> schema \<Rightarrow> string \<Rightarrow> string \<Rightarrow> string \<Rightarrow> bool" where
  "pure_segs d S a u i \<longleftrightarrow> (\<forall>g. case d (segment_pk S a u i g) of
      None \<Rightarrow> True | Some bs \<Rightarrow> (\<exists>m. bs = [(EVENTS, PDict m)] \<and> ordered m))"

lemma pure_segE:
  assumes "pure_segs d S a u i"
  obtains "d (segment_pk S a u i g) = None" "seg d S a u i g = []"
  | "d (segment_pk S a u i g) = Some [(EVENTS, PDict (seg d S a u i g))]" "ordered (seg d S a u i g)"
proof -
  have "case d (segment_pk S a u i g) of
      None \<Rightarrow> True | Some bs \<Rightarrow> (\<exists>m. bs = [(EVENTS, PDict m)] \<and> ordered m)"
    using assms unfolding pure_segs_def by blast
  with that show ?thesis
    by (cases "d (segment_pk S a u i g)") (auto simp: seg_def events_of_def)
qed

definition seg_fits ::
  "(bins \<Rightarrow> bool) \<Rightarrow> db \<Rightarrow> schema \<Rightarrow> string \<Rightarrow> string \<Rightarrow> string \<Rightarrow> string \<Rightarrow> pyval \<Rightarrow> int \<Rightarrow> bool" where
  "seg_fits fits d S a u i k v g \<longleftrightarrow> fits [(EVENTS, PDict (kput k v (seg d S a u i g)))]"

definition seg_upd :: "db \<Rightarrow> schema \<Rightarrow> string \<Rightarrow> string \<Rightarrow> string \<Rightarrow> string \<Rightarrow> pyval \<Rightarrow> int \<Rightarrow> db" where
  "seg_upd d S a u i k v g = d(segment_pk S a u i g \<mapsto> [(EVENTS, PDict (kput k v (seg d S a u i g)))])"

lemma operate_pure:
  assumes "pure_segs d S a u i"
  shows "operate_db fits (segment_pk S a u i g) [MapPut EVENTS k v] None d =
    (if seg_fits fits d S a u i k v g
     then (Inr [(EVENTS, PInt (int (length (kput k v (seg d S a u i g)))))], seg_upd d S a u i k v g)
     else (Inl RecordTooBig, d))"
  by (cases rule: pure_segE[OF assms, of g])
    (simp_all add: operate_put put_map_def seg_fits_def seg_upd_def Let_def dset_def)

context reliable_client begin

lemma wp_segment_size:
  assumes "pure_segs (view (srv w)) S a u i"
    and "\<And>s'. view s' = view (srv w) \<Longrightarrow> Q (Inr (int (length (seg (view (srv w)) S a u i g)))) (w\<lparr>srv := s'\<rparr>)"
  shows "wp (segment_size X (segment_pk S a u i g)) Q w"
  unfolding segment_size_def wp_bindE wp_or_not_found
proof (rule wp_operate, goal_cases)
  case (2 s')
  show ?case
    using assms(2)[of s'] 2
    by (cases rule: pure_segE[OF assms(1), of g])
      (auto simp: operate_db_def run_ops_def wp_simps dget_def dset_def)
qed simp

lemma wp_place_fits:
  assumes "pure_segs (view (srv w)) S a u i" "seg_fits fits (view (srv w)) S a u i k v c"
    and "\<And>s'. view s' = seg_upd (view (srv w)) S a u i k v c \<Longrightarrow>
      Q (Inr ()) (w\<lparr>srv := s', cur_cache := (cur_cache w)(session_key a u i \<mapsto> c)\<rparr>)"
  shows "wp (place_loop X S a u i (MapPut EVENTS k v) (Suc n) c) Q w"
  unfolding place_loop.simps Let_def wp_bindE[of "catchE _ _ _"] wp_catchE wp_thenE
  by (rule wp_operate_retrying) (use assms in \<open>simp_all add: operate_pure wp_simps\<close>)

lemma wp_place_full:
  assumes "pure_segs (view (srv w)) S a u i" "\<not> seg_fits fits (view (srv w)) S a u i k v c"
    "seg (view (srv w)) S a u i c \<noteq> []"
    and rec: "view (srv w) (session_pk S a u i) = Some sb" "map_of sb CUR_SEGMENT = Some (PInt cur)"
    "fits (dset CUR_SEGMENT (PInt (cur + 1)) sb)"
    and Q: "\<And>s'. view s' = (if c = cur then (view (srv w))(session_pk S a u i \<mapsto> dset CUR_SEGMENT (PInt (cur + 1)) sb)
        else view (srv w)) \<Longrightarrow>
      wp (place_loop X S a u i (MapPut EVENTS k v) n (if c = cur then cur + 1 else cur)) Q
        (w\<lparr>srv := s', cur_cache := (cur_cache w)(session_key a u i \<mapsto> if c = cur then cur + 1 else cur)\<rparr>)"
  shows "wp (place_loop X S a u i (MapPut EVENTS k v) (Suc n) c) Q w"
  unfolding place_loop.simps Let_def wp_bindE[of "catchE _ _ _"] wp_catchE wp_thenE
proof (rule wp_operate_retrying, goal_cases)
  case (2 s1)
  then have v1: "view s1 = view (srv w)" using assms(1,2) by (simp add: operate_pure)
  show ?case
    using assms(1,2)
    apply (simp add: operate_pure is_ae_def wp_bindE)
    apply (rule wp_segment_size)
     apply (simp add: v1)
    apply (simp add: v1 assms(3) wp_if wp_bindE)
    apply (rule wp_roll_over[where sb = sb and c = cur])
       apply (simp_all add: rec v1 wp_retE split del: if_split)
    using Q
    apply simp
    done
qed simp

end

lemma session_upd_segs [simp]:
  "seg (d(session_pk S a u i \<mapsto> r)) S a u i g = seg d S a u i g"
  "seg_fits fits (d(session_pk S a u i \<mapsto> r)) S a u i k v g = seg_fits fits d S a u i k v g"
  "pure_segs (d(session_pk S a u i \<mapsto> r)) S a u i = pure_segs d S a u i"
  by (simp_all add: seg_def seg_fits_def pure_segs_def)

text \<open>The segment an event goes to when the writer believes the current one to be \<open>c\<close> and it
  is \<open>cur\<close>, and the store afterwards.\<close>

definition place_target ::
  "(bins \<Rightarrow> bool) \<Rightarrow> db \<Rightarrow> schema \<Rightarrow> string \<Rightarrow> string \<Rightarrow> string \<Rightarrow> string \<Rightarrow> pyval \<Rightarrow> int \<Rightarrow> int \<Rightarrow> int" where
  "place_target fits d S a u i k v cur c =
     (if seg_fits fits d S a u i k v c then c
      else if c \<noteq> cur \<and> seg_fits fits d S a u i k v cur then cur
      else cur + 1)"

definition place_store ::
  "db \<Rightarrow> schema \<Rightarrow> string \<Rightarrow> string \<Rightarrow> string \<Rightarrow> string \<Rightarrow> pyval \<Rightarrow> bins \<Rightarrow> int \<Rightarrow> int \<Rightarrow> db" where
  "place_store d S a u i k v sb cur t =
     seg_upd (if t = cur + 1 then d(session_pk S a u i \<mapsto> dset CUR_SEGMENT (PInt (cur + 1)) sb) else d) S a u i k v t"

text \<open>With a cached index beyond the counter (the session was deleted and created again by
  another process) the first put succeeds: no such segment exists, and an empty one takes the
  event.\<close>

definition append_store ::
  "db \<Rightarrow> schema \<Rightarrow> string \<Rightarrow> string \<Rightarrow> string \<Rightarrow> string \<Rightarrow> pyval \<Rightarrow> bins \<Rightarrow> int \<Rightarrow> int \<Rightarrow> int \<Rightarrow> db" where
  "append_store d S a u i k v sb cur c t =
     (if c \<le> cur then place_store d S a u i k v sb cur t else seg_upd d S a u i k v c)"

text \<open>What a session looks like to its writers: a record with a counter that can be stepped, no
  segment beyond the current one, and segments that hold events only.\<close>

definition session_ready ::
  "(bins \<Rightarrow> bool) \<Rightarrow> db \<Rightarrow> schema \<Rightarrow> string \<Rightarrow> string \<Rightarrow> string \<Rightarrow> bins \<Rightarrow> int \<Rightarrow> bool" where
  "session_ready fits d S a u i sb cur \<longleftrightarrow>
     pure_segs d S a u i
     \<and> d (session_pk S a u i) = Some sb \<and> map_of sb CUR_SEGMENT = Some (PInt cur)
     \<and> (\<forall>n. fits (dset CUR_SEGMENT (PInt n) sb))
     \<and> (\<forall>g. cur < g \<longrightarrow> d (segment_pk S a u i g) = None)"

context reliable_client begin

lemma wp_place_current:
  assumes ready: "session_ready fits (view (srv w)) S a u i sb cur"
    and alone: "fits [(EVENTS, PDict [(k, v)])]"
    and Q: "\<And>s'. view s' = place_store (view (srv w)) S a u i k v sb cur
          (place_target fits (view (srv w)) S a u i k v cur cur) \<Longrightarrow>
        Q (Inr ()) (w\<lparr>srv := s', cur_cache := (cur_cache w)(session_key a u i \<mapsto>
          place_target fits (view (srv w)) S a u i k v cur cur)\<rparr>)"
  shows "wp (place_loop X S a u i (MapPut EVENTS k v) (Suc (Suc n)) cur) Q w"
proof (cases "seg_fits fits (view (srv w)) S a u i k v cur")
  case True
  then show ?thesis
    using ready Q by (intro wp_place_fits) (simp_all add: session_ready_def place_store_def place_target_def)
next
  case False
  let ?d = "(view (srv w))(session_pk S a u i \<mapsto> dset CUR_SEGMENT (PInt (cur + 1)) sb)"
  have full: "seg (view (srv w)) S a u i cur \<noteq> []" using False alone by (auto simp: seg_fits_def)
  have next1: "seg_fits fits ?d S a u i k v (cur + 1)"
    using ready alone by (simp add: seg_fits_def session_ready_def seg_def)
  show ?thesis
  proof (rule wp_place_full[OF _ False full])
    fix s' assume "view s' = (if cur = cur then ?d else view (srv w))"
    then have v: "view s' = ?d" by simp
    let ?w = "w\<lparr>srv := s', cur_cache := (cur_cache w)(session_key a u i \<mapsto> if cur = cur then cur + 1 else cur)\<rparr>"
    have "wp (place_loop X S a u i (MapPut EVENTS k v) (Suc n) (cur + 1)) Q ?w"
      using ready next1 v False Q
      by (intro wp_place_fits) (simp_all add: session_ready_def place_store_def place_target_def)
    then show "wp (place_loop X S a u i (MapPut EVENTS k v) (Suc n) (if cur = cur then cur + 1 else cur)) Q ?w"
      by simp
  qed (use ready in \<open>simp_all add: session_ready_def\<close>)
qed

lemma wp_place_any:
  assumes ready: "session_ready fits (view (srv w)) S a u i sb cur"
    and alone: "fits [(EVENTS, PDict [(k, v)])]"
    and Q: "\<And>s'. view s' = place_store (view (srv w)) S a u i k v sb cur
          (place_target fits (view (srv w)) S a u i k v cur c) \<Longrightarrow>
        Q (Inr ()) (w\<lparr>srv := s', cur_cache := (cur_cache w)(session_key a u i \<mapsto>
          place_target fits (view (srv w)) S a u i k v cur c)\<rparr>)"
    and c: "c \<le> cur"
  shows "wp (place_loop X S a u i (MapPut EVENTS k v) (Suc (Suc (Suc n))) c) Q w"
proof (cases "c = cur \<or> seg_fits fits (view (srv w)) S a u i k v c")
  case True
  then show ?thesis
  proof
    assume "c = cur"
    with wp_place_current[OF ready alone] Q show ?thesis by simp
  next
    assume f: "seg_fits fits (view (srv w)) S a u i k v c"
    then show ?thesis
      using ready Q c by (intro wp_place_fits) (simp_all add: session_ready_def place_store_def place_target_def)
  qed
next
  case False
  then have full: "seg (view (srv w)) S a u i c \<noteq> []" using alone by (auto simp: seg_fits_def)
  have nf: "\<not> seg_fits fits (view (srv w)) S a u i k v c" "c \<noteq> cur" using False by simp_all
  show ?thesis
  proof (rule wp_place_full[OF _ nf(1) full])
    fix s' assume "view s' = (if c = cur then (view (srv w))(session_pk S a u i \<mapsto>
      dset CUR_SEGMENT (PInt (cur + 1)) sb) else view (srv w))"
    then have v: "view s' = view (srv w)" using nf(2) by simp
    let ?w = "w\<lparr>srv := s', cur_cache := (cur_cache w)(session_key a u i \<mapsto> if c = cur then cur + 1 else cur)\<rparr>"
    have t: "place_target fits (view (srv w)) S a u i k v cur c = place_target fits (view (srv w)) S a u i k v cur cur"
      using nf by (simp add: place_target_def)
    have "wp (place_loop X S a u i (MapPut EVENTS k v) (Suc (Suc n)) cur) Q ?w"
      using Q ready alone by (intro wp_place_current) (simp_all add: v t)
    then show "wp (place_loop X S a u i (MapPut EVENTS k v) (Suc (Suc n)) (if c = cur then cur + 1 else cur)) Q ?w"
      using nf(2) by simp
  qed (use ready in \<open>simp_all add: session_ready_def\<close>)
qed

lemma wp_place_stale_or_not:
  assumes ready: "session_ready fits (view (srv w)) S a u i sb cur"
    and alone: "fits [(EVENTS, PDict [(k, v)])]"
    and t: "t = place_target fits (view (srv w)) S a u i k v cur c"
    and Q: "\<And>s'. view s' = append_store (view (srv w)) S a u i k v sb cur c t \<Longrightarrow>
        Q (Inr ()) (w\<lparr>srv := s', cur_cache := (cur_cache w)(session_key a u i \<mapsto> t)\<rparr>)"
  shows "wp (place_loop X S a u i (MapPut EVENTS k v) (Suc (Suc (Suc n))) c) Q w"
proof (cases "c \<le> cur")
  case True
  with Q show ?thesis
    by (intro wp_place_any[OF ready alone _ True]) (simp_all add: append_store_def t)
next
  case False
  then have "seg (view (srv w)) S a u i c = []" using ready by (simp add: session_ready_def seg_def)
  then have f: "seg_fits fits (view (srv w)) S a u i k v c" using alone by (simp add: seg_fits_def)
  then have "t = c" by (simp add: t place_target_def)
  with Q False f ready show ?thesis
    by (intro wp_place_fits) (simp_all add: append_store_def session_ready_def)
qed

lemma wp_place_event:
  assumes "session_ready fits (view (srv w)) S a u i sb cur" "fits [(EVENTS, PDict [(k, v)])]"
    "t = place_target fits (view (srv w)) S a u i k v cur c"
    "\<And>s'. view s' = append_store (view (srv w)) S a u i k v sb cur c t \<Longrightarrow>
        Q (Inr ()) (w\<lparr>srv := s', cur_cache := (cur_cache w)(session_key a u i \<mapsto> t)\<rparr>)"
  shows "wp (place_event X S a u i c (MapPut EVENTS k v) False) Q w"
proof -
  have "max_attempts = Suc (Suc (Suc 61))" by (simp add: max_attempts_def)
  with wp_place_stale_or_not[OF assms(1-3), where n = 61] assms(4) show ?thesis
    by (simp add: place_event_def wp_bindE wp_retE)
qed

end

context reliable_client begin

lemma wp_current_segment:
  assumes "view (srv w) (session_pk S a u i) = Some sb" "map_of sb CUR_SEGMENT = Some (PInt cur)"
    and Q: "\<And>s' c. view s' = view (srv w) \<Longrightarrow>
      c = (case cur_cache w (session_key a u i) of None \<Rightarrow> cur | Some c \<Rightarrow> c) \<Longrightarrow>
      Q (Inr c) (w\<lparr>srv := s', cur_cache := (cur_cache w)(session_key a u i \<mapsto> c)\<rparr>)"
  shows "wp (current_segment X S a u i) Q w"
proof (cases "cur_cache w (session_key a u i)")
  case None
  have "map_of (filter (\<lambda>(b, _). b \<in> set [CUR_SEGMENT]) sb) CUR_SEGMENT = Some (PInt cur)"
    using assms(2) by (induction sb) auto
  then show ?thesis
    unfolding current_segment_def Let_def wp_bindE wp_getsE None
    apply (simp add: wp_bindE wp_or_not_found)
    apply (rule wp_select)
    using Q None assms(1) by (simp add: wp_simps dget_def)
next
  case (Some c)
  have "w = w\<lparr>srv := srv w, cur_cache := (cur_cache w)(session_key a u i \<mapsto> c)\<rparr>"
    using Some by (simp add: fun_upd_idem)
  with Q[of "srv w" c] Some show ?thesis
    by (simp add: current_segment_def Let_def wp_bindE wp_getsE wp_retE)
qed

lemma wp_append_record:
  assumes ready: "session_ready fits (view (srv w)) S a u i sb cur"
    and alone: "fits [(EVENTS, PDict [(k, PDict v)])]"
    and c: "c = (case cur_cache w (session_key a u i) of None \<Rightarrow> cur | Some c \<Rightarrow> c)"
    and t: "t = place_target fits (view (srv w)) S a u i k (PDict v) cur c"
    and Q: "\<And>w'. view (srv w') = append_store (view (srv w)) S a u i k (PDict v) sb cur c t \<Longrightarrow>
      cur_cache w' = (cur_cache w)(session_key a u i \<mapsto> t) \<Longrightarrow> Q (Inr ()) w'"
  shows "wp (append_event_record X S a u i k v [] [] [] now) Q w"
  unfolding append_event_record_def wp_bindE
proof (rule wp_current_segment[where sb = sb and cur = cur])
  fix s' c' assume s': "view s' = view (srv w)"
    and "c' = (case cur_cache w (session_key a u i) of None \<Rightarrow> cur | Some c \<Rightarrow> c)"
  then have c': "c' = c" using c by simp
  let ?w = "w\<lparr>srv := s', cur_cache := (cur_cache w)(session_key a u i \<mapsto> c')\<rparr>"
  have "wp (place_event X S a u i c' (MapPut EVENTS k (PDict v)) False) Q ?w"
    using ready alone t by (intro wp_place_event) (auto simp: s' c' intro!: Q)
  then show "case Inr c' of Inl e \<Rightarrow> Q (Inl e) ?w
    | Inr cur \<Rightarrow> wp (let seg_op = MapPut EVENTS k (PDict v)
        in if \<not> ([] \<noteq> [] \<or> [] \<noteq> [] \<or> [] \<noteq> [])
        then place_event X S a u i cur seg_op False
        else bindE (batch_write_with_retry X (append_writes S a u i cur seg_op [] [] [] now))
           (\<lambda>results. case results of
              [] \<Rightarrow> raiseE (IndexError ''list index out of range'')
            | seg_result # others \<Rightarrow>
                (case first_nonzero others of
                   Some r \<Rightarrow> raiseE (batch_error X r)
                 | None \<Rightarrow>
                     if seg_result = 0 then cache_cur (session_key a u i) cur
                     else if seg_result = x_code X RecordTooBig then
                       place_event X S a u i cur seg_op True
                     else raiseE (batch_error X seg_result)))) Q ?w"
    by simp
qed (use ready in \<open>simp_all add: session_ready_def\<close>)

lemma wp_oversized:
  assumes ready: "session_ready fits (view (srv w)) S a u i sb cur"
    and big: "\<And>m. \<not> fits [(EVENTS, PDict (kput k v m))]"
    and Q: "\<And>w'. view (srv w') = (if seg (view (srv w)) S a u i cur = [] then view (srv w)
        else (view (srv w))(session_pk S a u i \<mapsto> dset CUR_SEGMENT (PInt (cur + 1)) sb)) \<Longrightarrow>
      Q (Inl (AE RecordTooBig)) w'"
  shows "wp (place_event X S a u i cur (MapPut EVENTS k v) False) Q w"
proof -
  have empty: "wp (place_loop X S a u i (MapPut EVENTS k v) (Suc n) c) Q w1"
    if "pure_segs (view (srv w1)) S a u i" "seg (view (srv w1)) S a u i c = []"
      "\<And>w'. view (srv w') = view (srv w1) \<Longrightarrow> Q (Inl (AE RecordTooBig)) w'"
    for n c and w1 :: "'a session_world"
    unfolding place_loop.simps Let_def wp_bindE[of "catchE _ _ _"] wp_catchE wp_thenE
  proof (rule wp_operate_retrying, goal_cases)
    case (2 s1)
    then have v1: "view s1 = view (srv w1)" using that(1) big by (simp add: operate_pure seg_fits_def)
    have "wp (segment_size X (segment_pk S a u i c)) (\<lambda>r w'. case r of Inl e \<Rightarrow> Q (Inl e) w'
        | Inr (n :: int) \<Rightarrow> n = 0 \<and> Q (Inl (AE RecordTooBig)) w') (w1\<lparr>srv := s1\<rparr>)"
      by (rule wp_segment_size) (use that v1 in simp_all)
    then show ?case
      using that(1) big
      by (simp add: operate_pure seg_fits_def is_ae_def wp_bindE)
        (erule wp_mono, auto simp: wp_simps split: sum.splits)
  qed simp
  have attempts: "max_attempts = Suc (Suc 62)" by (simp add: max_attempts_def)
  have "wp (place_loop X S a u i (MapPut EVENTS k v) (Suc (Suc 62)) cur) Q w"
  proof (cases "seg (view (srv w)) S a u i cur = []")
    case True
    then show ?thesis using ready Q by (intro empty) (simp_all add: session_ready_def)
  next
    case False
    have n: "\<not> seg_fits fits (view (srv w)) S a u i k v cur" using big by (simp add: seg_fits_def)
    show ?thesis
    proof (rule wp_place_full[OF _ n False])
      fix s' assume s': "view s' = (if cur = cur then (view (srv w))(session_pk S a u i \<mapsto>
        dset CUR_SEGMENT (PInt (cur + 1)) sb) else view (srv w))"
      show "wp (place_loop X S a u i (MapPut EVENTS k v) (Suc 62) (if cur = cur then cur + 1 else cur)) Q
        (w\<lparr>srv := s', cur_cache := (cur_cache w)(session_key a u i \<mapsto> if cur = cur then cur + 1 else cur)\<rparr>)"
        using ready Q False s' by (intro empty) (simp_all add: session_ready_def, simp add: seg_def)
    qed (use ready in \<open>simp_all add: session_ready_def\<close>)
  qed
  then show ?thesis by (simp add: place_event_def wp_bindE wp_retE attempts)
qed

end

section \<open>Properties\<close>

text \<open>
  C1. An append is all or nothing, and in one place. Whatever faults hit the calls (rejections,
  timeouts of writes that were applied, failures in the middle of a rollover), after an append
  of an event without state the session's segments are as before, except that one of them may
  hold the event; that one does, if the append returned. Nothing else in the store changed but
  the \<open>cur\<close> bin of the session record.
\<close>

theorem append_lands_once:
  assumes "aerospike_client X view fits" "store_ok (view (srv w))"
    "view (srv w) (session_pk S a u i) \<noteq> None"
    "append_event_record X S a u i k v [] [] [] now w = (r, w')"
    "d = view (srv w)" "d' = view (srv w')"
  shows "\<exists>g. (seg d' S a u i g = kput k (PDict v) (seg d S a u i g)
        \<or> r \<noteq> Inr () \<and> seg d' S a u i g = seg d S a u i g)
    \<and> (\<forall>h. h \<noteq> g \<longrightarrow> seg d' S a u i h = seg d S a u i h)
    \<and> (\<forall>p. p \<noteq> segment_pk S a u i g \<longrightarrow> p \<noteq> session_pk S a u i \<longrightarrow> d' p = d p)
    \<and> (\<exists>bs bs'. d (session_pk S a u i) = Some bs \<and> d' (session_pk S a u i) = Some bs'
       \<and> (\<forall>b. b \<noteq> CUR_SEGMENT \<longrightarrow> map_of bs' b = map_of bs b))"
proof -
  from wpD[OF aerospike_client.wp_append_faulty[OF assms(1,3)] assms(4)]
  consider "landed fits S a u i k (PDict v) d d'" | "only_cur S a u i d d'" "r \<noteq> Inr ()"
    unfolding assms(5,6) by blast
  then show ?thesis
  proof cases
    case 1
    have "store_ok d" using assms(2,5) by simp
    with 1 show ?thesis by (rule landed_segs) blast
  next
    case 2
    then have "\<exists>bs bs'. d (session_pk S a u i) = Some bs \<and> d' (session_pk S a u i) = Some bs'
       \<and> (\<forall>b. b \<noteq> CUR_SEGMENT \<longrightarrow> map_of bs' b = map_of bs b)" by (simp add: only_cur_def)
    then show ?thesis using 2(2) only_cur_seg[OF 2(1)] only_curD[OF 2(1)] by blast
  qed
qed

lemma demo_store_ok: "store_ok (map_of demo_records)"
  by (auto simp: each_record_def demo_records_def session_bins_def bins_ok_def split: if_splits)

theorem append_lands_once_witness:
  "\<exists>r w' g. append_event_record (scripted_ext 500) demo_schema ''app'' ''ann'' ''s1'' ''e1'' [] [] [] [] 7
      (demo_world demo_records [(Fine, []), (Applied TimeoutError, []), (Rejected DeviceOverload, [])]) = (r, w')
    \<and> (seg (mem_view (srv w')) demo_schema ''app'' ''ann'' ''s1'' g = [(''e1'', PDict [])]
       \<or> r \<noteq> Inr () \<and> seg (mem_view (srv w')) demo_schema ''app'' ''ann'' ''s1'' g = [])"
proof -
  let ?w = "demo_world demo_records [(Fine, []), (Applied TimeoutError, []), (Rejected DeviceOverload, [])]"
  obtain r w' where run: "append_event_record (scripted_ext 500) demo_schema ''app'' ''ann'' ''s1'' ''e1'' [] [] [] [] 7 ?w
     = (r, w')" by fastforce
  have d: "mem_view (srv ?w) (session_pk demo_schema ''app'' ''ann'' ''s1'') \<noteq> None"
    by (simp add: demo_records_def)
  have e: "seg (map_of demo_records) demo_schema ''app'' ''ann'' ''s1'' g = []" for g
    by (simp add: seg_def demo_records_def)
  from append_lands_once[OF scripted.aerospike_client_axioms _ d run refl refl] run demo_store_ok
  show ?thesis by (auto simp: e)
qed

text \<open>
  C2. Appends converge. On a reliable cluster an event without state that fits into an empty
  segment is always stored, whether the cached segment index is missing, right, behind the
  counter or beyond it; three attempts of the placement loop are enough, so the bound of 64 is
  never what ends it. With an index up to the counter the event goes to the cached segment if
  there is room, else to the current one, else to a new one with the counter stepped by one. With an
  index beyond the counter (left over after another process deleted and recreated the
  session) it goes to that segment, beyond the counter, and the counter stays. The result is
  the store with just that change, and the cache names the segment that was used.
\<close>

theorem append_converges:
  assumes "reliable_client X view fits"
    and "session_ready fits (view (srv w)) S a u i sb cur"
    and "fits [(EVENTS, PDict [(k, PDict v)])]"
    and "c = (case cur_cache w (session_key a u i) of None \<Rightarrow> cur | Some c \<Rightarrow> c)"
    and "t = place_target fits (view (srv w)) S a u i k (PDict v) cur c"
  shows "(\<exists>w'. append_event_record X S a u i k v [] [] [] now w = (Inr (), w')
      \<and> view (srv w') = (if c \<le> cur then place_store (view (srv w)) S a u i k (PDict v) sb cur t
          else seg_upd (view (srv w)) S a u i k (PDict v) c)
      \<and> cur_cache w' (session_key a u i) = Some t)
    \<and> (\<forall>n. \<exists>w'. place_loop X S a u i (MapPut EVENTS k (PDict v)) (n + 3) c w = (Inr (), w')
      \<and> view (srv w') = (if c \<le> cur then place_store (view (srv w)) S a u i k (PDict v) sb cur t
          else seg_upd (view (srv w)) S a u i k (PDict v) c)
      \<and> cur_cache w' (session_key a u i) = Some t)"
proof -
  let ?Q = "\<lambda>r w'. r = Inr () \<and> view (srv w') = append_store (view (srv w)) S a u i k (PDict v) sb cur c t
      \<and> cur_cache w' (session_key a u i) = Some t"
  have "wp (append_event_record X S a u i k v [] [] [] now) ?Q w"
    by (rule reliable_client.wp_append_record[OF assms]) simp_all
  moreover have "wp (place_loop X S a u i (MapPut EVENTS k (PDict v)) (n + 3) c) ?Q w" for n
    using reliable_client.wp_place_stale_or_not[OF assms(1-3,5), where Q = ?Q and n = n]
    by (simp add: numeral_3_eq_3)
  ultimately show ?thesis unfolding append_store_def[symmetric] by (blast dest: wp_exI)
qed

lemma demo_pure_segs: "pure_segs (map_of demo_records) demo_schema ''app'' ''ann'' ''s1''"
  by (simp add: pure_segs_def demo_records_def)

theorem append_converges_witness:
  "(\<exists>w'. append_event_record (calm_ext 500) demo_schema ''app'' ''ann'' ''s1'' ''e1'' [] [] [] [] 7
      (demo_world demo_records []) = (Inr (), w')
    \<and> seg (mem_view (srv w')) demo_schema ''app'' ''ann'' ''s1'' 0 = [(''e1'', PDict [])])
  \<and> (\<exists>w'. append_event_record (calm_ext 500) demo_schema ''app'' ''ann'' ''s1'' ''e1'' [] [] [] [] 7
      ((demo_world demo_records [])\<lparr>cur_cache := [session_key ''app'' ''ann'' ''s1'' \<mapsto> 3]\<rparr>) = (Inr (), w')
    \<and> seg (mem_view (srv w')) demo_schema ''app'' ''ann'' ''s1'' 3 = [(''e1'', PDict [])]
    \<and> mem_view (srv w') (session_pk demo_schema ''app'' ''ann'' ''s1'')
        = Some (session_bins ''app'' ''ann'' ''s1'' [] 5))"
proof -
  let ?sb = "session_bins ''app'' ''ann'' ''s1'' [] 5" and ?S = demo_schema
  have ready: "session_ready (size_limit 500) (mem_view (srv w)) ?S ''app'' ''ann'' ''s1'' ?sb 0"
    if "mem_view (srv w) = map_of demo_records" for w :: "mem_server session_world"
    using demo_pure_segs
    by (simp add: that session_ready_def demo_records_def session_bins_def size_limit_def dset_def)
  have e: "seg (map_of demo_records) ?S ''app'' ''ann'' ''s1'' g = []" for g
    by (simp add: seg_def demo_records_def)
  have alone: "size_limit 500 [(EVENTS, PDict [(''e1'', PDict [])])]" by (simp add: size_limit_def)
  have target: "place_target (size_limit 500) (map_of demo_records) ?S ''app'' ''ann'' ''s1'' ''e1'' (PDict []) 0 c = c" for c
    using alone by (simp add: place_target_def seg_fits_def e)
  have upd: "seg (seg_upd (map_of demo_records) ?S ''app'' ''ann'' ''s1'' ''e1'' (PDict []) g) ?S
      ''app'' ''ann'' ''s1'' g = [(''e1'', PDict [])]" for g
    by (simp add: seg_upd_def e) (simp add: seg_def events_of_def)
  have rec: "map_of demo_records (session_pk ?S ''app'' ''ann'' ''s1'') = Some ?sb"
    by (simp add: demo_records_def)
  let ?w = "demo_world demo_records []"
  let ?w3 = "?w\<lparr>cur_cache := [session_key ''app'' ''ann'' ''s1'' \<mapsto> 3]\<rparr>"
  have 1: "\<exists>w'. append_event_record (calm_ext 500) ?S ''app'' ''ann'' ''s1'' ''e1'' [] [] [] [] 7 ?w = (Inr (), w')
    \<and> mem_view (srv w') = seg_upd (map_of demo_records) ?S ''app'' ''ann'' ''s1'' ''e1'' (PDict []) 0"
    using append_converges[OF calm.reliable_client_axioms ready[of ?w] alone refl refl, of 7]
    by (auto simp: target place_store_def)
  have 2: "\<exists>w'. append_event_record (calm_ext 500) ?S ''app'' ''ann'' ''s1'' ''e1'' [] [] [] [] 7 ?w3 = (Inr (), w')
    \<and> mem_view (srv w') = seg_upd (map_of demo_records) ?S ''app'' ''ann'' ''s1'' ''e1'' (PDict []) 3"
  proof -
    obtain w3 where w3: "w3 = ?w3" by blast
    have d: "mem_view (srv w3) = map_of demo_records"
      and c: "cur_cache w3 (session_key ''app'' ''ann'' ''s1'') = Some 3" by (simp_all add: w3)
    show ?thesis
      unfolding w3[symmetric]
      using append_converges[OF calm.reliable_client_axioms ready[of w3] alone refl refl, of 7] d
      by (auto simp: target c)
  qed
  from 1 2 show ?thesis
    by (auto simp: upd) (simp add: seg_upd_def rec)
qed

text \<open>
  C13. An event too big for any segment is refused with \<open>RecordTooBig\<close> and is in no segment
  afterwards. The refusal is not free of effects: when the current segment was not empty, the
  counter has been stepped to a segment that does not exist.
\<close>

theorem oversized_event_refused:
  assumes "reliable_client X view fits"
    and "session_ready fits (view (srv w)) S a u i sb cur"
    and "\<And>m. \<not> fits [(EVENTS, PDict (kput k v m))]"
  shows "\<exists>w'. place_event X S a u i cur (MapPut EVENTS k v) False w = (Inl (AE RecordTooBig), w')
    \<and> view (srv w') = (if seg (view (srv w)) S a u i cur = [] then view (srv w)
        else (view (srv w))(session_pk S a u i \<mapsto> dset CUR_SEGMENT (PInt (cur + 1)) sb))"
proof -
  have "wp (place_event X S a u i cur (MapPut EVENTS k v) False)
    (\<lambda>r w'. r = Inl (AE RecordTooBig) \<and> view (srv w') = (if seg (view (srv w)) S a u i cur = [] then view (srv w)
        else (view (srv w))(session_pk S a u i \<mapsto> dset CUR_SEGMENT (PInt (cur + 1)) sb))) w"
    by (rule reliable_client.wp_oversized[OF assms]) simp
  from wp_exI[OF this] show ?thesis by blast
qed

theorem oversized_event_refused_witness:
  "\<exists>w'. place_event (calm_ext 40) demo_schema ''app'' ''ann'' ''s1'' 0
      (MapPut EVENTS ''e1'' (PStr (replicate 50 CHR ''x''))) False (demo_world demo_records [])
      = (Inl (AE RecordTooBig), w')
    \<and> mem_view (srv w') = map_of demo_records"
proof -
  let ?v = "PStr (replicate 50 CHR ''x'')" and ?sb = "session_bins ''app'' ''ann'' ''s1'' [] 5"
  have big: "\<not> size_limit 40 [(EVENTS, PDict (kput ''e1'' ?v m))]" for m
    using entry_size[of ?v "''e1''" m] by (simp add: size_limit_def)
  have ready: "session_ready (size_limit 40) (mem_view (srv (demo_world demo_records []))) demo_schema
      ''app'' ''ann'' ''s1'' ?sb 0"
    using demo_pure_segs
    by (simp add: session_ready_def demo_records_def session_bins_def size_limit_def dset_def)
  have "seg (map_of demo_records) demo_schema ''app'' ''ann'' ''s1'' 0 = []"
    by (simp add: seg_def demo_records_def)
  with oversized_event_refused[OF calm.reliable_client_axioms ready big] show ?thesis by simp
qed

end
