(* ===== verification/History.thy ===== *)
theory History
  imports Placement
begin

text \<open>
  What a reader sees. \<open>load_events\<close> walks the segments from the newest to the oldest and reads
  the tail it needs of each; here its result is computed from the segments' contents, and
  compared with the abstract history: all entries of all segments, oldest first.
\<close>

section \<open>One segment\<close>

definition seg_read :: "int option \<Rightarrow> rat option \<Rightarrow> dict \<Rightarrow> dict" where
  "seg_read want_last_n after_ts m =
     (case after_ts of
        Some t \<Rightarrow> key_range (cutoff_key t) KEY_RANGE_END m
      | None \<Rightarrow> (case want_last_n of
          Some n \<Rightarrow> index_range (- n) n m
        | None \<Rightarrow> index_range 0 (2 ^ 31 - 1) m))"

abbreviation entry_vals :: "dict \<Rightarrow> (pyval \<times> pyval) list" where
  "entry_vals m \<equiv> map (\<lambda>(k, v). (PStr k, v)) m"

lemma pairs_flatten: "pairs (flatten_kv m) = Inr (entry_vals m)"
  by (induction m rule: flatten_kv.induct) simp_all

lemma snd_entry_vals [simp]: "map snd (entry_vals m) = map snd m"
  by auto

lemma flatten_kv_Nil [simp]: "flatten_kv m = [] \<longleftrightarrow> m = []"
  by (cases m rule: flatten_kv.cases) simp_all

definition sane_read :: "int option \<Rightarrow> rat option \<Rightarrow> bool" where
  "sane_read n ts \<longleftrightarrow> ts \<noteq> None \<or> (case n of None \<Rightarrow> True | Some n \<Rightarrow> 0 \<le> n)"

lemma apply_read:
  assumes "sane_read n ts"
  shows "apply_op (read_op n ts) [(EVENTS, PDict m)] =
    Inr ([(EVENTS, PDict m)], Some (EVENTS, PList (flatten_kv (seg_read n ts m))))"
  using assms
  by (cases ts; cases n)
    (simp_all add: read_op_def seg_read_def sane_read_def cutoff_key_def ts_micros_def)

lemma read_op_reads [simp]: "\<not> modifies (read_op n ts)" "\<not> creates (read_op n ts)"
  by (simp_all add: read_op_def split: option.split)

lemma operate_read:
  assumes "pure_segs d S a u i" "sane_read n ts"
  shows "operate_db fits (segment_pk S a u i g) [read_op n ts] None d =
      (if d (segment_pk S a u i g) = None then Inl RecordNotFound
       else Inr [(EVENTS, PList (flatten_kv (seg_read n ts (seg d S a u i g))))], d)"
  by (cases rule: pure_segE[OF assms(1), of g])
    (simp_all add: operate_db_def run_ops_def apply_read[OF assms(2)] dset_def)

context reliable_client begin

lemma wp_read_segment:
  assumes "pure_segs (view (srv w)) S a u i" "sane_read n ts"
    and "\<And>s'. view s' = view (srv w) \<Longrightarrow>
      Q (Inr (entry_vals (seg_read n ts (seg (view (srv w)) S a u i g)))) (w\<lparr>srv := s'\<rparr>)"
  shows "wp (read_segment_entries X S a u i g n ts) Q w"
  unfolding read_segment_entries_def wp_bindE wp_or_not_found
proof (rule wp_operate, goal_cases)
  case (2 s')
  then have v: "view s' = view (srv w)" by (simp add: operate_read[OF assms(1,2)])
  have e: "seg (view (srv w)) S a u i g = [] \<Longrightarrow> seg_read n ts (seg (view (srv w)) S a u i g) = []"
    by (simp add: seg_read_def key_range_def index_range_def split: option.split)
  show ?case
    using assms(3)[OF v] e
    by (cases rule: pure_segE[OF assms(1), of g])
      (auto simp: operate_read[OF assms(1,2)] wp_simps dget_def py_or_def pairs_flatten)
qed simp

end

section \<open>The walk\<close>

fun walk :: "int option \<Rightarrow> rat option \<Rightarrow> dict list \<Rightarrow> pyval list \<Rightarrow> pyval list" where
  "walk num_recent after_ts [] collected = collected"
| "walk num_recent after_ts (m # ms) collected =
     (let need = (case num_recent of None \<Rightarrow> None | Some n \<Rightarrow> Some (n - int (length collected)));
          entries = seg_read need after_ts m
      in case collect num_recent collected (map snd (rev entries)) of (collected, done) \<Rightarrow>
           if done then collected
           else if after_ts \<noteq> None \<and> entries = [] then collected
           else walk num_recent after_ts ms collected)"

lemma collect_none: "collect None c evs = (c @ evs, False)"
  by (induction evs arbitrary: c) simp_all

lemma collect_some:
  "length c < n \<Longrightarrow> collect (Some (int n)) c evs = (c @ take (n - length c) evs, n \<le> length c + length evs)"
proof (induction evs arbitrary: c)
  case (Cons e evs)
  show ?case
  proof (cases "n \<le> Suc (length c)")
    case True
    with Cons.prems have "n = Suc (length c)" by simp
    then show ?thesis by simp
  next
    case False
    then have "n - length c = Suc (n - Suc (length c))" by simp
    with False Cons.IH[of "c @ [e]"] show ?thesis by simp
  qed
qed simp

context reliable_client begin

lemma wp_load_loop:
  assumes "pure_segs (view (srv w)) S a u i" "\<And>n. nr = Some n \<Longrightarrow> 0 \<le> n \<and> length c < nat n"
    and "\<And>s'. view s' = view (srv w) \<Longrightarrow>
      Q (Inr (walk nr ts (map (seg (view (srv w)) S a u i) gs) c)) (w\<lparr>srv := s'\<rparr>)"
  shows "wp (load_loop X S a u i nr ts gs c) Q w"
  using assms
proof (induction gs arbitrary: c w)
  case Nil
  then show ?case using Nil(3)[of "srv w"] by (simp add: wp_simps)
next
  case (Cons g gs)
  let ?d = "view (srv w)"
  let ?need = "case nr of None \<Rightarrow> None | Some n \<Rightarrow> Some (n - int (length c))"
  have sane: "sane_read ?need ts"
    using Cons.prems(2) by (auto simp: sane_read_def split: option.splits)
  show ?case
    unfolding load_loop.simps Let_def wp_bindE
  proof (rule wp_read_segment[OF Cons.prems(1) sane], goal_cases)
    case (1 s')
    let ?e = "seg_read ?need ts (seg ?d S a u i g)"
    obtain c' dn where col: "collect nr c (map snd (rev ?e)) = (c', dn)" by fastforce
    have rev_e: "map snd (rev (entry_vals ?e)) = map snd (rev ?e)"
      by (simp only: rev_map[symmetric] snd_entry_vals)
    have more: "0 \<le> n \<and> length c' < nat n" if "nr = Some n" "\<not> dn" for n
      using col that Cons.prems(2)[OF that(1)] collect_some[of c "nat n" "map snd (rev ?e)"] by auto
    have Q': "Q (Inr (walk nr ts (map (seg ?d S a u i) gs) c')) (w\<lparr>srv := s2\<rparr>)"
      if "\<not> dn" "\<not> (ts \<noteq> None \<and> ?e = [])" "view s2 = ?d" for s2
      using Cons.prems(3)[OF that(3)] that col by (auto simp: Let_def split: if_splits)
    have stop: "Q (Inr c') (w\<lparr>srv := s'\<rparr>)" if "dn \<or> ts \<noteq> None \<and> ?e = []"
      using Cons.prems(3)[OF 1] that col by (auto simp: Let_def)
    have "wp (load_loop X S a u i nr ts gs c') Q (w\<lparr>srv := s'\<rparr>)"
      if "\<not> dn" "\<not> (ts \<noteq> None \<and> ?e = [])"
      using Cons.prems(1) that more Q' 1 by (intro Cons.IH) auto
    with stop show ?case
      unfolding sum.case rev_e col prod.case by (auto simp: wp_retE)
  qed
qed

end

section \<open>The walk as a function of the history\<close>

definition cut :: "rat option \<Rightarrow> dict \<Rightarrow> dict" where
  "cut ts m = (case ts of None \<Rightarrow> m | Some t \<Rightarrow> key_range (cutoff_key t) KEY_RANGE_END m)"

definition walked :: "rat option \<Rightarrow> dict list \<Rightarrow> dict list" where
  "walked ts ms = (if ts = None then ms else takeWhile (\<lambda>m. m \<noteq> []) (map (cut ts) ms))"

definition newest_first :: "dict list \<Rightarrow> pyval list" where
  "newest_first ms = concat (map (\<lambda>m. map snd (rev m)) ms)"

definition limit :: "int option \<Rightarrow> nat \<Rightarrow> 'a list \<Rightarrow> 'a list" where
  "limit nr have xs = (case nr of None \<Rightarrow> xs | Some n \<Rightarrow> take (nat n - have) xs)"

lemma index_range_all: "length m < 2 ^ 31 \<Longrightarrow> index_range 0 (2 ^ 31 - 1) m = m"
  by (simp add: index_range_def)

lemma index_range_last: "0 < n \<Longrightarrow> index_range (- int n) (int n) m = drop (length m - n) m"
  by (simp add: index_range_def) (auto simp: nat_diff_distrib' max_def)

lemma rev_drop_take: "map f (rev (drop (length m - n) m)) = take n (map f (rev m))"
  by (cases "n \<le> length m") (simp_all add: rev_drop take_map)

text \<open>The entries the loop takes from one segment, seen from its end.\<close>

lemma collect_read:
  assumes "\<And>n. nr = Some n \<Longrightarrow> 0 \<le> n \<and> length c < nat n" "length m < 2 ^ 31"
  shows "collect nr c (map snd (rev (seg_read (case nr of None \<Rightarrow> None | Some n \<Rightarrow> Some (n - int (length c))) ts m)))
    = (c @ limit nr (length c) (map snd (rev (cut ts m))),
       (case nr of None \<Rightarrow> False | Some n \<Rightarrow> nat n \<le> length c + length (cut ts m)))"
proof (cases nr)
  case None
  then show ?thesis
    using index_range_all[OF assms(2)]
    by (simp add: collect_none limit_def seg_read_def cut_def split: option.split)
next
  case (Some n)
  with assms(1) obtain k where k: "n = int k" "length c < k" by (metis nat_0_le)
  then have need: "n - int (length c) = int (k - length c)" "0 < k - length c" by simp_all
  have rd: "take (k - length c) (map snd (rev (seg_read (Some (n - int (length c))) ts m)))
      = take (k - length c) (map snd (rev (cut ts m)))"
    using index_range_last[OF need(2), of m]
    by (cases ts) (simp_all add: seg_read_def cut_def need(1) rev_drop_take)
  have len: "k \<le> length c + length (seg_read (Some (n - int (length c))) ts m) \<longleftrightarrow> k \<le> length c + length (cut ts m)"
    using index_range_last[OF need(2), of m] k(2)
    by (cases ts) (auto simp: seg_read_def cut_def need(1))
  show ?thesis
    using collect_some[OF k(2)] rd len by (simp add: Some k(1) limit_def)
qed

lemma read_empty:
  assumes "ts \<noteq> None"
  shows "seg_read need ts m = cut ts m"
  using assms by (auto simp: seg_read_def cut_def)

lemma walk_history:
  assumes "\<And>n. nr = Some n \<Longrightarrow> 0 \<le> n \<and> length c < nat n" "\<forall>m \<in> set ms. length m < 2 ^ 31"
  shows "walk nr ts ms c = c @ limit nr (length c) (newest_first (walked ts ms))"
  using assms
proof (induction ms arbitrary: c)
  case Nil
  then show ?case by (simp add: walked_def newest_first_def limit_def split: option.split)
next
  case (Cons m ms)
  let ?x = "map snd (rev (cut ts m))"
  have c: "collect nr c (map snd (rev (seg_read (case nr of None \<Rightarrow> None | Some n \<Rightarrow> Some (n - int (length c))) ts m)))
    = (c @ limit nr (length c) ?x, (case nr of None \<Rightarrow> False | Some n \<Rightarrow> nat n \<le> length c + length (cut ts m)))"
    using Cons.prems by (intro collect_read) auto
  have w: "newest_first (walked ts (m # ms)) =
      (if ts \<noteq> None \<and> cut ts m = [] then [] else ?x @ newest_first (walked ts ms))"
    by (auto simp: walked_def newest_first_def cut_def)
  show ?case
  proof (cases "case nr of None \<Rightarrow> False | Some n \<Rightarrow> nat n \<le> length c + length (cut ts m)")
    case True
    then obtain n where n: "nr = Some n" "nat n \<le> length c + length (cut ts m)" by (auto split: option.splits)
    have "cut ts m \<noteq> []" using n Cons.prems(1)[OF n(1)] by auto
    then have "limit nr (length c) ?x = limit nr (length c) (newest_first (walked ts (m # ms)))"
      unfolding w using n by (simp add: limit_def)
    then show ?thesis by (simp add: c True)
  next
    case False
    then have all: "limit nr (length c) ?x = ?x" by (auto simp: limit_def split: option.splits)
    show ?thesis
    proof (cases "ts \<noteq> None \<and> cut ts m = []")
      case True
      then have "limit nr (length c) ?x = [] \<and> limit nr (length c) (newest_first (walked ts (m # ms))) = []"
        by (simp add: w limit_def split: option.split)
      with True False show ?thesis by (auto simp: c read_empty)
    next
      case F2: False
      have step: "walk nr ts (m # ms) c = walk nr ts ms (c @ ?x)"
        using False F2 by (auto simp: c all read_empty)
      also have "\<dots> = (c @ ?x) @ limit nr (length (c @ ?x)) (newest_first (walked ts ms))"
      proof (rule Cons.IH)
        show "0 \<le> n \<and> length (c @ ?x) < nat n" if "nr = Some n" for n
          using False that Cons.prems(1)[OF that] by simp
      qed (use Cons.prems in simp)
      also have "\<dots> = c @ limit nr (length c) (newest_first (walked ts (m # ms)))"
        using F2 False by (auto simp: w limit_def split: option.splits)
      finally show ?thesis .
    qed
  qed
qed

section \<open>The history\<close>

definition entries :: "db \<Rightarrow> schema \<Rightarrow> string \<Rightarrow> string \<Rightarrow> string \<Rightarrow> int \<Rightarrow> dict" where
  "entries d S a u i cur = concat (map (\<lambda>g. seg d S a u i (int g)) [0..<nat (cur + 1)])"

definition small_segs :: "db \<Rightarrow> schema \<Rightarrow> string \<Rightarrow> string \<Rightarrow> string \<Rightarrow> int \<Rightarrow> bool" where
  "small_segs d S a u i cur \<longleftrightarrow> (\<forall>g \<in> {0..cur}. length (seg d S a u i g) < 2 ^ 31)"

text \<open>The last \<open>n\<close> elements, or all.\<close>

definition recent :: "int option \<Rightarrow> 'a list \<Rightarrow> 'a list" where
  "recent nr xs = (case nr of None \<Rightarrow> xs | Some n \<Rightarrow> drop (length xs - nat n) xs)"

lemma newest_first_rev: "rev (newest_first ms) = map snd (concat (rev ms))"
  by (induction ms) (simp_all add: newest_first_def rev_map[symmetric])

lemma rev_limit: "rev (limit nr 0 xs) = recent nr (rev xs)"
  by (simp add: limit_def recent_def rev_take split: option.split)

lemma recent_map: "recent nr (map f xs) = map f (recent nr xs)"
  by (simp add: recent_def drop_map split: option.split)

lemma down_segs: "rev (map (seg d S a u i) (down_to_zero cur)) = map (\<lambda>g. seg d S a u i (int g)) [0..<nat (cur + 1)]"
  by (simp add: down_to_zero_def rev_map[symmetric] comp_def)

lemma set_down_to_zero: "set (down_to_zero cur) = {0..cur}"
proof -
  have "int ` {0..<nat (cur + 1)} = {0..cur}"
    by (auto simp: image_iff intro: exI[where x = "nat _"]) (metis nat_0_le atLeast0LessThan lessThan_iff zless_nat_eq_int_zless zle_add1_eq_le)
  then show ?thesis by (simp add: down_to_zero_def)
qed

definition config_recent :: "get_config option \<Rightarrow> int option" where
  "config_recent config = (case config of None \<Rightarrow> None | Some c \<Rightarrow> num_recent_events c)"

definition config_after :: "get_config option \<Rightarrow> rat option" where
  "config_after config = (case config of None \<Rightarrow> None | Some c \<Rightarrow> after_timestamp c)"

definition config_ok :: "get_config option \<Rightarrow> bool" where
  "config_ok config \<longleftrightarrow> (case config_recent config of None \<Rightarrow> True | Some n \<Rightarrow> 0 \<le> n)"

context reliable_client begin

lemma wp_load_events:
  assumes pure: "pure_segs (view (srv w)) S a u i" and ok: "config_ok config"
    and small: "small_segs (view (srv w)) S a u i cur"
    and Q: "\<And>s'. view s' = view (srv w) \<Longrightarrow>
      Q (emap (event_of_val A) (recent (config_recent config) (map snd (concat (rev
          (walked (config_after config) (map (seg (view (srv w)) S a u i) (down_to_zero cur)))))))) (w\<lparr>srv := s'\<rparr>)"
  shows "wp (load_events X A S a u i cur config) Q w"
proof (cases "config_recent config = Some 0")
  case True
  then show ?thesis
    using Q[of "srv w"]
    by (auto simp: load_events_def Let_def wp_simps recent_def config_recent_def split: option.splits)
next
  case False
  let ?nr = "config_recent config" and ?ts = "config_after config"
  let ?ms = "map (seg (view (srv w)) S a u i) (down_to_zero cur)"
  have nr: "0 \<le> n \<and> length ([] :: pyval list) < nat n" if "?nr = Some n" for n
    using that ok False by (auto simp: config_ok_def)
  have len: "\<forall>m \<in> set ?ms. length m < 2 ^ 31"
    using small by (auto simp: small_segs_def set_down_to_zero)
  have r: "rev (walk ?nr ?ts ?ms []) = recent ?nr (map snd (concat (rev (walked ?ts ?ms))))"
    using walk_history[of ?nr "[]" ?ms ?ts] nr len by (simp add: rev_limit newest_first_rev)
  have "load_events X A S a u i cur config = bindE (load_loop X S a u i ?nr ?ts (down_to_zero cur) [])
      (\<lambda>collected. liftE (emap (event_of_val A) (rev collected)))"
    using False by (simp add: load_events_def Let_def config_recent_def config_after_def)
  then show ?thesis
    unfolding wp_bindE
    by (simp only:) (rule wp_bindE[THEN iffD2], rule wp_load_loop[OF pure nr], use Q in \<open>simp_all add: wp_liftE r\<close>)
qed

end

text \<open>When the entries of all segments are in order and no segment is empty, stopping at the
  first segment without a hit misses nothing.\<close>

lemma cut_append [simp]: "cut ts (xs @ ys) = cut ts xs @ cut ts ys"
  by (simp add: cut_def key_range_def split: option.split)

lemma cut_empty:
  assumes "cut (Some t) m = []" "m \<noteq> []" "ordered (older @ m)" "\<forall>k \<in> fst ` set (older @ m). k < KEY_RANGE_END"
  shows "cut (Some t) older = []"
proof -
  obtain k v m' where m: "m = (k, v) # m'" using assms(2) by (cases m) auto
  have "\<not> cutoff_key t \<le> k" using assms(1,4) m by (auto simp: cut_def key_range_def filter_empty_conv)
  moreover have "k' < k" if "(k', v') \<in> set older" for k' v'
    using assms(3) that m by (auto simp: ordered_def sorted_wrt_append)
  ultimately have "\<not> cutoff_key t \<le> k'" if "(k', v') \<in> set older" for k' v'
    using that by (meson less_imp_le order_trans)
  then show ?thesis by (auto simp: cut_def key_range_def filter_empty_conv)
qed

lemma walked_complete:
  assumes "ordered (concat (rev ms))" "\<forall>m \<in> set ms. m \<noteq> []"
    "\<forall>k \<in> fst ` set (concat (rev ms)). k < KEY_RANGE_END"
  shows "concat (rev (walked ts ms)) = cut ts (concat (rev ms))"
proof (cases ts)
  case None
  then show ?thesis by (simp add: walked_def cut_def)
next
  case (Some t)
  show ?thesis
    using assms unfolding Some
  proof (induction ms)
    case Nil
    then show ?case by (simp add: walked_def cut_def key_range_def)
  next
    case (Cons m ms)
    have o: "ordered (concat (rev ms))"
      using Cons.prems(1) by (simp add: ordered_def sorted_wrt_append)
    show ?case
    proof (cases "cut (Some t) m = []")
      case True
      from cut_empty[OF True, of "concat (rev ms)"] Cons.prems True show ?thesis
        by (simp add: walked_def)
    next
      case False
      then have "concat (rev (walked (Some t) (m # ms))) = concat (rev (walked (Some t) ms)) @ cut (Some t) m"
        by (simp add: walked_def)
      with Cons o show ?thesis by simp
    qed
  qed
qed

end
