(* ===== verification/Session_Log.thy ===== *)
theory Session_Log
  imports History
begin

text \<open>
  The abstract specification of a session's events is a list. \<open>log_rep\<close> relates the list to
  the segments of a store, appending an event refines appending to the list, and reading with
  a configuration refines \<open>spec_read\<close> on the list.
\<close>

section \<open>The specification\<close>

definition event_key :: "event \<Rightarrow> string" where
  "event_key e = event_map_key (ev_id e) (ev_timestamp e)"

definition entry :: "adk \<Rightarrow> event \<Rightarrow> string \<times> pyval" where
  "entry A e = (event_key e, PDict (event_to_inline_dict A e))"

definition spec_read :: "get_config option \<Rightarrow> event list \<Rightarrow> event list" where
  "spec_read config evs = recent (config_recent config)
     (case config_after config of
        None \<Rightarrow> evs
      | Some t \<Rightarrow> filter (\<lambda>e. ts_micros t \<le> ts_micros (ev_timestamp e)) evs)"

definition log_rep ::
  "(bins \<Rightarrow> bool) \<Rightarrow> adk \<Rightarrow> db \<Rightarrow> schema \<Rightarrow> string \<Rightarrow> string \<Rightarrow> string \<Rightarrow> bins \<Rightarrow> int \<Rightarrow> event list \<Rightarrow> bool" where
  "log_rep fits A d S a u i sb cur evs \<longleftrightarrow>
     session_ready fits d S a u i sb cur \<and> 0 \<le> cur
     \<and> entries d S a u i cur = map (entry A) evs
     \<and> (if evs = [] then cur = 0 else \<forall>g \<in> {0..cur}. seg d S a u i g \<noteq> [])"

section \<open>Segments and entries\<close>

lemma entries_last: "0 \<le> cur \<Longrightarrow> entries d S a u i cur = entries d S a u i (cur - 1) @ seg d S a u i cur"
proof -
  assume "0 \<le> cur"
  then have "nat (cur + 1) = Suc (nat cur)" "nat (cur - 1 + 1) = nat cur" "int (nat cur) = cur" by simp_all
  then show ?thesis by (simp add: entries_def)
qed

lemma entries_cong: "(\<And>g. 0 \<le> g \<Longrightarrow> g \<le> cur \<Longrightarrow> seg d S a u i g = seg d' S a u i g) \<Longrightarrow>
  entries d S a u i cur = entries d' S a u i cur"
  unfolding entries_def by (rule arg_cong[where f = concat]) (auto simp: nat_less_iff)

lemma seg_upd_seg:
  "seg (seg_upd d S a u i k v g) S a u i h = (if h = g then kput k v (seg d S a u i g) else seg d S a u i h)"
  by (simp add: seg_upd_def seg_def events_of_def)

lemma seg_upd_session: "seg_upd d S a u i k v g (session_pk S a u i) = d (session_pk S a u i)"
  by (simp add: seg_upd_def)

lemma pure_seg_upd:
  assumes "pure_segs d S a u i"
  shows "pure_segs (seg_upd d S a u i k v g) S a u i"
proof -
  have "ordered (seg d S a u i g)" by (cases rule: pure_segE[OF assms, of g]) simp_all
  then have "ordered (kput k v (seg d S a u i g))" by (rule ordered_kput)
  with assms show ?thesis by (auto simp: pure_segs_def seg_upd_def split: if_splits)
qed

lemma seg_in_entries:
  assumes "p \<in> set (seg d S a u i g)" "0 \<le> g" "g \<le> cur"
  shows "p \<in> set (entries d S a u i cur)"
proof -
  have "nat g \<in> set [0..<nat (cur + 1)]" "int (nat g) = g" using assms(2,3) by auto
  with assms(1) show ?thesis unfolding entries_def by (auto intro!: bexI[of _ "nat g"])
qed

section \<open>Appending refines appending to the list\<close>

definition next_rec :: "bins \<Rightarrow> int \<Rightarrow> int \<Rightarrow> bins" where
  "next_rec sb cur t = (if t = cur + 1 then dset CUR_SEGMENT (PInt (cur + 1)) sb else sb)"

lemma place_store_upd: "place_store d S a u i k v sb cur t =
  seg_upd (if t = cur + 1 then d(session_pk S a u i \<mapsto> next_rec sb cur t) else d) S a u i k v t"
  by (simp add: place_store_def next_rec_def)

lemma place_store_seg: "seg (place_store d S a u i k v sb cur t) S a u i h =
  (if h = t then kput k v (seg d S a u i t) else seg d S a u i h)"
  by (simp add: place_store_def seg_upd_seg)

lemma place_store_ready:
  assumes "session_ready fits d S a u i sb cur" "t = cur \<or> t = cur + 1"
  shows "session_ready fits (place_store d S a u i k v sb cur t) S a u i (next_rec sb cur t) t"
proof -
  have p: "pure_segs (place_store d S a u i k v sb cur t) S a u i"
    using assms(1) by (simp add: place_store_def pure_seg_upd session_ready_def)
  have beyond: "place_store d S a u i k v sb cur t (segment_pk S a u i g) = None" if "t < g" for g
    using assms that by (auto simp: place_store_def seg_upd_def session_ready_def)
  show ?thesis
    using assms p beyond
    by (auto simp: session_ready_def next_rec_def place_store_def seg_upd_session)
qed

lemma log_append:
  assumes rep: "log_rep fits A d S a u i sb cur evs"
    and later: "\<forall>e' \<in> set evs. event_key e' < event_key e"
    and alone: "fits [(EVENTS, PDict [entry A e])]"
    and t: "t = place_target fits d S a u i (event_key e) (snd (entry A e)) cur cur"
  shows "log_rep fits A (place_store d S a u i (event_key e) (snd (entry A e)) sb cur t) S a u i
    (next_rec sb cur t) t (evs @ [e])"
proof -
  let ?k = "event_key e" and ?v = "snd (entry A e)"
  let ?d = "place_store d S a u i ?k ?v sb cur t"
  have ready: "session_ready fits d S a u i sb cur" and cur: "0 \<le> cur"
    and ent: "entries d S a u i cur = map (entry A) evs" using rep by (simp_all add: log_rep_def)
  have t': "t = cur \<or> t = cur + 1" using t by (auto simp: place_target_def)
  have entry: "(?k, ?v) = entry A e" by (simp add: entry_def)
  have keys: "\<forall>k' \<in> fst ` set (seg d S a u i g). k' < ?k" if "0 \<le> g" "g \<le> cur" for g
    using seg_in_entries[OF _ that] later by (force simp: ent entry_def)
  have next_empty: "seg d S a u i (cur + 1) = []" using ready by (simp add: session_ready_def seg_def)
  have new: "entries ?d S a u i t = map (entry A) (evs @ [e]) \<and> (\<forall>g \<in> {0..t}. seg ?d S a u i g \<noteq> [])"
  proof (cases "t = cur")
    case True
    have "entries ?d S a u i (cur - 1) = entries d S a u i (cur - 1)"
      by (rule entries_cong) (simp add: place_store_seg True)
    moreover have "seg ?d S a u i cur = seg d S a u i cur @ [(?k, ?v)]"
      using keys[OF cur] by (simp add: place_store_seg True kput_last)
    ultimately have "entries ?d S a u i t = map (entry A) (evs @ [e])"
      using entries_last[OF cur, of ?d] entries_last[OF cur, of d] ent entry True by simp
    moreover have "seg ?d S a u i g \<noteq> []" if "g \<in> {0..t}" for g
      using rep that True by (auto simp: place_store_seg log_rep_def split: if_splits)
    ultimately show ?thesis by blast
  next
    case False
    with t' have tn: "t = cur + 1" by simp
    have full: "seg d S a u i cur \<noteq> []"
      using False t alone by (auto simp: place_target_def seg_fits_def entry split: if_splits)
    then have ne: "evs \<noteq> []" using entries_last[OF cur, of d S a u i] ent by auto
    have "entries ?d S a u i cur = entries d S a u i cur"
      by (rule entries_cong) (simp add: place_store_seg tn)
    moreover have "seg ?d S a u i (cur + 1) = [(?k, ?v)]" by (simp add: place_store_seg tn next_empty)
    ultimately have "entries ?d S a u i t = map (entry A) (evs @ [e])"
      using entries_last[of "cur + 1" ?d] cur ent entry tn by simp
    moreover have "seg ?d S a u i g \<noteq> []" if "g \<in> {0..t}" for g
      using rep ne that by (auto simp: tn place_store_seg log_rep_def)
    ultimately show ?thesis by blast
  qed
  show ?thesis
    unfolding log_rep_def using place_store_ready[OF ready t'] new t' cur by auto
qed

definition cache_fresh :: "(string \<Rightarrow> int option) \<Rightarrow> string \<Rightarrow> int \<Rightarrow> bool" where
  "cache_fresh c k cur \<longleftrightarrow> c k = None \<or> c k = Some cur"

end
