(* ===== verification/Session_Lifecycle.thy ===== *)
theory Session_Lifecycle
  imports Session_Log
begin

text \<open>
  Creating and reading a session on a reliable cluster: what a created session looks like to a
  reader, and what the two filters of a read return.
\<close>

section \<open>Batch reads\<close>

context reliable_client begin

lemma wp_batch_read_rows:
  assumes "ks \<noteq> []"
    and Q: "\<And>s' rows. view s' = view (srv w) \<Longrightarrow>
      (\<And>k. k \<in> set ks \<Longrightarrow> row rows k = Inr (view (srv w) k)) \<Longrightarrow> Q (Inr rows) (w\<lparr>srv := s'\<rparr>)"
  shows "wp (batch_read X ks) Q w"
  by (rule wp_batch_read_map[OF assms(1)], rule Q) (simp_all add: row_def)

end

section \<open>Reading a session\<close>

abbreviation state_in :: "db \<Rightarrow> pk \<Rightarrow> pyval" where
  "state_in d k \<equiv> state_of (d k)"

definition merged_state :: "db \<Rightarrow> schema \<Rightarrow> string \<Rightarrow> string \<Rightarrow> string \<Rightarrow> dict exc" where
  "merged_state d S a u i = merge_state (state_in d (app_state_pk S a)) (state_in d (user_state_pk S a u))
     (state_in d (session_pk S a u i))"

text \<open>In a store of the right shape the state of a record is a dictionary.\<close>

lemma state_of_ok:
  assumes "store_ok d"
  obtains s where "state_of (d k) = PDict s" "keys_distinct s"
proof (cases "d k")
  case None
  then show ?thesis using that[of "[]"] by (simp add: state_of_def py_or_def dget_def)
next
  case (Some bs)
  then have "bins_ok bs" using assms by (rule each_recordD[rotated])
  then consider "map_of bs STATE = None" | s where "map_of bs STATE = Some (PDict s)" "keys_distinct s"
    using bins_okD[of bs STATE] by (cases "map_of bs STATE") (auto split: pyval.splits)
  then show ?thesis
  proof cases
    case 1
    then show ?thesis using that[of "[]"] Some by (simp add: state_of_def py_or_def dget_def)
  next
    case (2 s)
    then show ?thesis using that[of s] Some by (cases "s = []") (simp_all add: state_of_def py_or_def dget_def)
  qed
qed

lemma merged_state_ok:
  assumes "store_ok d"
  obtains m where "merged_state d S a u i = Inr m" "keys_distinct m"
proof -
  obtain x y z where "state_of (d (app_state_pk S a)) = PDict x" "state_of (d (user_state_pk S a u)) = PDict y"
    "state_of (d (session_pk S a u i)) = PDict z" by (metis state_of_ok[OF assms])
  then show ?thesis
    using that merge_state_distinct[of "PDict x" "PDict y" "PDict z"]
    by (simp add: merged_state_def merge_state_dicts)
qed

context reliable_client begin

lemma wp_get_missing:
  assumes "view (srv w) (session_pk S a u i) = None"
    and "\<And>s'. view s' = view (srv w) \<Longrightarrow> Q (Inr None) (w\<lparr>srv := s'\<rparr>)"
  shows "wp (get_session X A S a u i config) Q w"
  unfolding get_session_def Let_def wp_bindE
  by (rule wp_batch_read_rows) (use assms in \<open>simp_all add: wp_simps\<close>)

lemma wp_get_session:
  assumes rec: "view (srv w) (session_pk S a u i) = Some rec" "map_of rec CUR_SEGMENT = Some (PInt cur)"
    and merged: "merged_state (view (srv w)) S a u i = Inr merged"
    and load: "\<And>s'. view s' = view (srv w) \<Longrightarrow>
      wp (load_events X A S a u i cur config) (\<lambda>r w'. case r of
          Inl e \<Rightarrow> Q (Inl e) w'
        | Inr events \<Rightarrow> Q (Inr (Some \<lparr>s_id = i, s_app_name = a, s_user_id = u, s_state = merged,
            s_events = events, s_last_update_time =
              (if events \<noteq> [] then py_or (PFloat (ev_timestamp (last events))) (dget rec LAST_UPDATE (PFloat 0))
               else dget rec LAST_UPDATE (PFloat 0))\<rparr>)) w')
        (w\<lparr>srv := s', cur_cache := (cur_cache w)(session_key a u i \<mapsto> cur)\<rparr>)"
  shows "wp (get_session X A S a u i config) Q w"
  unfolding get_session_def Let_def wp_bindE[of "batch_read _ _"]
proof (rule wp_batch_read_rows)
  fix s' rows
  assume s': "view s' = view (srv w)"
    and "\<And>k. k \<in> set [session_pk S a u i, app_state_pk S a, user_state_pk S a u] \<Longrightarrow>
      row rows k = Inr (view (srv w) k)"
  then have rows: "row rows (session_pk S a u i) = Inr (Some rec)"
    "row rows (app_state_pk S a) = Inr (view (srv w) (app_state_pk S a))"
    "row rows (user_state_pk S a u) = Inr (view (srv w) (user_state_pk S a u))" by (simp_all add: rec)
  have m: "merge_state (state_in (view (srv w)) (app_state_pk S a)) (state_in (view (srv w)) (user_state_pk S a u))
     (state_of (Some rec)) = Inr merged" using merged rec by (simp add: merged_state_def)
  from load[OF s']
  show "case Inr rows of Inl e \<Rightarrow> Q (Inl e) (w\<lparr>srv := s'\<rparr>) | Inr records \<Rightarrow>
      wp (bindE (liftE (row records (session_pk S a u i))) (\<lambda>session_rec.
        case session_rec of
          None \<Rightarrow> retE None
        | Some rec \<Rightarrow>
            bindE (liftE (ebind (row records (app_state_pk S a)) (\<lambda>aa. ebind (row records (user_state_pk S a u)) (\<lambda>ua.
                     merge_state (state_of aa) (state_of ua) (state_of (Some rec)))))) (\<lambda>merged.
            bindE (liftE (py_int (dget rec CUR_SEGMENT (PInt 0)))) (\<lambda>cur.
            thenE (cache_cur (session_key a u i) cur)
            (bindE (load_events X A S a u i cur config) (\<lambda>events.
              retE (Some \<lparr>s_id = i, s_app_name = a, s_user_id = u,
                             s_state = merged, s_events = events, s_last_update_time =
                  (if events \<noteq> [] then py_or (PFloat (ev_timestamp (last events))) (dget rec LAST_UPDATE (PFloat 0))
                                 else dget rec LAST_UPDATE (PFloat 0))\<rparr>))))))) Q (w\<lparr>srv := s'\<rparr>)"
    by (simp add: wp_bindE wp_liftE wp_thenE wp_cache_cur rows m rec dget_def[of _ CUR_SEGMENT] split del: if_split)
      (erule wp_mono, auto simp: wp_retE split: sum.splits)
qed simp_all

end

section \<open>Reading a log\<close>

lemma seg_le_entries:
  assumes "0 \<le> g" "g \<le> cur"
  shows "length (seg d S a u i g) \<le> length (entries d S a u i cur)"
proof -
  have "nat g \<in> set [0..<nat (cur + 1)]" "int (nat g) = g" using assms by auto
  then have "length (seg d S a u i g) \<in> set (map (\<lambda>g. length (seg d S a u i (int g))) [0..<nat (cur + 1)])"
    by (metis (no_types, lifting) image_eqI list.set_map)
  from member_le_sum_list[OF this] show ?thesis by (simp add: entries_def length_concat comp_def)
qed

lemma cut_log:
  assumes "\<And>t. ts = Some t \<Longrightarrow> ts_ok t" "\<forall>e \<in> set evs. ts_ok (ev_timestamp e)"
  shows "cut ts (map (entry A) evs) = map (entry A)
    (case ts of None \<Rightarrow> evs | Some t \<Rightarrow> filter (\<lambda>e. ts_micros t \<le> ts_micros (ev_timestamp e)) evs)"
proof (cases ts)
  case None
  then show ?thesis by (simp add: cut_def)
next
  case (Some t)
  have "cutoff_key t \<le> event_key e \<and> event_key e < KEY_RANGE_END \<longleftrightarrow> ts_micros t \<le> ts_micros (ev_timestamp e)"
    if "e \<in> set evs" for e
    using assms Some that by (simp add: event_key_def KEY_RANGE_END_def cutoff_le_key key_less_end)
  then show ?thesis
    by (auto simp: Some cut_def key_range_def filter_map comp_def entry_def cong: filter_cong)
qed

lemma log_ordered: "sorted_wrt (<) (map event_key evs) \<Longrightarrow> ordered (map (entry A) evs)"
  by (simp add: ordered_def entry_def comp_def)

lemma log_walked:
  assumes "log_rep fits A d S a u i sb cur evs" "sorted_wrt (<) (map event_key evs)"
  shows "concat (rev (walked ts (map (seg d S a u i) (down_to_zero cur)))) = cut ts (map (entry A) evs)"
proof -
  let ?ms = "map (seg d S a u i) (down_to_zero cur)"
  have ent: "concat (rev ?ms) = map (entry A) evs"
    using assms(1) by (simp add: down_segs entries_def[symmetric] log_rep_def)
  show ?thesis
  proof (cases "evs = []")
    case True
    then have "\<forall>m \<in> set ?ms. m = []" using ent by auto
    moreover have "cut ts m = [] \<or> ts = None" if "m = []" for m
      using that by (auto simp: cut_def key_range_def split: option.splits)
    ultimately have "walked ts ?ms = [] \<or> ts = None"
      by (cases ?ms) (auto simp: walked_def)
    then show ?thesis using True ent by (auto simp: walked_def cut_def key_range_def split: option.splits)
  next
    case False
    have "\<forall>m \<in> set ?ms. m \<noteq> []" using assms(1) False by (auto simp: log_rep_def set_down_to_zero)
    moreover have "\<forall>k \<in> fst ` set (concat (rev ?ms)). k < KEY_RANGE_END"
      by (auto simp: ent entry_def event_key_def KEY_RANGE_END_def key_less_end)
    ultimately show ?thesis
      using walked_complete[of ?ms ts] log_ordered[OF assms(2), of A] by (simp only: ent)
  qed
qed

lemma emap_entries: "lossless A \<Longrightarrow> emap (event_of_val A) (map (\<lambda>e. snd (entry A e)) evs) = Inr evs"
  using emap_ok[of evs "event_of_val A" "\<lambda>e. snd (entry A e)" id]
  by (simp add: event_of_val_def entry_def stored_payload lossless_def)

context reliable_client begin

lemma wp_load_log:
  assumes "log_rep fits A (view (srv w)) S a u i sb cur evs" "sorted_wrt (<) (map event_key evs)"
    and "lossless A" "config_ok config" "\<And>t. config_after config = Some t \<Longrightarrow> ts_ok t"
    and "\<forall>e \<in> set evs. ts_ok (ev_timestamp e)" "length evs < 2 ^ 31"
    and Q: "\<And>s'. view s' = view (srv w) \<Longrightarrow> Q (Inr (spec_read config evs)) (w\<lparr>srv := s'\<rparr>)"
  shows "wp (load_events X A S a u i cur config) Q w"
proof (rule wp_load_events[OF _ assms(4)])
  show "pure_segs (view (srv w)) S a u i" using assms(1) by (simp add: log_rep_def session_ready_def)
  have "length (entries (view (srv w)) S a u i cur) = length evs" using assms(1) by (simp add: log_rep_def)
  then have "length (seg (view (srv w)) S a u i g) < 2 ^ 31" if "0 \<le> g" "g \<le> cur" for g
    using assms(7) seg_le_entries[OF that, of "view (srv w)" S a u i] by linarith
  then show "small_segs (view (srv w)) S a u i cur" by (simp add: small_segs_def)
  fix s' assume s': "view s' = view (srv w)"
  let ?evs = "case config_after config of None \<Rightarrow> evs
    | Some t \<Rightarrow> filter (\<lambda>e. ts_micros t \<le> ts_micros (ev_timestamp e)) evs"
  have "emap (event_of_val A) (recent (config_recent config) (map snd (concat (rev (walked (config_after config)
      (map (seg (view (srv w)) S a u i) (down_to_zero cur)))))))
    = emap (event_of_val A) (map (\<lambda>e. snd (entry A e)) (recent (config_recent config) ?evs))"
    by (simp add: log_walked[OF assms(1,2)] cut_log[OF assms(5,6)] recent_map comp_def)
  also have "\<dots> = Inr (spec_read config evs)" by (simp add: emap_entries[OF assms(3)] spec_read_def)
  finally show "Q (emap (event_of_val A) (recent (config_recent config) (map snd (concat (rev (walked (config_after config)
      (map (seg (view (srv w)) S a u i) (down_to_zero cur)))))))) (w\<lparr>srv := s'\<rparr>)"
    using Q[OF s'] by simp
qed

end

section \<open>Creating a session\<close>

definition state_dict :: "db \<Rightarrow> pk \<Rightarrow> dict" where
  "state_dict d k = (case state_of (d k) of PDict s \<Rightarrow> s | _ \<Rightarrow> [])"

definition state_upd :: "db \<Rightarrow> pk \<Rightarrow> dict \<Rightarrow> db" where
  "state_upd d k delta =
     (if delta = [] then d else d(k \<mapsto> dset STATE (PDict (dupdate (state_dict d k) delta)) (rec_at d k)))"

lemma state_dict_ok: "store_ok d \<Longrightarrow> state_of (d k) = PDict (state_dict d k) \<and> keys_distinct (state_dict d k)"
proof -
  assume "store_ok d"
  then obtain s where "state_of (d k) = PDict s" "keys_distinct s" by (rule state_of_ok)
  then show ?thesis by (simp add: state_dict_def)
qed

lemma state_of_rec: "state_of (d k) = py_or (pget (rec_at d k) STATE) (PDict [])"
  by (simp add: state_of_def rec_at_def)

lemma rec_at_ok: "store_ok d \<Longrightarrow> bins_ok (rec_at d k)"
  unfolding rec_at_def by (cases "d k") (simp_all add: each_recordD)

lemma state_bin:
  assumes "store_ok d"
  shows "map_of (rec_at d k) STATE = None \<and> state_dict d k = []
    \<or> map_of (rec_at d k) STATE = Some (PDict (state_dict d k))"
proof (cases "map_of (rec_at d k) STATE")
  case None
  then show ?thesis by (simp add: state_dict_def state_of_rec dget_def py_or_def)
next
  case (Some v)
  then obtain s where "v = PDict s"
    using bins_okD[OF rec_at_ok[OF assms] Some] by (cases v) simp_all
  with Some show ?thesis by (cases "s = []") (simp_all add: state_dict_def state_of_rec dget_def py_or_def)
qed

lemma operate_state:
  assumes "store_ok d" "delta \<noteq> []"
  shows "(\<exists>bs. \<not> fits bs) \<and> operate_db fits k [MapPutItems STATE delta] None d = (Inl RecordTooBig, d)
    \<or> (\<exists>out. operate_db fits k [MapPutItems STATE delta] None d = (Inr out, state_upd d k delta))"
proof -
  let ?r = "dset STATE (PDict (dupdate (state_dict d k) delta)) (rec_at d k)"
  have "\<exists>out. apply_ops [MapPutItems STATE delta] (rec_at d k) [] = Inr (?r, out)"
    using state_bin[OF assms(1), of k] by auto
  then show ?thesis using assms(2) by (auto simp: operate_creating run_ops_def state_upd_def)
qed

lemma state_upd_at:
  assumes "store_ok d" "keys_distinct delta"
  shows "map_of (state_dict (state_upd d k delta) k') =
    (if k' = k then map_of (state_dict d k) ++ map_of delta else map_of (state_dict d k'))"
proof (cases "delta = []")
  case False
  have "state_of (Some (dset STATE (PDict (dupdate (state_dict d k) delta)) (rec_at d k)))
      = PDict (dupdate (state_dict d k) delta)"
    by (auto simp: state_of_def py_or_def dget_def)
  with False show ?thesis by (simp add: state_upd_def state_dict_def map_of_rev_distinct[OF assms(2)])
qed (auto simp: state_upd_def)

lemma state_upd_other: "k' \<noteq> k \<Longrightarrow> state_upd d k delta k' = d k'"
  by (simp add: state_upd_def)

lemma session_bins_put [simp]: "put_bins [] (session_bins a u i st now) = session_bins a u i st now"
  by (simp add: session_bins_def dset_def)

lemma session_bins_state [simp]: "state_of (Some (session_bins a u i st now)) = PDict st"
  by (simp add: state_of_def session_bins_def dget_def py_or_def)

context reliable_client begin

lemma wp_merge_scoped:
  assumes "store_ok (view (srv w))"
    and "\<And>s' bs. view s' = view (srv w) \<Longrightarrow> \<not> fits bs \<Longrightarrow> Q (Inl (AE RecordTooBig)) (w\<lparr>srv := s'\<rparr>)"
    and "\<And>s'. view s' = state_upd (view (srv w)) (namespace S, st, k) delta \<Longrightarrow> Q (Inr ()) (w\<lparr>srv := s'\<rparr>)"
  shows "wp (whenE (delta \<noteq> []) (merge_scoped_state X S st k delta)) Q w"
proof (cases "delta = []")
  case True
  then show ?thesis using assms(3)[of "srv w"] by (simp add: wp_simps state_upd_def)
next
  case False
  have "wp (client_operate X (namespace S, st, k) [MapPutItems STATE delta] None)
    (\<lambda>r w'. case r of Inl e \<Rightarrow> Q (Inl e) w' | Inr _ \<Rightarrow> Q (Inr ()) w') w"
    by (rule wp_operate) (use operate_state[OF assms(1) False, of fits "(namespace S, st, k)"] assms(2,3) in auto)
  with False show ?thesis unfolding merge_scoped_state_def wp_whenE wp_bindE wp_retE by simp
qed

lemma wp_put_retrying:
  assumes "\<And>s'. view s' = snd (put_db fits pk bs c (view (srv w))) \<Longrightarrow>
    Q (map_sum AE (\<lambda>_. ()) (fst (put_db fits pk bs c (view (srv w))))) (w\<lparr>srv := s'\<rparr>)"
  shows "wp (write_retrying_overload X (client_put X pk bs c) rt) Q w"
proof (rule wp_retry_calm, rule wp_put, intro conjI allI impI)
  fix s' e
  assume "map_sum AE (\<lambda>_. ()) (fst (put_db fits pk bs c (view (srv w)))) = Inl (AE e)"
  then show "e \<notin> {DeviceOverload, MaxErrorRateExceeded, TimeoutError}"
    by (auto simp: put_db_def Let_def split: if_splits)
qed (rule assms)

lemma wp_merge_for_read:
  assumes "\<And>s'. view s' = view (srv w) \<Longrightarrow>
    Q (merge_state (state_in (view (srv w)) (app_state_pk S a)) (state_in (view (srv w)) (user_state_pk S a u)) ss)
      (w\<lparr>srv := s'\<rparr>)"
  shows "wp (merge_state_for_read X S a u ss) Q w"
  unfolding merge_state_for_read_def Let_def wp_bindE
proof (rule wp_batch_read_rows)
qed (use assms in \<open>simp_all add: wp_liftE\<close>)

lemma wp_manifest_add:
  assumes "store_ok (view (srv w))"
    and "\<And>s' bs. view s' = view (srv w) \<Longrightarrow> \<not> fits bs \<Longrightarrow> Q (Inl (AE RecordTooBig)) (w\<lparr>srv := s'\<rparr>)"
    and "\<And>s' r. view s' = (view (srv w))(manifest_pk S a u \<mapsto> r) \<Longrightarrow>
      (\<forall>b. b \<noteq> SESSION_MANIFEST \<longrightarrow> map_of r b = map_of (rec_at (view (srv w)) (manifest_pk S a u)) b) \<Longrightarrow>
      (\<exists>l. map_of r SESSION_MANIFEST = Some (PList (l @ [PStr i]))) \<Longrightarrow> Q (Inr ()) (w\<lparr>srv := s'\<rparr>)"
  shows "wp (manifest_add X S a u i) Q w"
proof -
  let ?k = "manifest_pk S a u" and ?d = "view (srv w)"
  have r: "bins_ok (rec_at ?d ?k)" by (rule rec_at_ok[OF assms(1)])
  then obtain l where l: "map_of (rec_at ?d ?k) SESSION_MANIFEST = None \<and> l = []
      \<or> map_of (rec_at ?d ?k) SESSION_MANIFEST = Some (PList l)"
    using bins_okD[of "rec_at ?d ?k" SESSION_MANIFEST]
    by (cases "map_of (rec_at ?d ?k) SESSION_MANIFEST") (auto split: pyval.splits)
  let ?r = "dset SESSION_MANIFEST (PList (l @ [PStr i])) (rec_at ?d ?k)"
  have op: "\<not> fits ?r \<and> operate_db fits ?k [ListAppend SESSION_MANIFEST (PStr i)] None ?d = (Inl RecordTooBig, ?d)
    \<or> (\<exists>out. operate_db fits ?k [ListAppend SESSION_MANIFEST (PStr i)] None ?d = (Inr out, ?d(?k \<mapsto> ?r)))"
    using l by (auto simp: operate_creating run_ops_def)
  have "wp (client_operate X ?k [ListAppend SESSION_MANIFEST (PStr i)] None)
    (\<lambda>r w'. case r of Inl e \<Rightarrow> Q (Inl e) w' | Inr _ \<Rightarrow> Q (Inr ()) w') w"
    by (rule wp_operate) (use op assms(2) assms(3)[of _ ?r] in auto)
  then show ?thesis unfolding manifest_add_def wp_bindE wp_retE .
qed

end

lemma store_ok_upd: "store_ok d \<Longrightarrow> bins_ok r \<Longrightarrow> store_ok (d(k \<mapsto> r))"
  unfolding each_record_def by (metis fun_upd_apply option.inject)

lemma store_ok_state_upd:
  assumes "store_ok d"
  shows "store_ok (state_upd d k delta)"
  using state_dict_ok[OF assms, of k] rec_at_ok[OF assms, of k] assms
  by (auto simp: state_upd_def intro!: store_ok_upd bins_ok_dset)

lemma session_bins_ok: "keys_distinct st \<Longrightarrow> bins_ok (session_bins a u i st now)"
  by (simp add: session_bins_def bins_ok_def)

lemma pks_apart [simp]:
  "manifest_pk S a u \<noteq> app_state_pk S a'" "app_state_pk S a' \<noteq> manifest_pk S a u"
  "manifest_pk S a u \<noteq> user_state_pk S a' u'" "user_state_pk S a' u' \<noteq> manifest_pk S a u"
  "session_pk S a u i \<noteq> app_state_pk S a'" "app_state_pk S a' \<noteq> session_pk S a u i"
  "session_pk S a u i \<noteq> user_state_pk S a' u'" "user_state_pk S a' u' \<noteq> session_pk S a u i"
  "app_state_pk S a \<noteq> user_state_pk S a' u'" "user_state_pk S a' u' \<noteq> app_state_pk S a"
  using set_names_distinct[of S]
  by (auto simp: manifest_pk_def app_state_pk_def user_state_pk_def session_pk_def)

lemma session_pk_manifest [simp]: "session_pk S a u i = manifest_pk S a u \<longleftrightarrow> i = ''sl''"
  by (simp add: manifest_pk_def session_pk_def session_key_manifest)

text \<open>What a user sees under a key before the session exists: the scopes it will inherit.\<close>

definition inherited :: "db \<Rightarrow> schema \<Rightarrow> string \<Rightarrow> string \<Rightarrow> string \<Rightarrow> pyval option" where
  "inherited d S a u k =
     (if prefix SCOPE_APP k then map_of (state_dict d (app_state_pk S a)) (removeprefix SCOPE_APP k)
      else if prefix SCOPE_USER k then map_of (state_dict d (user_state_pk S a u)) (removeprefix SCOPE_USER k)
      else None)"

definition created :: "db \<Rightarrow> schema \<Rightarrow> string \<Rightarrow> string \<Rightarrow> string \<Rightarrow> dict \<Rightarrow> session \<Rightarrow> db \<Rightarrow> bool" where
  "created d S a u i st s d' \<longleftrightarrow>
     s_id s = i \<and> s_app_name s = a \<and> s_user_id s = u \<and> s_events s = []
     \<and> (\<exists>now. s_last_update_time s = PFloat now
           \<and> d' (session_pk S a u i) = Some (session_bins a u i (fst (partition_state st)) now))
     \<and> merged_state d' S a u i = Inr (s_state s)
     \<and> map_of (s_state s) = inherited d S a u ++ (map_of st |` {k. \<not> prefix SCOPE_TEMP k})
     \<and> (\<exists>l. map_of (rec_at d' (manifest_pk S a u)) SESSION_MANIFEST = Some (PList (l @ [PStr i])))
     \<and> (\<forall>k. k \<notin> {session_pk S a u i, app_state_pk S a, user_state_pk S a u, manifest_pk S a u} \<longrightarrow> d' k = d k)"

lemma created_state:
  assumes ok: "store_ok d" and dist: "keys_distinct st" and part: "partition_state st = (ss, da, du)"
    and d2: "d2 = state_upd (state_upd (d(session_pk S a u i \<mapsto> r)) (app_state_pk S a) da) (user_state_pk S a u) du"
    and okr: "bins_ok r"
    and m: "merge_state (state_of (d2 (app_state_pk S a))) (state_of (d2 (user_state_pk S a u))) (PDict ss) = Inr m"
  shows "map_of m = inherited d S a u ++ (map_of st |` {k. \<not> prefix SCOPE_TEMP k})"
proof
  fix k
  let ?d0 = "d(session_pk S a u i \<mapsto> r)"
  let ?d1 = "state_upd ?d0 (app_state_pk S a) da"
  have ok0: "store_ok ?d0" by (rule store_ok_upd[OF ok okr])
  have ok1: "store_ok ?d1" and ok2: "store_ok d2" unfolding d2 by (intro store_ok_state_upd ok0)+
  note parts = partition_parts[OF dist part]
  have sd0: "state_dict ?d0 (app_state_pk S a) = state_dict d (app_state_pk S a)"
    "state_dict ?d0 (user_state_pk S a u) = state_dict d (user_state_pk S a u)"
    by (simp_all add: state_dict_def)
  have app: "map_of (state_dict d2 (app_state_pk S a)) = map_of (state_dict d (app_state_pk S a)) ++ map_of da"
    unfolding d2
    by (simp add: state_upd_at[OF ok1 parts(6)] state_upd_at[OF ok0 parts(5)] sd0)
  have user: "map_of (state_dict d2 (user_state_pk S a u)) = map_of (state_dict d (user_state_pk S a u)) ++ map_of du"
    unfolding d2
    by (simp add: state_upd_at[OF ok1 parts(6)] state_upd_at[OF ok0 parts(5)] sd0)
  have look: "map_of m k = scoped_lookup (state_dict d2 (app_state_pk S a)) (state_dict d2 (user_state_pk S a u)) ss k"
    using m state_dict_ok[OF ok2] parts(4) by (intro merged_lookup) auto
  show "map_of m k = (inherited d S a u ++ (map_of st |` {k. \<not> prefix SCOPE_TEMP k})) k"
    using scopes_apart[of k]
    by (auto simp: look scoped_lookup_def app user parts(1-3) inherited_def map_add_def restrict_map_def
        plain_key_def removeprefix_def prefix_def split: option.splits)
qed

lemma created_made:
  assumes ok: "store_ok d" and dist: "keys_distinct st" and part: "partition_state st = (ss, da, du)"
    and d2: "d2 = state_upd (state_upd (d(session_pk S a u i \<mapsto> session_bins a u i ss now)) (app_state_pk S a) da)
      (user_state_pk S a u) du"
    and okr: "bins_ok (session_bins a u i ss now)"
    and m: "merge_state (state_of (d2 (app_state_pk S a))) (state_of (d2 (user_state_pk S a u))) (PDict ss) = Inr m"
    and d3: "d3 = d2(manifest_pk S a u \<mapsto> mr)"
    and l: "\<exists>l. map_of mr SESSION_MANIFEST = Some (PList (l @ [PStr i]))"
    and i: "i \<noteq> ''sl''"
  shows "created d S a u i st \<lparr>s_id = i, s_app_name = a, s_user_id = u, s_state = m,
    s_events = [], s_last_update_time = PFloat now\<rparr> d3"
proof -
  have spk: "d3 (session_pk S a u i) = Some (session_bins a u i ss now)"
    using i by (simp add: d3 d2 state_upd_other)
  have at: "d3 (app_state_pk S a) = d2 (app_state_pk S a)" "d3 (user_state_pk S a u) = d2 (user_state_pk S a u)"
    by (simp_all add: d3)
  have "merged_state d3 S a u i = Inr m" using m by (simp add: merged_state_def spk at)
  moreover have "map_of m = inherited d S a u ++ (map_of st |` {k. \<not> prefix SCOPE_TEMP k})"
    by (rule created_state[OF ok dist part d2 okr m])
  moreover have "d3 k = d k" if "k \<notin> {session_pk S a u i, app_state_pk S a, user_state_pk S a u, manifest_pk S a u}" for k
    using that by (simp add: d3 d2 state_upd_other)
  moreover have "rec_at d3 (manifest_pk S a u) = mr" by (simp add: rec_at_def d3)
  ultimately show ?thesis using spk l part by (simp add: created_def)
qed

context reliable_client begin

lemma wp_create_rest:
  assumes ok: "store_ok (view (srv w))"
    and big: "\<And>w' bs. \<not> fits bs \<Longrightarrow> Q (Inl (AE RecordTooBig)) w'"
    and fin: "\<And>w' r m d2. d2 = state_upd (state_upd (view (srv w)) (app_state_pk S a) da) (user_state_pk S a u) du \<Longrightarrow>
      view (srv w') = d2(manifest_pk S a u \<mapsto> r) \<Longrightarrow>
      \<exists>l. map_of r SESSION_MANIFEST = Some (PList (l @ [PStr i])) \<Longrightarrow>
      merge_state (state_of (d2 (app_state_pk S a))) (state_of (d2 (user_state_pk S a u))) (PDict ss) = Inr m \<Longrightarrow>
      cur_cache w' = cur_cache w \<Longrightarrow> Q (Inr (f m)) w'"
  shows "wp (thenE (whenE (da \<noteq> []) (merge_scoped_state X S (app_state_set S) (app_state_key a) da))
     (thenE (whenE (du \<noteq> []) (merge_scoped_state X S (user_state_set S) (user_state_key a u) du))
     (thenE (manifest_add X S a u i)
     (bindE (merge_state_for_read X S a u (PDict ss)) (\<lambda>merged. retE (f merged)))))) Q w"
  unfolding wp_thenE
proof (rule wp_merge_scoped[OF ok], goal_cases)
  case 1
  then show ?case by (simp add: big)
next
  case (2 s1)
  have v1: "view s1 = state_upd (view (srv w)) (app_state_pk S a) da" using 2 by (simp add: app_state_pk_def)
  have ok1: "store_ok (view (srv (w\<lparr>srv := s1\<rparr>)))" using v1 store_ok_state_upd[OF ok] by simp
  show ?case
    unfolding sum.case
  proof (rule wp_merge_scoped[OF ok1], goal_cases)
    case 1
    then show ?case by (simp add: big)
  next
    case (2 s2)
    let ?d2 = "state_upd (state_upd (view (srv w)) (app_state_pk S a) da) (user_state_pk S a u) du"
    have v2: "view s2 = ?d2" using 2 v1 by (simp add: user_state_pk_def)
    have ok2: "store_ok ?d2" by (intro store_ok_state_upd ok)
    show ?case
      unfolding sum.case
    proof (rule wp_manifest_add, goal_cases)
      case 1
      then show ?case using v2 ok2 by simp
    next
      case 2
      then show ?case by (simp add: big)
    next
      case (3 s3 r)
      then have v3: "view s3 = ?d2(manifest_pk S a u \<mapsto> r)" using v2 by simp
      have st: "view s3 (app_state_pk S a) = ?d2 (app_state_pk S a)" "view s3 (user_state_pk S a u) = ?d2 (user_state_pk S a u)"
        by (simp_all add: v3)
      obtain m where m: "merge_state (state_of (?d2 (app_state_pk S a))) (state_of (?d2 (user_state_pk S a u))) (PDict ss) = Inr m"
        using state_dict_ok[OF ok2] by (simp add: merge_state_dicts)
      show ?case
        unfolding sum.case wp_bindE wp_retE
      proof (rule wp_merge_for_read, goal_cases)
        case (1 s4)
        then show ?case using fin[OF refl _ 3(3) m, of "w\<lparr>srv := s4\<rparr>"] m v3 by (simp add: st)
      qed
    qed
  qed
qed

lemma wp_create:
  assumes ok: "store_ok (view (srv w))" and dist: "keys_distinct st"
    and i: "i \<noteq> []" "i \<noteq> ''sl''"
    and exists: "\<And>w'. view (srv w') = view (srv w) \<Longrightarrow> view (srv w) (session_pk S a u i) \<noteq> None \<Longrightarrow>
      Q (Inl (AE RecordExistsError)) w'"
    and big: "\<And>w' bs. view (srv w) (session_pk S a u i) = None \<Longrightarrow> \<not> fits bs \<Longrightarrow> Q (Inl (AE RecordTooBig)) w'"
    and fin: "\<And>s w'. view (srv w) (session_pk S a u i) = None \<Longrightarrow>
      created (view (srv w)) S a u i st s (view (srv w')) \<Longrightarrow>
      cur_cache w' = (cur_cache w)(session_key a u i \<mapsto> 0) \<Longrightarrow> Q (Inr s) w'"
  shows "wp (create_session X S a u (Some st) (Some i)) Q w"
proof -
  obtain ss da du where part: "partition_state st = (ss, da, du)" by (metis prod_cases3)
  let ?d = "view (srv w)" and ?spk = "session_pk S a u i"
  note keys = partition_parts[OF dist part]
  show ?thesis
    unfolding create_session_def option.case if_P[OF i(1)] wp_bindE[of "retE i"] wp_retE[of i] sum.case part prod.case
      wp_bindE[of "now_time X"]
  proof (rule wp_now_time, goal_cases)
    case (1 s1 now)
    let ?r = "session_bins a u i ss now"
    let ?new = "?d(?spk \<mapsto> ?r)"
    let ?s = "\<lambda>merged. \<lparr>s_id = i, s_app_name = a, s_user_id = u, s_state = merged,
              s_events = [], s_last_update_time = PFloat now\<rparr>"
    have okr: "bins_ok ?r" by (rule session_bins_ok[OF keys(4)])
    have ok0: "store_ok ?new" by (rule store_ok_upd[OF ok okr])
    show ?case
      unfolding sum.case wp_thenE[of "write_retrying_overload _ _ _"]
    proof (rule wp_put_retrying, goal_cases)
      case (1 s2)
      show ?case
      proof (cases "?d ?spk = None \<and> fits ?r")
        case False
        have s1: "view (srv (w\<lparr>srv := s1\<rparr>)) = ?d" using \<open>view s1 = _\<close> by simp
        show ?thesis
        proof (cases "?d ?spk")
          case None
          with False have "put_db fits ?spk ?r True ?d = (Inl RecordTooBig, ?d)" by (simp add: put_db_def Let_def)
          with None s1 False show ?thesis by (simp add: big)
        next
          case (Some x)
          then have "put_db fits ?spk ?r True ?d = (Inl RecordExistsError, ?d)" by (simp add: put_db_def)
          with Some s1 1 show ?thesis by (simp add: exists)
        qed
      next
        case True
        then have v2: "view s2 = ?new" using 1 \<open>view s1 = _\<close> by (simp add: put_db_def Let_def)
        have r: "fst (put_db fits ?spk ?r True ?d) = Inr RespNone" using True by (simp add: put_db_def Let_def)
        let ?w = "w\<lparr>srv := s2, cur_cache := (cur_cache w)(session_key a u i \<mapsto> 0)\<rparr>"
        have "wp (thenE (whenE (da \<noteq> []) (merge_scoped_state X S (app_state_set S) (app_state_key a) da))
           (thenE (whenE (du \<noteq> []) (merge_scoped_state X S (user_state_set S) (user_state_key a u) du))
           (thenE (manifest_add X S a u i)
           (bindE (merge_state_for_read X S a u (PDict ss)) (\<lambda>merged. retE (?s merged)))))) Q ?w"
        proof (rule wp_create_rest)
          show "store_ok (view (srv ?w))" using v2 ok0 by simp
          show "Q (Inl (AE RecordTooBig)) w'" if "\<not> fits bs" for w' bs using big that True by blast
          fix w' :: "'a session_world" and mr m d2
          assume d2: "d2 = state_upd (state_upd (view (srv ?w)) (app_state_pk S a) da) (user_state_pk S a u) du"
            and v: "view (srv w') = d2(manifest_pk S a u \<mapsto> mr)"
            and l: "\<exists>l. map_of mr SESSION_MANIFEST = Some (PList (l @ [PStr i]))"
            and m: "merge_state (state_of (d2 (app_state_pk S a))) (state_of (d2 (user_state_pk S a u))) (PDict ss) = Inr m"
            and c: "cur_cache w' = cur_cache ?w"
          show "Q (Inr (?s m)) w'"
            using fin[of "?s m" w'] True c created_made[OF ok dist part _ okr m v l i(2)] d2 v2 by simp
        qed
        then show ?thesis
          using r \<open>view s1 = _\<close> by (simp add: wp_thenE[of "cache_cur _ _"] wp_cache_cur)
      qed
    qed
  qed
qed

end

section \<open>Properties\<close>

lemma demo_log: "log_rep (size_limit 500) sample_adk (map_of demo_records) demo_schema ''app'' ''ann'' ''s1''
    (session_bins ''app'' ''ann'' ''s1'' [] 5) 0 []"
proof -
  have "seg (map_of demo_records) demo_schema ''app'' ''ann'' ''s1'' 0 = []"
    by (simp add: seg_def demo_records_def)
  then show ?thesis
    using demo_pure_segs
    by (simp add: log_rep_def session_ready_def entries_def) (simp add: demo_records_def session_bins_def
        size_limit_def dset_def)
qed

text \<open>
  C30. \<open>num_recent_events\<close> is the tail of everything. Without an \<open>after_timestamp\<close> the walk from
  the newest segment, with its partial reads and its early exits, returns the last \<open>n\<close> entries
  of all segments put together, for every \<open>n\<close> from zero on and every store whose segments hold
  events only, fewer than \<open>2 ^ 31\<close> in each; no order of the keys across segments is needed for it.
  The witness reads the last two of three events, across the border of two segments.
\<close>

theorem recent_events_are_the_tail:
  assumes "reliable_client X view fits" "pure_segs (view (srv w)) S a u i"
    and "small_segs (view (srv w)) S a u i cur" "config_ok config" "config_after config = None"
  shows "\<exists>w'. load_events X A S a u i cur config w =
      (emap (event_of_val A) (recent (config_recent config) (map snd (entries (view (srv w)) S a u i cur))), w')
    \<and> view (srv w') = view (srv w)"
proof -
  let ?r = "emap (event_of_val A) (recent (config_recent config) (map snd (entries (view (srv w)) S a u i cur)))"
  have "wp (load_events X A S a u i cur config) (\<lambda>r w'. r = ?r \<and> view (srv w') = view (srv w)) w"
    by (rule reliable_client.wp_load_events[OF assms(1,2,4,3)])
      (simp add: assms(5) walked_def down_segs entries_def)
  from wp_exI[OF this] show ?thesis by blast
qed

text \<open>Three events in two segments.\<close>

definition two_segments :: "(pk \<times> bins) list" where
  "two_segments =
     [(segment_pk demo_schema ''app'' ''ann'' ''s1'' 0,
       [(EVENTS, PDict [entry sample_adk (sample_event ''e1'' 7 []), entry sample_adk (sample_event ''e2'' 8 [])])]),
      (segment_pk demo_schema ''app'' ''ann'' ''s1'' 1,
       [(EVENTS, PDict [entry sample_adk (sample_event ''e3'' 9 [])])])]"

theorem recent_events_are_the_tail_witness:
  "\<exists>w'. load_events (calm_ext 500) sample_adk demo_schema ''app'' ''ann'' ''s1'' 1
      (Some \<lparr>num_recent_events = Some 2, after_timestamp = None\<rparr>) (demo_world two_segments [])
     = (Inr [sample_event ''e2'' 8 [], sample_event ''e3'' 9 []], w')"
proof -
  let ?d = "map_of two_segments" and ?S = demo_schema
  let ?e = "\<lambda>i t. sample_event i t []" and ?c = "Some \<lparr>num_recent_events = Some 2, after_timestamp = None\<rparr>"
  have s: "seg ?d ?S ''app'' ''ann'' ''s1'' g = (if g = 0 then [entry sample_adk (?e ''e1'' 7), entry sample_adk (?e ''e2'' 8)]
      else if g = 1 then [entry sample_adk (?e ''e3'' 9)] else [])" for g
    by (simp add: seg_def two_segments_def events_of_def)
  have small: "small_segs ?d ?S ''app'' ''ann'' ''s1'' 1" by (simp add: small_segs_def s)
  have m: "ts_micros 7 = 7000000" "ts_micros 8 = 8000000" using ts_micros_of_int[of 7] ts_micros_of_int[of 8] by simp_all
  then have ts: "ts_ok 7" "ts_ok 8" by (simp_all add: ts_ok_def)
  have "event_key (?e ''e1'' 7) < event_key (?e ''e2'' 8)"
    using ts by (simp add: event_key_def sample_event_def key_less_iff m)
  then have pure: "pure_segs ?d ?S ''app'' ''ann'' ''s1''"
    by (simp add: pure_segs_def two_segments_def entry_def ordered_def)
  have "entries ?d ?S ''app'' ''ann'' ''s1'' 1 = map (entry sample_adk) [?e ''e1'' 7, ?e ''e2'' 8, ?e ''e3'' 9]"
    by (simp add: entries_def s upt_rec)
  then have tail: "emap (event_of_val sample_adk) (recent (config_recent ?c) (map snd (entries ?d ?S ''app'' ''ann'' ''s1'' 1)))
      = Inr [?e ''e2'' 8, ?e ''e3'' 9]"
    using emap_entries[OF sample_adk_lossless, of "[?e ''e2'' 8, ?e ''e3'' 9]"] by (simp add: config_recent_def recent_def)
  have "\<exists>w'. load_events (calm_ext 500) sample_adk ?S ''app'' ''ann'' ''s1'' 1 ?c (demo_world two_segments []) =
      (emap (event_of_val sample_adk) (recent (config_recent ?c) (map snd (entries (mem_view (srv (demo_world two_segments [])))
        ?S ''app'' ''ann'' ''s1'' 1))), w') \<and> mem_view (srv w') = mem_view (srv (demo_world two_segments []))"
    by (rule recent_events_are_the_tail[OF calm.reliable_client_axioms])
      (use pure small in \<open>simp_all add: config_ok_def config_recent_def config_after_def\<close>)
  then show ?thesis using tail by auto
qed

text \<open>
  C31. An empty top segment hides the past from \<open>after_timestamp\<close>. When the counter points at a
  segment without events, as it does after an interrupted rollover or a refused event, a read
  with a cutoff returns nothing, whatever the older segments hold.
\<close>

theorem after_timestamp_stops_at_gap:
  assumes "reliable_client X view fits" "pure_segs (view (srv w)) S a u i"
    and "small_segs (view (srv w)) S a u i cur" "config_ok config" "config_after config = Some t"
    and "0 \<le> cur" "seg (view (srv w)) S a u i cur = []"
  shows "\<exists>w'. load_events X A S a u i cur config w = (Inr [], w')"
proof -
  have "nat (cur + 1) = Suc (nat cur)" using assms(6) by simp
  then have "down_to_zero cur = cur # map int (rev [0..<nat cur])" using assms(6) by (simp add: down_to_zero_def)
  then have "walked (Some t) (map (seg (view (srv w)) S a u i) (down_to_zero cur)) = []"
    by (simp add: walked_def assms(7) cut_def key_range_def)
  then have "wp (load_events X A S a u i cur config) (\<lambda>r w'. r = Inr []) w"
    by (intro reliable_client.wp_load_events[OF assms(1,2,4,3)])
      (simp add: assms(5) recent_def split: option.split)
  from wp_exI[OF this] show ?thesis by blast
qed

definition gap_records :: "(pk \<times> bins) list" where
  "gap_records = [(session_pk demo_schema ''app'' ''ann'' ''s1'', dset CUR_SEGMENT (PInt 1) (session_bins ''app'' ''ann'' ''s1'' [] 5)),
     (segment_pk demo_schema ''app'' ''ann'' ''s1'' 0, [(EVENTS, PDict [entry sample_adk (sample_event ''e1'' 7 [])])])]"

theorem after_timestamp_stops_at_gap_witness:
  "(\<exists>w'. load_events (calm_ext 500) sample_adk demo_schema ''app'' ''ann'' ''s1'' 1
      (Some \<lparr>num_recent_events = None, after_timestamp = Some 1\<rparr>) (demo_world gap_records []) = (Inr [], w'))
   \<and> seg (map_of gap_records) demo_schema ''app'' ''ann'' ''s1'' 0 = [entry sample_adk (sample_event ''e1'' 7 [])]"
proof -
  have s: "seg (map_of gap_records) demo_schema ''app'' ''ann'' ''s1'' g =
      (if g = 0 then [entry sample_adk (sample_event ''e1'' 7 [])] else [])" for g
    by (simp add: seg_def gap_records_def events_of_def)
  have "small_segs (map_of gap_records) demo_schema ''app'' ''ann'' ''s1'' 1" by (simp add: small_segs_def s)
  moreover have "pure_segs (map_of gap_records) demo_schema ''app'' ''ann'' ''s1''"
    by (simp add: pure_segs_def gap_records_def entry_def)
  ultimately show ?thesis
    using after_timestamp_stops_at_gap[OF calm.reliable_client_axioms, of "demo_world gap_records []" demo_schema
        "''app''" "''ann''" "''s1''" 1 "Some \<lparr>num_recent_events = None, after_timestamp = Some 1\<rparr>" 1 500 sample_adk]
    by (simp add: s config_ok_def config_recent_def config_after_def)
qed

text \<open>
  C16. What \<open>create_session\<close> makes. On a reliable cluster a create with a new id either fails for
  size, or stores a session record, lists the id in the user's manifest, touches nothing but the
  four records of its footprint, and returns the state a reader will see: the given values, minus
  the \<open>temp:\<close> ones, over what the application and the user had. A create with the id of an
  existing session raises \<open>RecordExistsError\<close> and changes nothing.
\<close>

theorem create_session_outcome:
  assumes "reliable_client X view fits" "store_ok (view (srv w))" "keys_distinct st" "i \<noteq> []" "i \<noteq> ''sl''"
    and "create_session X S a u (Some st) (Some i) w = (r, w')"
  shows "if view (srv w) (session_pk S a u i) \<noteq> None
    then r = Inl (AE RecordExistsError) \<and> view (srv w') = view (srv w)
    else r = Inl (AE RecordTooBig)
      \<or> (\<exists>s. r = Inr s \<and> created (view (srv w)) S a u i st s (view (srv w'))
           \<and> cur_cache w' (session_key a u i) = Some 0)"
proof -
  have "wp (create_session X S a u (Some st) (Some i)) (\<lambda>r w'.
    if view (srv w) (session_pk S a u i) \<noteq> None
    then r = Inl (AE RecordExistsError) \<and> view (srv w') = view (srv w)
    else r = Inl (AE RecordTooBig)
      \<or> (\<exists>s. r = Inr s \<and> created (view (srv w)) S a u i st s (view (srv w'))
           \<and> cur_cache w' (session_key a u i) = Some 0)) w"
    by (rule reliable_client.wp_create[OF assms(1-5)]) auto
  from wpD[OF this assms(6)] show ?thesis .
qed

theorem create_session_outcome_witness:
  "\<exists>w'. create_session (calm_ext 500) demo_schema ''app'' ''ann'' (Some []) (Some ''s1'') (demo_world demo_records [])
     = (Inl (AE RecordExistsError), w') \<and> mem_view (srv w') = map_of demo_records"
proof -
  obtain r w' where run: "create_session (calm_ext 500) demo_schema ''app'' ''ann'' (Some []) (Some ''s1'')
      (demo_world demo_records []) = (r, w')" by fastforce
  from create_session_outcome[OF calm.reliable_client_axioms _ _ _ _ run] run demo_store_ok show ?thesis
    by (simp add: demo_records_def)
qed

end
