(* ===== verification/Session_Removal.thy ===== *)
theory Session_Removal
  imports Session_Lifecycle
begin

text \<open>
  Deleting a session and listing the sessions of a user, on a reliable cluster.
\<close>

section \<open>The manifest\<close>

definition manifest_ids :: "db \<Rightarrow> schema \<Rightarrow> string \<Rightarrow> string \<Rightarrow> pyval list" where
  "manifest_ids d S a u =
     (case map_of (rec_at d (manifest_pk S a u)) SESSION_MANIFEST of Some (PList l) \<Rightarrow> l | _ \<Rightarrow> [])"

lemma manifest_bin:
  assumes "store_ok d"
  shows "map_of (rec_at d (manifest_pk S a u)) SESSION_MANIFEST = None \<and> manifest_ids d S a u = []
    \<or> map_of (rec_at d (manifest_pk S a u)) SESSION_MANIFEST = Some (PList (manifest_ids d S a u))
       \<and> list_all is_str (manifest_ids d S a u)"
proof (cases "map_of (rec_at d (manifest_pk S a u)) SESSION_MANIFEST")
  case (Some v)
  from bins_okD[OF rec_at_ok[OF assms] Some] obtain l where "v = PList l" "list_all is_str l"
    by (cases v) simp_all
  with Some show ?thesis by (simp add: manifest_ids_def)
qed (simp add: manifest_ids_def)

text \<open>The store after ids were taken out of a manifest; a manifest that does not exist stays so.\<close>

definition manifest_drop :: "db \<Rightarrow> schema \<Rightarrow> string \<Rightarrow> string \<Rightarrow> pyval \<Rightarrow> db" where
  "manifest_drop d S a u v =
     (if map_of (rec_at d (manifest_pk S a u)) SESSION_MANIFEST = None then d
      else d(manifest_pk S a u \<mapsto> dset SESSION_MANIFEST (PList (removeAll v (manifest_ids d S a u)))
                                        (rec_at d (manifest_pk S a u))))"

lemma manifest_drop_other: "k \<noteq> manifest_pk S a u \<Longrightarrow> manifest_drop d S a u v k = d k"
  by (simp add: manifest_drop_def)

lemma manifest_ids_drop: "manifest_ids (manifest_drop d S a u v) S a u = removeAll v (manifest_ids d S a u)"
  by (auto simp: manifest_drop_def manifest_ids_def rec_at_def)

lemma operate_drop:
  assumes "store_ok d"
  shows "(\<exists>out. operate_db fits (manifest_pk S a u) [ListRemoveByValue SESSION_MANIFEST v] None d
        = (Inr out, manifest_drop d S a u v))
    \<or> operate_db fits (manifest_pk S a u) [ListRemoveByValue SESSION_MANIFEST v] None d = (Inl RecordTooBig, d)
    \<or> operate_db fits (manifest_pk S a u) [ListRemoveByValue SESSION_MANIFEST v] None d
        = (Inl RecordNotFound, manifest_drop d S a u v)"
proof (cases "d (manifest_pk S a u)")
  case None
  then show ?thesis by (simp add: operate_db_def manifest_drop_def rec_at_def)
next
  case (Some bs)
  then have r: "rec_at d (manifest_pk S a u) = bs" by (simp add: rec_at_def)
  from Some have same: "d(manifest_pk S a u \<mapsto> bs) = d" by auto
  show ?thesis
    using manifest_bin[OF assms, of S a u] Some
    by (auto simp: operate_db_def run_ops_def manifest_drop_def r same)
qed

context reliable_client begin

lemma wp_manifest_remove:
  assumes ok: "store_ok (view (srv w))"
    and big: "\<And>s'. view s' = view (srv w) \<Longrightarrow> Q (Inl (AE RecordTooBig)) (w\<lparr>srv := s'\<rparr>)"
    and fin: "\<And>s'. view s' = manifest_drop (view (srv w)) S a u v \<Longrightarrow> Q (Inr ()) (w\<lparr>srv := s'\<rparr>)"
  shows "wp (manifest_remove X S a u v) Q w"
  unfolding manifest_remove_def wp_bindE wp_or_not_found wp_retE
  by (rule wp_operate) (use operate_drop[OF ok, of fits S a u v] big fin in auto)

end

section \<open>Deletion\<close>

text \<open>The store without the records of a session, the counter of which stood at \<open>cur\<close>.\<close>

definition session_gone :: "db \<Rightarrow> schema \<Rightarrow> string \<Rightarrow> string \<Rightarrow> string \<Rightarrow> int \<Rightarrow> db" where
  "session_gone d S a u i cur =
     (\<lambda>k. if k = session_pk S a u i \<or> k \<in> segment_pk S a u i ` {0..cur + 1} then None else d k)"

lemma segment_range: "-2 \<le> cur \<Longrightarrow> (\<lambda>g. segment_pk S a u i (int g)) ` set [0..<nat (cur + 2)] = segment_pk S a u i ` {0..cur + 1}"
proof -
  assume "-2 \<le> cur"
  then have "int ` set [0..<nat (cur + 2)] = {0..cur + 1}"
    using set_down_to_zero[of "cur + 1"] by (simp add: down_to_zero_def add.assoc)
  then show ?thesis by (metis (no_types, lifting) image_cong image_image)
qed

lemma store_ok_gone: "store_ok d \<Longrightarrow> store_ok (session_gone d S a u i cur)"
  unfolding each_record_def session_gone_def by (metis option.distinct(1))

context reliable_client begin

lemma wp_delete:
  assumes ok: "store_ok (view (srv w))"
    and rec: "view (srv w) (session_pk S a u i) = Some sb" "map_of sb CUR_SEGMENT = Some (PInt cur)" "0 \<le> cur"
    and big: "\<And>w'. view (srv w') = session_gone (view (srv w)) S a u i cur \<Longrightarrow>
      cur_cache w' (session_key a u i) = None \<Longrightarrow> Q (Inl (AE RecordTooBig)) w'"
    and fin: "\<And>w'. view (srv w') = manifest_drop (session_gone (view (srv w)) S a u i cur) S a u (PStr i) \<Longrightarrow>
      cur_cache w' (session_key a u i) = None \<Longrightarrow> Q (Inr ()) w'"
  shows "wp (delete_session X S a u i) Q w"
  unfolding delete_session_def Let_def wp_bindE[of "or_not_found (client_get _ _)"] wp_or_not_found
proof (rule wp_get, goal_cases)
  case (1 s1)
  let ?rest = "thenE (or_not_found (client_remove X (session_pk S a u i)))
    (thenE (modifyE (\<lambda>w. w\<lparr>cur_cache := (cur_cache w)(session_key a u i := None)\<rparr>))
              (manifest_remove X S a u (PStr i)))"
  have "wp (thenE (forE (\<lambda>gidx. bindE (or_not_found
        (client_remove X (segment_pk S a u i (int gidx)))) (\<lambda>_. retE ())) [0..<nat (cur + 2)]) ?rest) Q (w\<lparr>srv := s1\<rparr>)"
    unfolding wp_thenE[of "forE _ _"]
  proof (rule wp_remove_all, goal_cases)
    case (1 s2)
    show ?case
      unfolding sum.case wp_thenE[of "or_not_found _"] wp_or_not_found
    proof (rule wp_remove, goal_cases)
      case (1 s3)
      have v3: "view s3 = session_gone (view (srv w)) S a u i cur"
        using 1 \<open>view s2 = _\<close> \<open>view s1 = _\<close> segment_range[of cur S a u i] rec(3)
        by (auto simp: session_gone_def fun_eq_iff)
      let ?w = "w\<lparr>srv := s3, cur_cache := (cur_cache w)(session_key a u i := None)\<rparr>"
      have "wp (manifest_remove X S a u (PStr i)) Q ?w"
        using store_ok_gone[OF ok] by (intro wp_manifest_remove) (auto simp: v3 intro: big fin)
      then show ?case by (simp add: wp_thenE wp_modifyE)
    qed
  qed
  then show ?case using rec 1 by (simp add: wp_bindE wp_liftE dget_def)
qed

lemma wp_delete_missing:
  assumes "view (srv w) (session_pk S a u i) = None"
    and "\<And>s'. view s' = view (srv w) \<Longrightarrow> Q (Inr ()) (w\<lparr>srv := s'\<rparr>)"
  shows "wp (delete_session X S a u i) Q w"
  unfolding delete_session_def Let_def wp_bindE[of "or_not_found (client_get _ _)"] wp_or_not_found
  by (rule wp_get) (use assms in \<open>simp add: wp_retE\<close>)

end

section \<open>Listing\<close>

definition pick :: "bin_name list \<Rightarrow> bins \<Rightarrow> bins" where
  "pick names rec = (case apply_ops (map ReadBin names) rec [] of Inl _ \<Rightarrow> [] | Inr (_, out) \<Rightarrow> out)"

lemma apply_reads: "\<exists>out'. apply_ops (map ReadBin names) rec out = Inr (rec, out')
    \<and> (\<forall>b. map_of out' b = (if b \<in> set names \<and> map_of rec b \<noteq> None then map_of rec b else map_of out b))"
proof (induction names arbitrary: out)
  case (Cons n names)
  show ?case
  proof (cases "map_of rec n")
    case None
    with Cons[of out] show ?thesis by auto
  next
    case (Some v)
    with Cons[of "dset n v out"] show ?thesis by auto
  qed
qed simp

lemma pick_run: "apply_ops (map ReadBin names) rec [] = Inr (rec, pick names rec)"
  and map_of_pick: "map_of (pick names rec) b = (if b \<in> set names then map_of rec b else None)"
  using apply_reads[of names rec "[]"] by (auto simp: pick_def)

lemma reads_do_not_write: "\<not> list_ex modifies (map ReadBin names)" "\<not> list_ex creates (map ReadBin names)"
  by (simp_all add: list_ex_iff)

lemma operate_reads: "operate_db fits k (map ReadBin names) None d =
  (case d k of None \<Rightarrow> Inl RecordNotFound | Some rec \<Rightarrow> Inr (pick names rec), d)"
  by (simp add: operate_db_def run_ops_def pick_run reads_do_not_write split: option.split)

lemma batch_reads: "batch_db fits code [] (map (\<lambda>k. (k, map ReadBin names)) ks) d =
  (map (\<lambda>k. batch_item code (map_option (pick names) (d k))) ks, d)"
  by (induction ks) (simp_all add: Let_def operate_reads split: option.split)

context reliable_client begin

lemma wp_batch_read_bins:
  assumes "ks \<noteq> []"
    and Q: "\<And>s' rows. view s' = view (srv w) \<Longrightarrow>
      (\<And>k. k \<in> set ks \<Longrightarrow> dget rows k None = map_option (pick names) (view (srv w) k)) \<Longrightarrow> Q (Inr rows) (w\<lparr>srv := s'\<rparr>)"
  shows "wp (batch_read_bins X ks names) Q w"
proof -
  let ?f = "\<lambda>k. batch_item (x_code X) (map_option (pick names) (view (srv w) k))"
  from batch_rows_items[of ks ?f] obtain rows where rows: "batch_rows ks (map ?f ks) = Inr rows"
    "\<forall>k. map_of rows k = (if k \<in> set ks then Some (if fst (?f k) = 0 then snd (?f k) else None) else None)"
    by blast
  have look: "dget rows k None = map_option (pick names) (view (srv w) k)" if k: "k \<in> set ks" for k
  proof -
    have "map_of rows k = Some (if fst (?f k) = 0 then snd (?f k) else None)" using rows(2) k by metis
    then have "map_of rows k = Some (map_option (pick names) (view (srv w) k))"
      unfolding batch_item_code by (cases "view (srv w) k") simp_all
    then show ?thesis by (simp add: dget_def)
  qed
  have "wp (client_batch_write X (map (\<lambda>k. (k, map ReadBin names)) ks))
      (\<lambda>r w'. case r of Inl e \<Rightarrow> Q (Inl e) w' | Inr records \<Rightarrow> Q (batch_rows ks records) w') w"
    by (rule wp_batch_write) (simp only: batch_reads fst_conv snd_conv sum.case rows(1) Q[OF _ look])
  then show ?thesis
    unfolding batch_read_bins_def if_not_P[OF assms(1)] wp_bindE wp_liftE .
qed

end

text \<open>An id of the manifest that still names a session of this user, and its listing.\<close>

definition live :: "db \<Rightarrow> schema \<Rightarrow> string \<Rightarrow> string \<Rightarrow> string \<Rightarrow> bool" where
  "live d S a u sid \<longleftrightarrow> map_of (rec_at d (session_pk S a u sid)) APP_NAME = Some (PStr a)
     \<and> map_of (rec_at d (session_pk S a u sid)) USER_ID = Some (PStr u)"

definition listed :: "db \<Rightarrow> schema \<Rightarrow> string \<Rightarrow> string \<Rightarrow> string \<Rightarrow> session" where
  "listed d S a u sid =
     (let rec = rec_at d (session_pk S a u sid) in
      \<lparr>s_id = (case dget rec SESSION_ID (PStr sid) of PStr x \<Rightarrow> x | _ \<Rightarrow> sid), s_app_name = a, s_user_id = u,
       s_state = [], s_events = [], s_last_update_time = dget rec LAST_UPDATE (PFloat 0)\<rparr>)"

lemma sort_rows_live:
  assumes "store_ok d"
    and "\<And>sid. sid \<in> set ids \<Longrightarrow> h sid = map_option (pick LIST_SESSION_BINS) (d (session_pk S a u sid))"
  shows "sort_rows a u (map (\<lambda>sid. (sid, h sid)) ids) ss st =
    Inr (ss @ map (listed d S a u) (filter (live d S a u) ids), st @ filter (\<lambda>i. \<not> live d S a u i) ids)"
  using assms(2)
proof (induction ids arbitrary: ss st)
  case (Cons sid ids)
  let ?rec = "rec_at d (session_pk S a u sid)"
  let ?bins = "case h sid of None \<Rightarrow> [] | Some b \<Rightarrow> b"
  have look: "map_of ?bins b = (if b \<in> set LIST_SESSION_BINS then map_of ?rec b else None)" for b
    using Cons.prems[of sid] by (cases "d (session_pk S a u sid)") (simp_all add: rec_at_def map_of_pick)
  have l: "live d S a u sid \<longleftrightarrow> pget ?bins APP_NAME = PStr a \<and> pget ?bins USER_ID = PStr u"
    by (auto simp: live_def dget_def look LIST_SESSION_BINS_def split: option.splits)
  have e: "?bins \<noteq> []" if "live d S a u sid" using that l by (auto simp: dget_def)
  have sid: "str_of (dget ?bins SESSION_ID (PStr sid)) = Inr (s_id (listed d S a u sid))"
    using bins_okD[OF rec_at_ok[OF assms(1)], of "session_pk S a u sid" SESSION_ID]
    by (cases "map_of ?rec SESSION_ID") (auto simp: dget_def look LIST_SESSION_BINS_def listed_def elim: is_str.elims)
  have lst: "listed d S a u sid = \<lparr>s_id = s_id (listed d S a u sid), s_app_name = a, s_user_id = u,
     s_state = [], s_events = [], s_last_update_time = dget ?bins LAST_UPDATE (PFloat 0)\<rparr>"
    by (simp add: listed_def Let_def dget_def look LIST_SESSION_BINS_def)
  show ?case
  proof (cases "live d S a u sid")
    case True
    then have "sort_rows a u (map (\<lambda>sid. (sid, h sid)) (sid # ids)) ss st =
        sort_rows a u (map (\<lambda>sid. (sid, h sid)) ids) (ss @ [listed d S a u sid]) st"
      using l e[OF True] sid lst[symmetric] by (simp add: Let_def)
    with Cons True show ?thesis by simp
  next
    case False
    then have "sort_rows a u (map (\<lambda>sid. (sid, h sid)) (sid # ids)) ss st =
        sort_rows a u (map (\<lambda>sid. (sid, h sid)) ids) ss (st @ [sid])"
      using l by (auto simp: Let_def)
    with Cons False show ?thesis by simp
  qed
qed simp

fun the_str :: "pyval \<Rightarrow> string" where
  "the_str (PStr s) = s"
| "the_str _ = []"

lemma emap_strs: "list_all is_str l \<Longrightarrow> emap str_of l = Inr (map the_str l) \<and> map PStr (map the_str l) = l"
  by (induction l) (auto elim!: is_str.elims)

lemma store_ok_drop:
  assumes "store_ok d"
  shows "store_ok (manifest_drop d S a u v)"
  using manifest_bin[OF assms, of S a u] rec_at_ok[OF assms, of "manifest_pk S a u"] assms
  by (auto simp: manifest_drop_def list_all_iff intro!: store_ok_upd bins_ok_dset)

definition manifest_drops :: "db \<Rightarrow> schema \<Rightarrow> string \<Rightarrow> string \<Rightarrow> pyval list \<Rightarrow> db" where
  "manifest_drops d S a u vs = fold (\<lambda>v d. manifest_drop d S a u v) vs d"

lemma manifest_drops_simps [simp]:
  "manifest_drops d S a u [] = d"
  "manifest_drops d S a u (v # vs) = manifest_drops (manifest_drop d S a u v) S a u vs"
  by (simp_all add: manifest_drops_def)

lemma manifest_drops_ids: "manifest_ids (manifest_drops d S a u vs) S a u = filter (\<lambda>v. v \<notin> set vs) (manifest_ids d S a u)"
proof (induction vs arbitrary: d)
  case (Cons v vs)
  then show ?case by (simp add: manifest_ids_drop removeAll_filter_not_eq) (rule filter_cong, auto)
qed simp

lemma manifest_drops_other: "k \<noteq> manifest_pk S a u \<Longrightarrow> manifest_drops d S a u vs k = d k"
  by (induction vs arbitrary: d) (simp_all add: manifest_drop_other)

context reliable_client begin

lemma wp_remove_stale:
  assumes "store_ok (view (srv w))"
    and "\<And>w'. (\<And>k. k \<noteq> manifest_pk S a u \<Longrightarrow> view (srv w') k = view (srv w) k) \<Longrightarrow> Q (Inl (AE RecordTooBig)) w'"
    and "\<And>s'. view s' = manifest_drops (view (srv w)) S a u vs \<Longrightarrow> Q (Inr ()) (w\<lparr>srv := s'\<rparr>)"
  shows "wp (manifest_remove_stale X S a u vs) Q w"
  unfolding manifest_remove_stale_def
  using assms
proof (induction vs arbitrary: w)
  case Nil
  show ?case using Nil(3)[of "srv w"] by (simp add: wp_simps)
next
  case (Cons v vs)
  show ?case
    unfolding wp_forE_Cons
  proof (rule wp_manifest_remove[OF Cons.prems(1)], goal_cases)
    case 1
    then show ?case using Cons.prems(2) by simp
  next
    case (2 s1)
    have "wp (forE (manifest_remove X S a u) vs) Q (w\<lparr>srv := s1\<rparr>)"
      using store_ok_drop[OF Cons.prems(1)] Cons.prems(2,3)
      by (intro Cons.IH) (simp_all add: 2 manifest_drop_other)
    then show ?case by simp
  qed
qed

lemma wp_list:
  assumes ok: "store_ok (view (srv w))"
    and ids: "ids = map the_str (manifest_ids (view (srv w)) S a u)"
    and big: "\<And>w'. (\<And>k. k \<noteq> manifest_pk S a u \<Longrightarrow> view (srv w') k = view (srv w) k) \<Longrightarrow> Q (Inl (AE RecordTooBig)) w'"
    and fin: "\<And>w'. manifest_ids (view (srv w')) S a u = map PStr (filter (live (view (srv w)) S a u) ids) \<Longrightarrow>
      (\<And>k. k \<noteq> manifest_pk S a u \<Longrightarrow> view (srv w') k = view (srv w) k) \<Longrightarrow>
      Q (Inr (map (listed (view (srv w)) S a u) (filter (live (view (srv w)) S a u) ids))) w'"
  shows "wp (list_sessions X S a (Some u)) Q w"
  unfolding list_sessions_def option.case list_sessions_for_user_def wp_bindE[of "or_not_found _"] wp_or_not_found
proof (rule wp_get, goal_cases)
  case (1 s1)
  let ?d = "view (srv w)" and ?live = "live (view (srv w)) S a u"
  have fin0: "Q (Inr []) (w\<lparr>srv := s1\<rparr>)" if "ids = []"
    using fin[of "w\<lparr>srv := s1\<rparr>"] that ids 1 by simp
  show ?case
  proof (cases "?d (manifest_pk S a u)")
    case None
    then have "ids = []" using ids by (simp add: manifest_ids_def rec_at_def)
    with None fin0 show ?thesis by (simp add: wp_retE)
  next
    case (Some mb)
    let ?l = "manifest_ids ?d S a u"
    have l: "py_or (pget mb SESSION_MANIFEST) (PList []) = PList ?l" "list_all is_str ?l"
      using manifest_bin[OF ok, of S a u] Some by (auto simp: rec_at_def dget_def py_or_def)
    have strs: "emap str_of ?l = Inr ids" "map PStr ids = ?l" using emap_strs[OF l(2)] ids by simp_all
    let ?stale = "filter (\<lambda>i. \<not> ?live i) ids"
    have rest: "wp (let session_pks = map (session_pk S a u) ids in
         bindE (batch_read_bins X session_pks LIST_SESSION_BINS) (\<lambda>rows.
         bindE (liftE (sort_rows a u (map (\<lambda>sid. (sid, dget rows (session_pk S a u sid) None)) ids) [] []))
           (\<lambda>(sessions, stale_ids).
              thenE (whenE (stale_ids \<noteq> []) (manifest_remove_stale X S a u (map PStr stale_ids)))
                    (retE sessions)))) Q (w\<lparr>srv := s1\<rparr>)" if ne: "ids \<noteq> []"
      unfolding Let_def wp_bindE[of "batch_read_bins _ _ _"]
    proof (rule wp_batch_read_bins, goal_cases)
      case (2 s2 rows)
      have "sort_rows a u (map (\<lambda>sid. (sid, dget rows (session_pk S a u sid) None)) ids) [] [] =
          Inr (map (listed ?d S a u) (filter ?live ids), ?stale)"
        using sort_rows_live[OF ok, of ids "\<lambda>sid. dget rows (session_pk S a u sid) None" S a u "[]" "[]"] 2 \<open>view s1 = _\<close>
        by simp
      moreover have "wp (thenE (whenE (?stale \<noteq> []) (manifest_remove_stale X S a u (map PStr ?stale)))
          (retE (map (listed ?d S a u) (filter ?live ids)))) Q (w\<lparr>srv := s2\<rparr>)"
      proof -
        have v2: "view s2 = ?d" using 2 \<open>view s1 = _\<close> by simp
        have kept: "filter (\<lambda>v. v \<notin> set (map PStr ?stale)) ?l = map PStr (filter ?live ids)"
          unfolding strs(2)[symmetric] by (auto simp: filter_map comp_def intro!: filter_cong arg_cong[where f = "map PStr"])
        have fin1: "Q (Inr (map (listed ?d S a u) (filter ?live ids))) (w\<lparr>srv := s3\<rparr>)"
          if "view s3 = manifest_drops ?d S a u (map PStr ?stale)" for s3
        proof (rule fin)
          show "manifest_ids (view (srv (w\<lparr>srv := s3\<rparr>))) S a u = map PStr (filter ?live ids)"
            using manifest_drops_ids[of ?d S a u "map PStr ?stale"] kept that by simp
        qed (simp add: that manifest_drops_other)
        show ?thesis
        proof (cases "?stale = []")
          case True
          then show ?thesis using fin1[of s2] v2 by (simp add: wp_simps)
        next
          case False
          have "wp (manifest_remove_stale X S a u (map PStr ?stale)) (\<lambda>r w'. case r of Inl e \<Rightarrow> Q (Inl e) w'
              | Inr _ \<Rightarrow> Q (Inr (map (listed ?d S a u) (filter ?live ids))) w') (w\<lparr>srv := s2\<rparr>)"
            using ok v2 big fin1 by (intro wp_remove_stale) auto
          with False show ?thesis unfolding wp_thenE wp_whenE wp_retE by simp
        qed
      qed
      ultimately show ?case by (simp add: wp_bindE wp_liftE)
    qed (use ne in simp)
    show ?thesis
      using Some l(1) strs(1) fin0 rest by (cases "ids = []") (simp_all add: wp_bindE[of "liftE _"] wp_liftE wp_retE)
  qed
qed

end

section \<open>Properties\<close>

text \<open>
  C17. Deletion is complete. After \<open>delete_session\<close> on a reliable cluster the session record and
  every segment up to one past the counter are gone, nothing else but the manifest changed, the
  id is in the manifest no more if the call returned, the cache forgot the session, and a read
  finds nothing. Deleting a session that is not there changes nothing.
\<close>

theorem delete_session_outcome:
  assumes "reliable_client X view fits" "store_ok (view (srv w))" "i \<noteq> ''sl''"
    and "\<forall>sb. view (srv w) (session_pk S a u i) = Some sb \<longrightarrow> map_of sb CUR_SEGMENT = Some (PInt cur) \<and> 0 \<le> cur"
    and "delete_session X S a u i w = (r, w')" "d = view (srv w)" "d' = view (srv w')"
  shows "if d (session_pk S a u i) = None then r = Inr () \<and> d' = d
    else d' (session_pk S a u i) = None \<and> (\<forall>g \<in> {0..cur + 1}. d' (segment_pk S a u i g) = None)
      \<and> (\<forall>k. k \<noteq> manifest_pk S a u \<longrightarrow> k \<noteq> session_pk S a u i \<longrightarrow> k \<notin> segment_pk S a u i ` {0..cur + 1} \<longrightarrow> d' k = d k)
      \<and> (r = Inr () \<and> manifest_ids d' S a u = removeAll (PStr i) (manifest_ids d S a u) \<or> r = Inl (AE RecordTooBig))
      \<and> cur_cache w' (session_key a u i) = None"
proof (cases "d (session_pk S a u i)")
  case None
  have "wp (delete_session X S a u i) (\<lambda>r w'. r = Inr () \<and> view (srv w') = d) w"
    using None assms(6) by (intro reliable_client.wp_delete_missing[OF assms(1)]) simp_all
  from wpD[OF this assms(5)] None show ?thesis by (simp add: assms(7))
next
  case (Some sb)
  let ?gone = "session_gone d S a u i cur"
  have ids: "manifest_ids ?gone S a u = manifest_ids d S a u"
  proof -
    have "manifest_pk S a u \<noteq> session_pk S a u i" using assms(3) session_pk_manifest by metis
    moreover have "manifest_pk S a u \<notin> segment_pk S a u i ` {0..cur + 1}"
      by (auto simp: segment_pk_def manifest_pk_def)
    ultimately show ?thesis by (simp add: manifest_ids_def rec_at_def session_gone_def)
  qed
  have "wp (delete_session X S a u i) (\<lambda>r w'. cur_cache w' (session_key a u i) = None
      \<and> (r = Inr () \<and> view (srv w') = manifest_drop ?gone S a u (PStr i)
         \<or> r = Inl (AE RecordTooBig) \<and> view (srv w') = ?gone)) w"
    using Some assms(2,4,6)
    by (intro reliable_client.wp_delete[OF assms(1), where sb = sb and cur = cur]) auto
  from wpD[OF this assms(5)] have c: "cur_cache w' (session_key a u i) = None"
    and v: "r = Inr () \<and> d' = manifest_drop ?gone S a u (PStr i) \<or> r = Inl (AE RecordTooBig) \<and> d' = ?gone"
    by (auto simp: assms(7))
  have same: "d' k = ?gone k" if "k \<noteq> manifest_pk S a u" for k
    using v manifest_drop_other[OF that, of ?gone "PStr i"] by auto
  have "segment_pk S a u i g \<noteq> manifest_pk S a u" for g by (simp add: segment_pk_def manifest_pk_def)
  then have "d' (session_pk S a u i) = None" "d' (segment_pk S a u i g) = None" if "g \<in> {0..cur + 1}" for g
    using same[of "session_pk S a u i"] same[of "segment_pk S a u i g"] that assms(3)
    by (auto simp: session_gone_def)
  moreover have "d' (session_pk S a u i) = None"
    using same[of "session_pk S a u i"] assms(3) by (simp add: session_gone_def)
  moreover have "d' k = d k" if "k \<noteq> manifest_pk S a u" "k \<noteq> session_pk S a u i" "k \<notin> segment_pk S a u i ` {0..cur + 1}" for k
    using same[OF that(1)] that(2,3) by (simp add: session_gone_def)
  moreover have "r = Inr () \<and> manifest_ids d' S a u = removeAll (PStr i) (manifest_ids d S a u) \<or> r = Inl (AE RecordTooBig)"
    using v ids by (auto simp: manifest_ids_drop)
  ultimately show ?thesis using Some c by (simp del: split_paired_All)
qed

theorem delete_session_outcome_witness:
  "\<exists>r w'. delete_session (calm_ext 500) demo_schema ''app'' ''ann'' ''s1'' (demo_world demo_records []) = (r, w')
     \<and> mem_view (srv w') (session_pk demo_schema ''app'' ''ann'' ''s1'') = None
     \<and> mem_view (srv w') (segment_pk demo_schema ''app'' ''ann'' ''s1'' 1) = None"
proof -
  obtain r w' where run: "delete_session (calm_ext 500) demo_schema ''app'' ''ann'' ''s1'' (demo_world demo_records []) = (r, w')"
    by fastforce
  have "\<forall>sb. mem_view (srv (demo_world demo_records [])) (session_pk demo_schema ''app'' ''ann'' ''s1'') = Some sb \<longrightarrow>
      map_of sb CUR_SEGMENT = Some (PInt 0) \<and> (0::int) \<le> 0"
    by (simp add: demo_records_def session_bins_def)
  moreover have "store_ok (mem_view (srv (demo_world demo_records [])))" using demo_store_ok by simp
  moreover have "map_of demo_records (session_pk demo_schema ''app'' ''ann'' ''s1'') \<noteq> None" by (simp add: demo_records_def)
  ultimately show ?thesis
    using delete_session_outcome[OF calm.reliable_client_axioms _ _ _ run refl refl, of 0] run by simp
qed

text \<open>
  C18. A listing shows the live sessions and repairs the manifest. \<open>list_sessions\<close> for a user
  returns, in the order of the manifest, exactly the sessions whose record exists and carries
  this application and user; every other id is taken out of the manifest, and no other record
  changes.
\<close>

theorem list_sessions_outcome:
  assumes "reliable_client X view fits" "store_ok (view (srv w))"
    and "list_sessions X S a (Some u) w = (r, w')" "d = view (srv w)"
    and "ids = map the_str (manifest_ids d S a u)"
  shows "(\<forall>k. k \<noteq> manifest_pk S a u \<longrightarrow> view (srv w') k = d k)
    \<and> (r = Inl (AE RecordTooBig)
       \<or> r = Inr (map (listed d S a u) (filter (live d S a u) ids))
         \<and> manifest_ids (view (srv w')) S a u = map PStr (filter (live d S a u) ids))"
proof -
  have "wp (list_sessions X S a (Some u)) (\<lambda>r w'. (\<forall>k. k \<noteq> manifest_pk S a u \<longrightarrow> view (srv w') k = d k)
    \<and> (r = Inl (AE RecordTooBig)
       \<or> r = Inr (map (listed d S a u) (filter (live d S a u) ids))
         \<and> manifest_ids (view (srv w')) S a u = map PStr (filter (live d S a u) ids))) w"
    by (rule reliable_client.wp_list[OF assms(1,2)]) (use assms(4,5) in \<open>simp_all del: split_paired_All\<close>)
  from wpD[OF this assms(3)] show ?thesis .
qed

definition list_records :: "(pk \<times> bins) list" where
  "list_records = (manifest_pk demo_schema ''app'' ''ann'', [(SESSION_MANIFEST, PList [PStr ''s1'', PStr ''old''])]) # demo_records"

theorem list_sessions_outcome_witness:
  "\<exists>r w'. list_sessions (calm_ext 500) demo_schema ''app'' (Some ''ann'') (demo_world list_records []) = (r, w')
     \<and> (r = Inl (AE RecordTooBig) \<or> (\<exists>s. r = Inr [s] \<and> s_id s = ''s1''))"
proof -
  obtain r w' where run: "list_sessions (calm_ext 500) demo_schema ''app'' (Some ''ann'') (demo_world list_records []) = (r, w')"
    by fastforce
  have ok: "store_ok (mem_view (srv (demo_world list_records [])))"
    by (auto simp: each_record_def list_records_def demo_records_def session_bins_def bins_ok_def split: if_splits)
  have ids: "map the_str (manifest_ids (map_of list_records) demo_schema ''app'' ''ann'') = [''s1'', ''old'']"
    by (simp add: manifest_ids_def rec_at_def list_records_def)
  have l: "live (map_of list_records) demo_schema ''app'' ''ann'' ''s1''"
    "\<not> live (map_of list_records) demo_schema ''app'' ''ann'' ''old''"
    "s_id (listed (map_of list_records) demo_schema ''app'' ''ann'' ''s1'') = ''s1''"
    by (simp_all add: live_def listed_def rec_at_def list_records_def demo_records_def session_bins_def dget_def
        session_pk_def manifest_pk_def session_key_def session_manifest_key_def key_consts)
  from list_sessions_outcome[OF calm.reliable_client_axioms ok run refl refl] run show ?thesis
    by (auto simp: ids l)
qed

end
