(* ===== verification/Artifact_Service.thy ===== *)
theory Artifact_Service
  imports Stability Keys Codec Py_Text
begin

text \<open>
  \<open>AerospikeArtifactService\<close> (\<^verbatim>\<open>artifacts/service.py\<close>): versions of a file as records with a
  counter record beside them, and the codec between a \<open>Part\<close> and the bins of a row. ADK's
  \<open>ensure_part\<close> is an argument of \<open>save_artifact\<close>. A version bin is only ever written as an
  integer, so the model's rows carry integers and refuse anything else.
\<close>

section \<open>Parts and rows\<close>

definition mime_for_part :: "part \<Rightarrow> string option exc" where
  "mime_for_part part =
     (case pt_inline_data part of
        Some b \<Rightarrow> Inr (bl_mime_type b)
      | None \<Rightarrow>
          if pt_text part \<noteq> None then Inr (Some ''text/plain'')
          else case pt_file_data part of
              Some f \<Rightarrow> Inr (fd_mime_type f)
            | None \<Rightarrow> Inl (InputValidationError ''Not supported artifact type.''))"

definition bytes_for_part :: "part \<Rightarrow> string exc" where
  "bytes_for_part part =
     (case pt_inline_data part of
        Some b \<Rightarrow> Inr (case bl_data b of None \<Rightarrow> [] | Some x \<Rightarrow> x)
      | None \<Rightarrow>
          (case pt_text part of
             Some t \<Rightarrow> Inr t
           | None \<Rightarrow>
               (case pt_file_data part of
                  Some f \<Rightarrow> Inr (case fd_file_uri f of None \<Rightarrow> [] | Some x \<Rightarrow> x)
                | None \<Rightarrow> Inl (InputValidationError ''Not supported artifact type.''))))"

fun the_bytes :: "pyval \<Rightarrow> string exc" where
  "the_bytes (PBytes b) = Inr b"
| "the_bytes v = Inl (ValidationError ''not bytes'')"

definition part_from_bins :: "bins \<Rightarrow> part exc" where
  "part_from_bins bins =
     ebind (opt_str (pget bins MIME_TYPE)) (\<lambda>mime.
     ebind (the_bytes (py_or (pget bins DATA) (PBytes []))) (\<lambda>data.
       if mime = Some ''text/plain'' then
         ebind (decode_utf8 data) (\<lambda>t. Inr \<lparr>pt_text = Some t, pt_inline_data = None, pt_file_data = None\<rparr>)
       else Inr \<lparr>pt_text = None, pt_inline_data = Some \<lparr>bl_mime_type = mime, bl_data = Some data\<rparr>,
                 pt_file_data = None\<rparr>))"

record artifact_version =
  av_version :: int
  av_canonical_uri :: string
  av_custom_metadata :: dict
  av_create_time :: rat
  av_mime_type :: "string option"

fun version_int :: "pyval \<Rightarrow> int exc" where
  "version_int (PInt v) = Inr v"
| "version_int v = Inl (TypeError ''version'')"

definition version_meta :: "string \<Rightarrow> string \<Rightarrow> string \<Rightarrow> string \<Rightarrow> bins \<Rightarrow> artifact_version exc" where
  "version_meta app_name user_id scope_id filename bins =
     ebind (version_int (dget bins VERSION (PInt 0))) (\<lambda>version.
     let canonical_uri =
       (if scope_id = USER_SCOPE_SID then
          ''aerospike://apps/'' @ app_name @ ''/users/'' @ user_id @ ''/artifacts/'' @ filename
          @ ''/versions/'' @ fmt_0d 1 version
        else
          ''aerospike://apps/'' @ app_name @ ''/users/'' @ user_id @ ''/sessions/'' @ scope_id
          @ ''/artifacts/'' @ filename @ ''/versions/'' @ fmt_0d 1 version)
     in
     ebind (dict_items (py_or (pget bins CUSTOM_META) (PDict []))) (\<lambda>custom_metadata.
     ebind (py_float (py_or (pget bins CREATE_TIME) (PFloat 0))) (\<lambda>create_time.
     ebind (opt_str (pget bins MIME_TYPE)) (\<lambda>mime_type.
       Inr \<lparr>av_version = version, av_canonical_uri = canonical_uri, av_custom_metadata = custom_metadata,
            av_create_time = create_time, av_mime_type = mime_type\<rparr>))))"

section \<open>Internals\<close>

definition scope_id_of :: "string \<Rightarrow> string option \<Rightarrow> string exc" where
  "scope_id_of filename session_id =
     (case artifact_scope_id filename session_id of
        Inl (ValueError e) \<Rightarrow> Inl (InputValidationError e)
      | r \<Rightarrow> r)"

definition head_pk :: "schema \<Rightarrow> string \<Rightarrow> string \<Rightarrow> string \<Rightarrow> string \<Rightarrow> pk" where
  "head_pk S app_name user_id scope_id filename =
     (namespace S, artifacts_set S, artifact_head_key app_name user_id scope_id filename)"

definition version_pk :: "schema \<Rightarrow> string \<Rightarrow> string \<Rightarrow> string \<Rightarrow> string \<Rightarrow> int \<Rightarrow> pk" where
  "version_pk S app_name user_id scope_id filename version =
     (namespace S, artifacts_set S, artifact_key app_name user_id scope_id filename version)"

definition allocate_ops :: "operation list" where
  "allocate_ops = [ReadBin VERSION, Increment VERSION 1]"

definition allocate_version :: "'s ext \<Rightarrow> schema \<Rightarrow> string \<Rightarrow> string \<Rightarrow> string \<Rightarrow> string \<Rightarrow> ('s, 'm, int) io" where
  "allocate_version X S app_name user_id scope_id filename =
     bindE (client_operate X (head_pk S app_name user_id scope_id filename) allocate_ops None)
       (\<lambda>result. let current = pget result VERSION in
          if current = PNone then retE 0 else liftE (py_int current))"

fun select_rows :: "string \<Rightarrow> bins list \<Rightarrow> (int \<times> bins) list exc" where
  "select_rows filename [] = Inr []"
| "select_rows filename (bins # records) =
     (if pget bins FILENAME \<noteq> PStr filename then select_rows filename records
      else if map_of bins DATA = None then select_rows filename records
      else ebind (version_int (dget bins VERSION (PInt 0))) (\<lambda>v.
        ebind (select_rows filename records) (\<lambda>out. Inr ((v, bins) # out))))"

definition rows_for ::
  "'s ext \<Rightarrow> schema \<Rightarrow> string \<Rightarrow> string \<Rightarrow> string \<Rightarrow> string \<Rightarrow> ('s, 'm, (int \<times> bins) list) io" where
  "rows_for X S app_name user_id scope_id filename =
     bindE (client_query X (namespace S) (artifacts_set S) SCOPE_TUPLE
              (PStr (scope_tuple app_name user_id scope_id)))
       (\<lambda>records. liftE (select_rows filename records))"

definition versions_for :: "'s ext \<Rightarrow> schema \<Rightarrow> string \<Rightarrow> string \<Rightarrow> string \<Rightarrow> string \<Rightarrow> ('s, 'm, int list) io" where
  "versions_for X S app_name user_id scope_id filename =
     bindE (rows_for X S app_name user_id scope_id filename) (\<lambda>rows. retE (map fst rows))"

definition row_filename :: "bins \<Rightarrow> string exc" where
  "row_filename bins =
     (case map_of bins FILENAME of None \<Rightarrow> Inl (KeyError ''filename'') | Some v \<Rightarrow> str_of v)"

definition filenames_for :: "'s ext \<Rightarrow> schema \<Rightarrow> string \<Rightarrow> string \<Rightarrow> string \<Rightarrow> ('s, 'm, string list) io" where
  "filenames_for X S app_name user_id scope_id =
     bindE (client_query X (namespace S) (artifacts_set S) SCOPE_TUPLE
              (PStr (scope_tuple app_name user_id scope_id)))
       (\<lambda>records. liftE (emap row_filename records))"

section \<open>The public methods\<close>

definition artifact_bins ::
  "string \<Rightarrow> string \<Rightarrow> string \<Rightarrow> string \<Rightarrow> int \<Rightarrow> string option \<Rightarrow> string \<Rightarrow> rat \<Rightarrow> dict option \<Rightarrow> bins" where
  "artifact_bins app_name user_id scope_id filename version mime_type data now custom_metadata =
     [(APP_NAME, PStr app_name), (USER_ID, PStr user_id), (SESSION_ID, PStr scope_id),
      (SCOPE_TUPLE, PStr (scope_tuple app_name user_id scope_id)), (FILENAME, PStr filename),
      (VERSION, PInt version), (MIME_TYPE, case mime_type of None \<Rightarrow> PNone | Some m \<Rightarrow> PStr m),
      (DATA, PBytes data), (CREATE_TIME, PFloat now),
      (CUSTOM_META, PDict (case custom_metadata of None \<Rightarrow> [] | Some c \<Rightarrow> c))]"

definition save_artifact ::
  "'s ext \<Rightarrow> ('p \<Rightarrow> part exc) \<Rightarrow> schema \<Rightarrow> string \<Rightarrow> string \<Rightarrow> string \<Rightarrow> 'p \<Rightarrow> string option \<Rightarrow> dict option
   \<Rightarrow> ('s, 'm, int) io" where
  "save_artifact X ensure_part S app_name user_id filename artifact session_id custom_metadata =
     bindE (liftE (ensure_part artifact)) (\<lambda>part.
     bindE (liftE (scope_id_of filename session_id)) (\<lambda>scope_id.
     bindE (allocate_version X S app_name user_id scope_id filename) (\<lambda>version.
     bindE (liftE (mime_for_part part)) (\<lambda>mime_type.
     bindE (liftE (bytes_for_part part)) (\<lambda>data_bytes.
     bindE (now_time X) (\<lambda>now.
     thenE (client_put X (version_pk S app_name user_id scope_id filename version)
              (artifact_bins app_name user_id scope_id filename version mime_type data_bytes now custom_metadata)
              True)
       (retE version)))))))"

text \<open>The version a caller means: the one it names, or the largest one there is.\<close>

definition chosen_version ::
  "'s ext \<Rightarrow> schema \<Rightarrow> string \<Rightarrow> string \<Rightarrow> string \<Rightarrow> string \<Rightarrow> int option \<Rightarrow> ('s, 'm, int option) io" where
  "chosen_version X S app_name user_id scope_id filename version =
     (case version of
        Some v \<Rightarrow> retE (Some v)
      | None \<Rightarrow> bindE (versions_for X S app_name user_id scope_id filename) (\<lambda>versions.
          retE (if versions = [] then None else Some (Max (set versions)))))"

definition load_artifact ::
  "'s ext \<Rightarrow> schema \<Rightarrow> string \<Rightarrow> string \<Rightarrow> string \<Rightarrow> string option \<Rightarrow> int option \<Rightarrow> ('s, 'm, part option) io" where
  "load_artifact X S app_name user_id filename session_id version =
     bindE (liftE (scope_id_of filename session_id)) (\<lambda>scope_id.
     bindE (chosen_version X S app_name user_id scope_id filename version) (\<lambda>version.
       case version of
         None \<Rightarrow> retE None
       | Some v \<Rightarrow> bindE (or_not_found (client_get X (version_pk S app_name user_id scope_id filename v))) (\<lambda>found.
           case found of
             None \<Rightarrow> retE None
           | Some bins \<Rightarrow> liftE (ebind (part_from_bins bins) (\<lambda>p. Inr (Some p))))))"

definition list_artifact_keys ::
  "'s ext \<Rightarrow> schema \<Rightarrow> string \<Rightarrow> string \<Rightarrow> string option \<Rightarrow> ('s, 'm, string list) io" where
  "list_artifact_keys X S app_name user_id session_id =
     bindE (filenames_for X S app_name user_id USER_SCOPE_SID) (\<lambda>user_files.
     bindE (case session_id of
              None \<Rightarrow> retE []
            | Some s \<Rightarrow> filenames_for X S app_name user_id s) (\<lambda>session_files.
       retE (sort (remdups (user_files @ session_files)))))"

definition delete_artifact ::
  "'s ext \<Rightarrow> schema \<Rightarrow> string \<Rightarrow> string \<Rightarrow> string \<Rightarrow> string option \<Rightarrow> ('s, 'm, unit) io" where
  "delete_artifact X S app_name user_id filename session_id =
     bindE (liftE (scope_id_of filename session_id)) (\<lambda>scope_id.
     bindE (versions_for X S app_name user_id scope_id filename) (\<lambda>versions.
     thenE (forE (\<lambda>v. bindE (or_not_found (client_remove X (version_pk S app_name user_id scope_id filename v)))
              (\<lambda>_. retE ())) versions)
       (bindE (or_not_found (client_remove X (head_pk S app_name user_id scope_id filename))) (\<lambda>_. retE ()))))"

definition list_versions ::
  "'s ext \<Rightarrow> schema \<Rightarrow> string \<Rightarrow> string \<Rightarrow> string \<Rightarrow> string option \<Rightarrow> ('s, 'm, int list) io" where
  "list_versions X S app_name user_id filename session_id =
     bindE (liftE (scope_id_of filename session_id)) (\<lambda>scope_id.
     bindE (versions_for X S app_name user_id scope_id filename) (\<lambda>versions. retE (sort versions)))"

definition list_artifact_versions ::
  "'s ext \<Rightarrow> schema \<Rightarrow> string \<Rightarrow> string \<Rightarrow> string \<Rightarrow> string option \<Rightarrow> ('s, 'm, artifact_version list) io" where
  "list_artifact_versions X S app_name user_id filename session_id =
     bindE (liftE (scope_id_of filename session_id)) (\<lambda>scope_id.
     bindE (rows_for X S app_name user_id scope_id filename) (\<lambda>rows.
       liftE (emap (\<lambda>(_, bins). version_meta app_name user_id scope_id filename bins) (sort_key fst rows))))"

definition get_artifact_version ::
  "'s ext \<Rightarrow> schema \<Rightarrow> string \<Rightarrow> string \<Rightarrow> string \<Rightarrow> string option \<Rightarrow> int option
   \<Rightarrow> ('s, 'm, artifact_version option) io" where
  "get_artifact_version X S app_name user_id filename session_id version =
     bindE (liftE (scope_id_of filename session_id)) (\<lambda>scope_id.
     bindE (chosen_version X S app_name user_id scope_id filename version) (\<lambda>version.
       case version of
         None \<Rightarrow> retE None
       | Some v \<Rightarrow> bindE (or_not_found (client_get X (version_pk S app_name user_id scope_id filename v))) (\<lambda>found.
           case found of
             None \<Rightarrow> retE None
           | Some bins \<Rightarrow> liftE (ebind (version_meta app_name user_id scope_id filename bins) (\<lambda>m. Inr (Some m))))))"

end
