(* ===== verification/Artifact_Proofs.thy ===== *)
theory Artifact_Proofs
  imports Artifact_Service Reference_Server
begin

text \<open>
  The artifact service against its specification: a file is a counter and a finite map from
  versions to rows. \<open>file_rep\<close> relates that to a store; saving, loading, listing and deleting
  are computed on the map. A stored version is never changed by a save, whatever faults occur.
\<close>

section \<open>Parts\<close>

text \<open>What comes back for a part that was saved.\<close>

definition reloaded :: "string option \<Rightarrow> string \<Rightarrow> part" where
  "reloaded mime data =
     (if mime = Some ''text/plain'' then \<lparr>pt_text = Some data, pt_inline_data = None, pt_file_data = None\<rparr>
      else \<lparr>pt_text = None, pt_inline_data = Some \<lparr>bl_mime_type = mime, bl_data = Some data\<rparr>, pt_file_data = None\<rparr>)"

lemma map_of_put_artifact:
  "map_of (put_bins [] (artifact_bins a u s f v m b now c)) =
     (map_of (artifact_bins a u s f v m b now c))(MIME_TYPE := map_option PStr m)"
  by (cases m) (auto simp: artifact_bins_def fun_eq_iff)

lemma stored_part:
  assumes "m = Some ''text/plain'' \<longrightarrow> utf8_valid b"
    and "map_of bs MIME_TYPE = map_option PStr m" "map_of bs DATA = Some (PBytes b)"
  shows "part_from_bins bs = Inr (reloaded m b)"
  using assms
  by (cases m; cases "b = []")
    (auto simp: part_from_bins_def dget_def py_or_def decode_utf8_def reloaded_def)

section \<open>A file as a map from versions to rows\<close>

definition head_count :: "db \<Rightarrow> pk \<Rightarrow> int option" where
  "head_count d k = (case d k of
     None \<Rightarrow> Some 0
   | Some bs \<Rightarrow> (case map_of bs VERSION of Some (PInt n) \<Rightarrow> Some n | _ \<Rightarrow> None))"

definition is_row :: "string \<Rightarrow> string \<Rightarrow> bins \<Rightarrow> bool" where
  "is_row t f bs \<longleftrightarrow> map_of bs SCOPE_TUPLE = Some (PStr t) \<and> map_of bs FILENAME = Some (PStr f) \<and> map_of bs DATA \<noteq> None"

definition file_rep ::
  "schema \<Rightarrow> db \<Rightarrow> string \<Rightarrow> string \<Rightarrow> string \<Rightarrow> string \<Rightarrow> int \<Rightarrow> (int \<Rightarrow> bins option) \<Rightarrow> bool" where
  "file_rep S d a u s f n m \<longleftrightarrow>
     m = (\<lambda>v. d (version_pk S a u s f v)) \<and> dom m \<subseteq> {0..<n} \<and> 0 \<le> n
     \<and> head_count d (head_pk S a u s f) = Some n
     \<and> (\<forall>v bs. m v = Some bs \<longrightarrow> is_row (scope_tuple a u s) f bs \<and> map_of bs VERSION = Some (PInt v))
     \<and> (\<forall>k bs. d (namespace S, artifacts_set S, k) = Some bs \<longrightarrow> is_row (scope_tuple a u s) f bs \<longrightarrow>
          (\<exists>v. k = artifact_key a u s f v))"

lemma version_pk_inject [simp]: "version_pk S a u s f v = version_pk S a u s f v' \<longleftrightarrow> v = v'"
  by (simp add: version_pk_def)

lemma head_not_version [simp]:
  "head_pk S a u s f \<noteq> version_pk S a' u' s' f' v" "version_pk S a' u' s' f' v \<noteq> head_pk S a u s f"
  by (simp_all add: version_pk_def head_pk_def)

lemma version_pk_image [simp]: "version_pk S a u s f v \<in> version_pk S a u s f ` V \<longleftrightarrow> v \<in> V"
  by auto

definition row_version :: "bins \<Rightarrow> int" where
  "row_version bs = (case map_of bs VERSION of Some (PInt v) \<Rightarrow> v | _ \<Rightarrow> 0)"

lemma select_rows_filter:
  assumes "\<forall>bs \<in> set rows. is_row t f bs \<longrightarrow> (\<exists>v. map_of bs VERSION = Some (PInt v))"
    and "\<forall>bs \<in> set rows. map_of bs SCOPE_TUPLE = Some (PStr t)"
  shows "select_rows f rows = Inr (map (\<lambda>bs. (row_version bs, bs)) (filter (is_row t f) rows))"
  using assms
proof (induction rows)
  case (Cons bs rows)
  show ?case
  proof (cases "is_row t f bs")
    case True
    then obtain v where "map_of bs VERSION = Some (PInt v)" using Cons.prems by auto
    with True Cons show ?thesis by (auto simp: is_row_def dget_def row_version_def)
  next
    case False
    then have "pget bs FILENAME \<noteq> PStr f \<or> map_of bs DATA = None"
      using Cons.prems(2) by (auto simp: is_row_def dget_def split: option.splits)
    with False Cons show ?thesis by auto
  qed
qed simp

lemma file_rep_count: "file_rep S d a u s f n m \<Longrightarrow> head_count d (head_pk S a u s f) = Some n"
  and file_rep_map: "file_rep S d a u s f n m \<Longrightarrow> m v = d (version_pk S a u s f v)"
  and file_rep_dom: "file_rep S d a u s f n m \<Longrightarrow> dom m \<subseteq> {0..<n} \<and> 0 \<le> n"
  and file_rep_row: "file_rep S d a u s f n m \<Longrightarrow> m v = Some bs \<Longrightarrow>
    is_row (scope_tuple a u s) f bs \<and> map_of bs VERSION = Some (PInt v)"
  unfolding file_rep_def by blast+

text \<open>Every row of the scope that carries the file name is one of the file's versions.\<close>

lemma file_rowE:
  assumes rep: "file_rep S d a u s f n m" and row: "is_row (scope_tuple a u s) f bs"
    and k: "k \<in> matching (namespace S) (artifacts_set S) SCOPE_TUPLE t d" "d k = Some bs"
  obtains "k = version_pk S a u s f (row_version bs)" "m (row_version bs) = Some bs"
    "map_of bs VERSION = Some (PInt (row_version bs))"
proof -
  from k(1) obtain key where key: "k = (namespace S, artifacts_set S, key)" by (rule matchingE)
  with k row have "\<exists>v. key = artifact_key a u s f v" using rep unfolding file_rep_def by blast
  then obtain v where v: "k = version_pk S a u s f v" by (auto simp: key version_pk_def)
  have m: "m v = Some bs" using k(2) v file_rep_map[OF rep] by simp
  with file_rep_row[OF rep] have "map_of bs VERSION = Some (PInt v)" by blast
  then have "row_version bs = v" "map_of bs VERSION = Some (PInt (row_version bs))"
    by (simp_all add: row_version_def)
  then show thesis using that v m by simp
qed

text \<open>The rows a query returns for a file: one per stored version, in some order.\<close>

lemma query_rows_versions:
  assumes rep: "file_rep S d a u s f n m"
    and ks: "distinct ks" "set ks = matching (namespace S) (artifacts_set S) SCOPE_TUPLE (PStr (scope_tuple a u s)) d"
    and rows: "map Some rows = map d ks"
  obtains out where "select_rows f rows = Inr out" "distinct (map fst out)" "fst ` set out = dom m"
    "\<And>v bs. (v, bs) \<in> set out \<Longrightarrow> m v = Some bs"
proof -
  let ?t = "scope_tuple a u s"
  let ?mine = "filter (is_row ?t f) rows"
  let ?out = "map (\<lambda>bs. (row_version bs, bs)) ?mine"
  have row_key: "\<exists>k \<in> set ks. d k = Some bs" if "bs \<in> set rows" for bs
  proof -
    have "Some bs \<in> set (map d ks)" using that unfolding rows[symmetric] by simp
    then show ?thesis unfolding set_map by (elim imageE) (rule bexI, erule sym)
  qed
  have scope: "map_of bs SCOPE_TUPLE = Some (PStr ?t)" if "bs \<in> set rows" for bs
  proof -
    from row_key[OF that] obtain k where "k \<in> set ks" "d k = Some bs" by blast
    then show ?thesis unfolding ks(2) by (elim matchingE) simp
  qed
  have at: "m (row_version bs) = Some bs \<and> map_of bs VERSION = Some (PInt (row_version bs))"
    if bs: "bs \<in> set rows" "is_row ?t f bs" for bs
  proof -
    from row_key[OF bs(1)] obtain k where "k \<in> set ks" "d k = Some bs" by blast
    then show ?thesis unfolding ks(2) by (rule file_rowE[OF rep bs(2)]) (rule conjI)
  qed
  have sel: "select_rows f rows = Inr ?out"
    using at scope by (intro select_rows_filter) blast+
  have found: "v \<in> row_version ` set ?mine" if m: "m v = Some bs" for v bs
  proof -
    have r: "is_row ?t f bs" "map_of bs VERSION = Some (PInt v)" using file_rep_row[OF rep m] by blast+
    have d: "d (version_pk S a u s f v) = Some bs" using m file_rep_map[OF rep] by simp
    then have "version_pk S a u s f v \<in> set ks"
      using r(1) by (simp add: ks(2) matching_def version_pk_def is_row_def)
    then have "d (version_pk S a u s f v) \<in> set (map d ks)" unfolding set_map by (rule imageI)
    then have "bs \<in> set ?mine" using d r(1) unfolding rows[symmetric] by auto
    moreover have "row_version bs = v" using r(2) by (simp add: row_version_def)
    ultimately show ?thesis by blast
  qed
  have inj: "inj_on row_version (set ?mine)"
  proof (rule inj_onI)
    fix b b' assume b: "b \<in> set ?mine" "b' \<in> set ?mine" and eq: "row_version b = row_version b'"
    have "Some b = m (row_version b)" using b at by simp
    also have "\<dots> = Some b'" unfolding eq using b at by simp
    finally show "b = b'" by simp
  qed
  have "distinct (map d (filter (\<lambda>k. \<exists>bs. d k = Some bs \<and> is_row ?t f bs) ks))"
  proof (unfold distinct_map, intro conjI inj_onI)
    show "distinct (filter (\<lambda>k. \<exists>bs. d k = Some bs \<and> is_row ?t f bs) ks)" using ks(1) by simp
    fix k k' assume k: "k \<in> set (filter (\<lambda>k. \<exists>bs. d k = Some bs \<and> is_row ?t f bs) ks)"
      "k' \<in> set (filter (\<lambda>k. \<exists>bs. d k = Some bs \<and> is_row ?t f bs) ks)" and eq: "d k = d k'"
    from k(1) obtain bs where bs: "is_row ?t f bs" "d k = Some bs" unfolding set_filter by blast
    have "x = version_pk S a u s f (row_version bs)" if "x \<in> set ks" "d x = Some bs" for x
      using that unfolding ks(2) by (rule file_rowE[OF rep bs(1)])
    from this[of k] this[of k'] k bs eq show "k = k'" by simp
  qed
  also have "map d (filter (\<lambda>k. \<exists>bs. d k = Some bs \<and> is_row ?t f bs) ks) =
      filter (\<lambda>r. \<exists>bs. r = Some bs \<and> is_row ?t f bs) (map d ks)"
    by (simp add: filter_map comp_def)
  also have "\<dots> = map Some ?mine" unfolding rows[symmetric] by (simp add: filter_map comp_def)
  finally have "distinct ?mine" by (simp add: distinct_map)
  with inj have "distinct (map fst ?out)" by (simp add: distinct_map comp_def)
  moreover have "fst ` set ?out = dom m"
  proof
    show "fst ` set ?out \<subseteq> dom m" using at by auto
    show "dom m \<subseteq> fst ` set ?out" using found by (auto simp: image_comp comp_def)
  qed
  moreover have "m v = Some bs" if "(v, bs) \<in> set ?out" for v bs using that at by auto
  ultimately show thesis using sel by (intro that[of ?out])
qed

section \<open>Saving\<close>

text \<open>The row a caller asks for: the version it names, or the largest.\<close>

definition latest :: "(int \<Rightarrow> bins option) \<Rightarrow> int option \<Rightarrow> bins option" where
  "latest m v = (case v of Some v \<Rightarrow> m v | None \<Rightarrow> if m = Map.empty then None else m (Max (dom m)))"

definition counter_fits :: "(bins \<Rightarrow> bool) \<Rightarrow> db \<Rightarrow> pk \<Rightarrow> bool" where
  "counter_fits fits d k \<longleftrightarrow> (\<forall>n. fits (dset VERSION (PInt n) (rec_at d k)))"

definition counted :: "db \<Rightarrow> pk \<Rightarrow> int \<Rightarrow> db" where
  "counted d k n = d(k \<mapsto> dset VERSION (PInt n) (rec_at d k))"

lemma head_count_counted [simp]: "head_count (counted d k n) k = Some n"
  by (simp add: head_count_def counted_def)

lemma counted_other [simp]: "k' \<noteq> k \<Longrightarrow> counted d k n k' = d k'"
  by (simp add: counted_def)

definition stored_row ::
  "string \<Rightarrow> string \<Rightarrow> string \<Rightarrow> string \<Rightarrow> int \<Rightarrow> string option \<Rightarrow> string \<Rightarrow> rat \<Rightarrow> dict option \<Rightarrow> bins" where
  "stored_row a u s f v mime data now meta = put_bins [] (artifact_bins a u s f v mime data now meta)"

lemma stored_row_is_row [simp]:
  "is_row (scope_tuple a u s) f (stored_row a u s f v mime data now meta)"
  "map_of (stored_row a u s f v mime data now meta) VERSION = Some (PInt v)"
  by (simp_all add: stored_row_def map_of_put_artifact is_row_def) (simp_all add: artifact_bins_def)

lemma stored_row_is_row_iff:
  "is_row t f' (stored_row a u s f v mime data now meta) \<longleftrightarrow> t = scope_tuple a u s \<and> f' = f"
  by (auto simp: stored_row_def map_of_put_artifact is_row_def artifact_bins_def)

lemma operate_allocate:
  assumes "head_count d k = Some n" "counter_fits fits d k"
  shows "\<exists>out. operate_db fits k allocate_ops None d = (Inr out, counted d k (n + 1))
    \<and> pget out VERSION = (if d k = None then PNone else PInt n)"
proof (cases "d k")
  case None
  with assms show ?thesis
    by (simp add: head_count_def counter_fits_def counted_def rec_at_def operate_db_def run_ops_def
        allocate_ops_def dget_def)
next
  case (Some bs)
  with assms(1) have "map_of bs VERSION = Some (PInt n)"
    by (simp add: head_count_def split: option.splits pyval.splits)
  with Some assms(2) show ?thesis
    by (simp add: counter_fits_def counted_def rec_at_def operate_db_def run_ops_def allocate_ops_def)
qed

context reliable_client begin

lemma wp_allocate:
  assumes n: "head_count (view (srv w)) (head_pk S a u s f) = Some n"
    and fit: "counter_fits fits (view (srv w)) (head_pk S a u s f)"
    and Q: "\<And>s'. view s' = counted (view (srv w)) (head_pk S a u s f) (n + 1) \<Longrightarrow> Q (Inr n) (w\<lparr>srv := s'\<rparr>)"
  shows "wp (allocate_version X S a u s f) Q w"
  unfolding allocate_version_def wp_bindE
proof (rule wp_operate)
  obtain out where out: "operate_db fits (head_pk S a u s f) allocate_ops None (view (srv w)) =
      (Inr out, counted (view (srv w)) (head_pk S a u s f) (n + 1))"
    "pget out VERSION = (if view (srv w) (head_pk S a u s f) = None then PNone else PInt n)"
    using operate_allocate[OF n fit] by blast
  have zero: "view (srv w) (head_pk S a u s f) = None \<Longrightarrow> n = 0" using n by (simp add: head_count_def)
  show "case lift_ae (fst (operate_db fits (head_pk S a u s f) allocate_ops None (view (srv w)))) of
      Inl e \<Rightarrow> Q (Inl e) (w\<lparr>srv := s'\<rparr>)
    | Inr result \<Rightarrow> wp (let current = pget result VERSION in if current = PNone then retE 0 else liftE (py_int current)) Q (w\<lparr>srv := s'\<rparr>)"
    if "view s' = snd (operate_db fits (head_pk S a u s f) allocate_ops None (view (srv w)))" for s'
    using that out Q[of s'] zero by (auto simp: wp_simps Let_def)
qed simp

text \<open>Saving a part whose mime type and bytes are known: the row goes in under the counter's value.\<close>

lemma wp_save:
  assumes part: "ensure_part x = Inr p" "mime_for_part p = Inr mime" "bytes_for_part p = Inr data"
    and scope: "scope_id_of f sid = Inr s"
    and n: "head_count d (head_pk S a u s f) = Some n" "counter_fits fits d (head_pk S a u s f)"
    and free: "d (version_pk S a u s f n) = None" and d: "d = view (srv w)"
  shows "wp (save_artifact X ensure_part S a u f x sid meta) (\<lambda>r w'. \<exists>now.
      let row = stored_row a u s f n mime data now meta; d1 = counted d (head_pk S a u s f) (n + 1) in
      if fits row then r = Inr n \<and> view (srv w') = d1(version_pk S a u s f n \<mapsto> row)
      else r = Inl (AE RecordTooBig) \<and> view (srv w') = d1) w"
proof -
  have free1: "counted d (head_pk S a u s f) (n + 1) (version_pk S a u s f n) = None" using free by simp
  show ?thesis
    unfolding save_artifact_def part scope wp_bindE wp_liftE sum.case
    apply (rule wp_allocate[where n = n], use n d in simp, use n d in simp)
    apply (simp only: sum.case wp_simps)
    apply (rule wp_now_time)
    apply (simp only: sum.case wp_simps)
    apply (rule wp_put)
    subgoal for s1 s2 now s3
      using free1 by (cases "fits (stored_row a u s f n mime data now meta)")
        (auto intro!: exI[of _ now] simp: put_db_def stored_row_def Let_def d)
    done
qed

lemma wp_save_unsupported:
  assumes part: "ensure_part x = Inr p" "mime_for_part p = Inl e" and scope: "scope_id_of f sid = Inr s"
    and n: "head_count d (head_pk S a u s f) = Some n" "counter_fits fits d (head_pk S a u s f)"
    and d: "d = view (srv w)"
  shows "wp (save_artifact X ensure_part S a u f x sid meta)
    (\<lambda>r w'. r = Inl e \<and> view (srv w') = counted d (head_pk S a u s f) (n + 1)) w"
  unfolding save_artifact_def part scope wp_bindE wp_liftE sum.case
  by (rule wp_allocate[where n = n]) (use n d in \<open>simp_all add: wp_simps\<close>)

section \<open>Reading\<close>

lemma wp_rows:
  assumes rep: "file_rep S (view (srv w)) a u s f n m"
    and Q: "\<And>s' rows. view s' = view (srv w) \<Longrightarrow> distinct (map fst rows) \<Longrightarrow> fst ` set rows = dom m \<Longrightarrow>
      (\<And>v bs. (v, bs) \<in> set rows \<Longrightarrow> m v = Some bs) \<Longrightarrow> Q (Inr rows) (w\<lparr>srv := s'\<rparr>)"
  shows "wp (rows_for X S a u s f) Q w"
  unfolding rows_for_def wp_bindE
proof (rule wp_query)
  fix s' rows ks
  assume "view s' = view (srv w)" "distinct ks" "map Some rows = map (view (srv w)) ks"
    "set ks = matching (namespace S) (artifacts_set S) SCOPE_TUPLE (PStr (scope_tuple a u s)) (view (srv w))"
  note q = this
  obtain out where "select_rows f rows = Inr out" "distinct (map fst out)" "fst ` set out = dom m"
    "\<And>v bs. (v, bs) \<in> set out \<Longrightarrow> m v = Some bs"
    by (rule query_rows_versions[OF rep q(2,4,3)]) blast
  then show "case Inr rows of Inl e \<Rightarrow> Q (Inl e) (w\<lparr>srv := s'\<rparr>)
      | Inr x \<Rightarrow> wp (liftE (select_rows f x)) Q (w\<lparr>srv := s'\<rparr>)"
    using Q[OF q(1)] by (simp add: wp_simps)
qed

lemma wp_versions:
  assumes rep: "file_rep S (view (srv w)) a u s f n m"
    and Q: "\<And>s' vs. view s' = view (srv w) \<Longrightarrow> distinct vs \<Longrightarrow> set vs = dom m \<Longrightarrow> Q (Inr vs) (w\<lparr>srv := s'\<rparr>)"
  shows "wp (versions_for X S a u s f) Q w"
  unfolding versions_for_def wp_bindE
  by (rule wp_rows[OF rep]) (use Q in \<open>simp add: wp_simps\<close>)

lemma wp_chosen:
  assumes rep: "file_rep S (view (srv w)) a u s f n m"
    and Q: "\<And>s' c. view s' = view (srv w) \<Longrightarrow>
      latest m v = (case c of None \<Rightarrow> None | Some x \<Rightarrow> view (srv w) (version_pk S a u s f x)) \<Longrightarrow> Q (Inr c) (w\<lparr>srv := s'\<rparr>)"
  shows "wp (chosen_version X S a u s f v) Q w"
proof (cases v)
  case None
  show ?thesis unfolding chosen_version_def None option.case wp_bindE
  proof (rule wp_versions[OF rep])
    fix s' vs assume s': "view s' = view (srv w)" and vs: "set vs = dom m"
    have "latest m v = (case if vs = [] then None else Some (Max (set vs)) of None \<Rightarrow> None
        | Some x \<Rightarrow> view (srv w) (version_pk S a u s f x))"
      using vs None by (auto simp: latest_def file_rep_map[OF rep, symmetric])
    from Q[OF s' this] show "case Inr vs of Inl e \<Rightarrow> Q (Inl e) (w\<lparr>srv := s'\<rparr>)
      | Inr vs \<Rightarrow> wp (retE (if vs = [] then None else Some (Max (set vs)))) Q (w\<lparr>srv := s'\<rparr>)"
      by (simp add: wp_simps)
  qed
next
  case (Some x)
  show ?thesis using Q[of "srv w" "Some x"]
    by (simp add: chosen_version_def Some wp_simps latest_def file_rep_map[OF rep])
qed

text \<open>The end that \<open>load_artifact\<close> and \<open>get_artifact_version\<close> share.\<close>

lemma wp_fetch:
  assumes rep: "file_rep S (view (srv w)) a u s f n m"
    and Q: "\<And>s'. view s' = view (srv w) \<Longrightarrow>
      Q (case latest m v of None \<Rightarrow> Inr None | Some bs \<Rightarrow> ebind (h bs) (\<lambda>p. Inr (Some p))) (w\<lparr>srv := s'\<rparr>)"
  shows "wp (bindE (chosen_version X S a u s f v) (\<lambda>version.
       case version of
         None \<Rightarrow> retE None
       | Some v \<Rightarrow> bindE (or_not_found (client_get X (version_pk S a u s f v))) (\<lambda>found.
           case found of
             None \<Rightarrow> retE None
           | Some bins \<Rightarrow> liftE (ebind (h bins) (\<lambda>p. Inr (Some p)))))) Q w"
  unfolding wp_bindE[of "chosen_version _ _ _ _ _ _ _"]
proof (rule wp_chosen[OF rep, where v = v], goal_cases)
  case (1 s1 c)
  show ?case
  proof (cases c)
    case None
    with 1 Q[of s1] show ?thesis by (simp add: wp_simps)
  next
    case (Some x)
    show ?thesis
      unfolding Some sum.case option.case wp_bindE[of "or_not_found _"] wp_or_not_found
    proof (rule wp_get, goal_cases)
      case (1 s2)
      with \<open>view s1 = view (srv w)\<close> have "view s2 = view (srv w)" by simp
      from Q[OF this] 1 \<open>view s1 = view (srv w)\<close> Some
      show ?case by (auto simp: \<open>latest m v = _\<close> wp_simps split: option.splits)
    qed
  qed
qed

lemma wp_load:
  assumes rep: "file_rep S (view (srv w)) a u s f n m" and scope: "scope_id_of f sid = Inr s"
    and Q: "\<And>s'. view s' = view (srv w) \<Longrightarrow>
      Q (case latest m v of None \<Rightarrow> Inr None | Some bs \<Rightarrow> ebind (part_from_bins bs) (\<lambda>p. Inr (Some p))) (w\<lparr>srv := s'\<rparr>)"
  shows "wp (load_artifact X S a u f sid v) Q w"
  unfolding load_artifact_def scope wp_bindE[of "liftE _"] wp_liftE sum.case by (rule wp_fetch[OF rep]) (rule Q)

lemma wp_get_meta:
  assumes rep: "file_rep S (view (srv w)) a u s f n m" and scope: "scope_id_of f sid = Inr s"
    and Q: "\<And>s'. view s' = view (srv w) \<Longrightarrow>
      Q (case latest m v of None \<Rightarrow> Inr None | Some bs \<Rightarrow> ebind (version_meta a u s f bs) (\<lambda>p. Inr (Some p))) (w\<lparr>srv := s'\<rparr>)"
  shows "wp (get_artifact_version X S a u f sid v) Q w"
  unfolding get_artifact_version_def scope wp_bindE[of "liftE _"] wp_liftE sum.case by (rule wp_fetch[OF rep]) (rule Q)

lemma wp_list_versions:
  assumes rep: "file_rep S (view (srv w)) a u s f n m" and scope: "scope_id_of f sid = Inr s"
    and Q: "\<And>s'. view s' = view (srv w) \<Longrightarrow> Q (Inr (sorted_list_of_set (dom m))) (w\<lparr>srv := s'\<rparr>)"
  shows "wp (list_versions X S a u f sid) Q w"
  unfolding list_versions_def scope wp_bindE wp_liftE sum.case
proof (rule wp_versions[OF rep], goal_cases)
  case (1 s' vs)
  then have "sort vs = sorted_list_of_set (dom m)"
    by (metis sorted_list_of_set_sort_remdups distinct_remdups_id)
  with Q[OF 1(1)] show ?case by (simp add: wp_simps)
qed

lemma wp_delete_artifact:
  assumes rep: "file_rep S (view (srv w)) a u s f n m" and scope: "scope_id_of f sid = Inr s"
    and Q: "\<And>s'. view s' = (\<lambda>k. if k = head_pk S a u s f \<or> k \<in> version_pk S a u s f ` dom m then None else view (srv w) k) \<Longrightarrow>
      Q (Inr ()) (w\<lparr>srv := s'\<rparr>)"
  shows "wp (delete_artifact X S a u f sid) Q w"
  unfolding delete_artifact_def scope wp_bindE[of "liftE _"] wp_bindE[of "versions_for _ _ _ _ _ _"] wp_liftE sum.case
proof (rule wp_versions[OF rep], goal_cases)
  case (1 s1 vs)
  show ?case
    unfolding sum.case wp_thenE
  proof (rule wp_remove_all, goal_cases)
    case (1 s2)
    show ?case
      unfolding sum.case wp_bindE wp_or_not_found wp_retE
    proof (rule wp_remove, goal_cases)
      case (1 s3)
      have "view s3 = (\<lambda>k. if k = head_pk S a u s f \<or> k \<in> version_pk S a u s f ` dom m then None else view (srv w) k)"
        using 1 \<open>view s2 = _\<close> \<open>view s1 = _\<close> \<open>set vs = dom m\<close> by (auto simp: fun_eq_iff simp del: split_paired_All)
      from Q[OF this] show ?case by simp
    qed
  qed
qed

end

section \<open>What saving and deleting do to the files\<close>

lemma file_rep_counted:
  assumes "file_rep S d a u s f n m"
  shows "file_rep S (counted d (head_pk S a u s f) (n + 1)) a u s f (n + 1) m"
proof -
  have "\<exists>v. k = artifact_key a u s f v"
    if k: "counted d (head_pk S a u s f) (n + 1) (namespace S, artifacts_set S, k) = Some bs"
      "is_row (scope_tuple a u s) f bs" for k bs
  proof (cases "(namespace S, artifacts_set S, k) = head_pk S a u s f")
    case True
    have "rec_at d (head_pk S a u s f) \<noteq> []" "is_row (scope_tuple a u s) f (rec_at d (head_pk S a u s f))"
      using k True by (auto simp: counted_def is_row_def)
    then have "d (namespace S, artifacts_set S, k) = Some (rec_at d (head_pk S a u s f))"
      using True by (auto simp: rec_at_def split: option.splits)
    then show ?thesis using assms k True \<open>is_row _ _ (rec_at d _)\<close> unfolding file_rep_def by blast
  next
    case False
    then have "d (namespace S, artifacts_set S, k) = Some bs" using k by simp
    then show ?thesis using assms k(2) unfolding file_rep_def by blast
  qed
  moreover have "dom m \<subseteq> {0..<n + 1}" using file_rep_dom[OF assms] by auto
  ultimately show ?thesis
    using file_rep_dom[OF assms] file_rep_row[OF assms] file_rep_map[OF assms] by (auto simp: file_rep_def)
qed

lemma file_rep_stored:
  assumes "file_rep S d a u s f n m" "0 \<le> v" "v < n" "is_row (scope_tuple a u s) f row" "map_of row VERSION = Some (PInt v)"
  shows "file_rep S (d(version_pk S a u s f v \<mapsto> row)) a u s f n (m(v \<mapsto> row))"
  using assms by (auto simp: file_rep_def head_count_def fun_eq_iff version_pk_def head_pk_def)

lemma file_rep_saved:
  assumes "file_rep S d a u s f n m"
  shows "file_rep S ((counted d (head_pk S a u s f) (n + 1))(version_pk S a u s f n \<mapsto> stored_row a u s f n mime data now meta))
    a u s f (n + 1) (m(n \<mapsto> stored_row a u s f n mime data now meta))"
  using file_rep_dom[OF assms] by (intro file_rep_stored file_rep_counted[OF assms]) simp_all

lemma file_rep_deleted:
  assumes "file_rep S d a u s f n m"
  shows "file_rep S (\<lambda>k. if k = head_pk S a u s f \<or> k \<in> version_pk S a u s f ` dom m then None else d k) a u s f 0 Map.empty"
  using assms by (auto simp: file_rep_def head_count_def fun_eq_iff)

end
