(* ===== verification/Artifact_Contract.thy ===== *)
theory Artifact_Contract
  imports Artifact_Proofs
begin

text \<open>
  What the artifact service promises: stored versions are immutable and rows keep their shape
  whatever the cluster does, and on a reliable cluster a file is a counter with a map from
  version numbers to rows, which the methods read and update as their names say.
\<close>

section \<open>The shape of the rows\<close>

definition artifact_row_ok :: "bins \<Rightarrow> bool" where
  "artifact_row_ok bs \<longleftrightarrow>
     (case map_of bs SCOPE_TUPLE of None \<Rightarrow> True
      | Some _ \<Rightarrow> (\<exists>f. map_of bs FILENAME = Some (PStr f)) \<and> (\<exists>v. map_of bs VERSION = Some (PInt v))
          \<and> (\<exists>b. map_of bs DATA = Some (PBytes b)) \<and> (\<exists>c. map_of bs CUSTOM_META = Some (PDict c))
          \<and> (\<exists>t. map_of bs CREATE_TIME = Some (PFloat t))
          \<and> (map_of bs MIME_TYPE = None \<or> (\<exists>t. map_of bs MIME_TYPE = Some (PStr t))))"

definition artifact_store_ok :: "schema \<Rightarrow> pk \<Rightarrow> bins \<Rightarrow> bool" where
  "artifact_store_ok S k bs \<longleftrightarrow> (fst k = namespace S \<and> fst (snd k) = artifacts_set S \<longrightarrow> artifact_row_ok bs)"

lemma artifact_put_ok: "artifact_row_ok (put_bins old (artifact_bins a u s f v mime data now meta))"
  by (cases mime) (simp_all add: artifact_row_ok_def artifact_bins_def)

lemma allocate_keeps_ok: "list_all (op_keeps artifact_row_ok) allocate_ops"
  by (auto simp: allocate_ops_def op_keeps_def artifact_row_ok_def split: option.splits pyval.splits)

context aerospike_client begin

lemma keeps_save:
  assumes "\<And>s. stable fits (x_code X) P (ROperate (head_pk S a u s f) allocate_ops None)"
    and "\<And>s v mime data now. stable fits (x_code X) P
      (RPut (version_pk S a u s f v) (artifact_bins a u s f v mime data now meta) True)"
  shows "keeps view P (save_artifact X ensure_part S a u f x sid meta)"
  unfolding save_artifact_def allocate_version_def Let_def
  by (intro keeps_intros keeps_operate keeps_put keeps_now_time assms)

lemma keeps_rows: "keeps view P (rows_for X S a u s f)"
  and keeps_versions: "keeps view P (versions_for X S a u s f)"
  and keeps_filenames: "keeps view P (filenames_for X S a u s)"
  and keeps_chosen: "keeps view P (chosen_version X S a u s f v)"
  unfolding rows_for_def versions_for_def filenames_for_def chosen_version_def
  by (intro keeps_intros keeps_query)+

lemma keeps_load: "keeps view P (load_artifact X S a u f sid v)"
  and keeps_keys: "keeps view P (list_artifact_keys X S a u sid)"
  and keeps_list_versions: "keeps view P (list_versions X S a u f sid)"
  and keeps_metas: "keeps view P (list_artifact_versions X S a u f sid)"
  and keeps_meta: "keeps view P (get_artifact_version X S a u f sid v)"
  unfolding load_artifact_def list_artifact_keys_def list_versions_def list_artifact_versions_def get_artifact_version_def
  by (intro keeps_intros keeps_chosen keeps_filenames keeps_rows keeps_versions keeps_get)+

lemma keeps_delete:
  assumes "\<And>s. stable fits (x_code X) P (RRemove (head_pk S a u s f))"
    "\<And>s v. stable fits (x_code X) P (RRemove (version_pk S a u s f v))"
  shows "keeps view P (delete_artifact X S a u f sid)"
  unfolding delete_artifact_def by (intro keeps_intros keeps_versions keeps_remove assms)

end

section \<open>Files beside each other\<close>

lemma artifact_key_fields:
  assumes "no_colon a" "no_colon u" "no_colon s" "no_colon a'" "no_colon u'" "no_colon s'"
  shows "artifact_key a u s f v = artifact_key a' u' s' f' v' \<longleftrightarrow> a = a' \<and> u = u' \<and> s = s' \<and> f = f' \<and> v = v'"
    and "artifact_head_key a u s f = artifact_head_key a' u' s' f' \<longleftrightarrow> a = a' \<and> u = u' \<and> s = s' \<and> f = f'"
    and "scope_tuple a u s = scope_tuple a' u' s' \<longleftrightarrow> a = a' \<and> u = u' \<and> s = s'"
  using assms last_field_eq[of "fmt_0d 8 v" "fmt_0d 8 v'" f f']
  by (auto simp: artifact_key_def artifact_head_key_def scope_tuple_def SEP_def first_field_eq)

text \<open>A write to one file leaves every other file what it was.\<close>

lemma file_rep_frame:
  assumes rep: "file_rep S d a' u' s' f' n m"
    and same: "d' (head_pk S a' u' s' f') = d (head_pk S a' u' s' f')" "\<And>v. d' (version_pk S a' u' s' f' v) = d (version_pk S a' u' s' f' v)"
    and new: "\<And>k bs. d' (namespace S, artifacts_set S, k) = Some bs \<Longrightarrow> d (namespace S, artifacts_set S, k) \<noteq> Some bs \<Longrightarrow>
      \<not> is_row (scope_tuple a' u' s') f' bs"
  shows "file_rep S d' a' u' s' f' n m"
proof -
  have "\<exists>v. k = artifact_key a' u' s' f' v" if "d' (namespace S, artifacts_set S, k) = Some bs" "is_row (scope_tuple a' u' s') f' bs" for k bs
    using rep new[OF that(1)] that(2) unfolding file_rep_def by blast
  then show ?thesis using rep same by (auto simp: file_rep_def head_count_def)
qed

lemma other_file_counted:
  assumes rep: "file_rep S d a' u' s' f' n m" and other: "head_pk S a u s f \<noteq> head_pk S a' u' s' f'"
  shows "file_rep S (counted d (head_pk S a u s f) c) a' u' s' f' n m"
proof (rule file_rep_frame[OF rep])
  show "counted d (head_pk S a u s f) c (head_pk S a' u' s' f') = d (head_pk S a' u' s' f')" using other by simp
  show "counted d (head_pk S a u s f) c (version_pk S a' u' s' f' v) = d (version_pk S a' u' s' f' v)" for v by simp
  fix k bs assume "counted d (head_pk S a u s f) c (namespace S, artifacts_set S, k) = Some bs"
    and "d (namespace S, artifacts_set S, k) \<noteq> Some bs"
  then have k: "(namespace S, artifacts_set S, k) = head_pk S a u s f"
    and bs: "bs = dset VERSION (PInt c) (rec_at d (head_pk S a u s f))"
    by (auto simp: counted_def split: if_splits)
  show "\<not> is_row (scope_tuple a' u' s') f' bs"
  proof
    assume "is_row (scope_tuple a' u' s') f' bs"
    then have row: "is_row (scope_tuple a' u' s') f' (rec_at d (head_pk S a u s f))"
      by (simp add: bs is_row_def)
    then have "d (namespace S, artifacts_set S, k) = Some (rec_at d (head_pk S a u s f))"
      by (auto simp: k rec_at_def is_row_def split: option.splits)
    then have "\<exists>v. k = artifact_key a' u' s' f' v" using rep row unfolding file_rep_def by blast
    then show False using k by (auto simp: head_pk_def)
  qed
qed

lemma other_file_stored:
  assumes rep: "file_rep S d a' u' s' f' n m" and row: "\<not> is_row (scope_tuple a' u' s') f' row"
    and other: "\<And>v'. version_pk S a u s f v \<noteq> version_pk S a' u' s' f' v'"
  shows "file_rep S (d(version_pk S a u s f v \<mapsto> row)) a' u' s' f' n m"
proof (rule file_rep_frame[OF rep])
  show "(d(version_pk S a u s f v \<mapsto> row)) (version_pk S a' u' s' f' v') = d (version_pk S a' u' s' f' v')" for v'
    using other[of v'] by simp
qed (use row in \<open>auto split: if_splits\<close>)

definition colon_free :: "string \<Rightarrow> string \<Rightarrow> string \<Rightarrow> bool" where
  "colon_free a u s \<longleftrightarrow> no_colon a \<and> no_colon u \<and> no_colon s"

lemma other_file_keys:
  assumes "colon_free a u s" "colon_free a' u' s'" "(a, u, s, f) \<noteq> (a', u', s', f')"
  shows "head_pk S a u s f \<noteq> head_pk S a' u' s' f'" "version_pk S a u s f v \<noteq> version_pk S a' u' s' f' v'"
    "\<not> is_row (scope_tuple a' u' s') f' (stored_row a u s f v mime data now meta)"
  using assms artifact_key_fields[of a u s a' u' s']
  by (auto simp: colon_free_def head_pk_def version_pk_def stored_row_is_row_iff)

lemma file_rep_unused: "file_rep S d a u s f n m \<Longrightarrow> d (version_pk S a u s f n) = None"
  using file_rep_dom[of S d a u s f n m] file_rep_map[of S d a u s f n m n]
  by (metis atLeastLessThan_iff domIff less_irrefl subsetD)

definition text_part :: "string \<Rightarrow> part" where
  "text_part t = \<lparr>pt_text = Some t, pt_inline_data = None, pt_file_data = None\<rparr>"

lemma stored_row_bins [simp]:
  "map_of (stored_row a u s f v mime data now meta) MIME_TYPE = map_option PStr mime"
  "map_of (stored_row a u s f v mime data now meta) DATA = Some (PBytes data)"
  "map_of (stored_row a u s f v mime data now meta) CREATE_TIME = Some (PFloat now)"
  "map_of (stored_row a u s f v mime data now meta) CUSTOM_META = Some (PDict (case meta of None \<Rightarrow> [] | Some c \<Rightarrow> c))"
  by (simp_all add: stored_row_def map_of_put_artifact) (simp_all add: artifact_bins_def)

lemma stored_row_part:
  "part_from_bins (stored_row a u s f v mime data now meta) =
     (if mime = Some ''text/plain'' \<and> \<not> utf8_valid data then Inl UnicodeDecodeError else Inr (reloaded mime data))"
proof (cases "mime = Some ''text/plain'' \<longrightarrow> utf8_valid data")
  case True
  then show ?thesis using stored_part[OF True, of "stored_row a u s f v mime data now meta"] by auto
next
  case False
  then have "data \<noteq> []" by auto
  with False show ?thesis by (simp add: part_from_bins_def dget_def py_or_def decode_utf8_def)
qed

text \<open>The metadata of a stored version, and its canonical URI.\<close>

definition canonical_uri :: "string \<Rightarrow> string \<Rightarrow> string \<Rightarrow> string \<Rightarrow> int \<Rightarrow> string" where
  "canonical_uri a u s f v =
     ''aerospike://apps/'' @ a @ ''/users/'' @ u @ (if s = ''user'' then [] else ''/sessions/'' @ s)
     @ ''/artifacts/'' @ f @ ''/versions/'' @ fmt_0d 1 v"

lemma stored_row_meta:
  "version_meta a u s f (stored_row a u s f v mime data now meta) =
     Inr \<lparr>av_version = v, av_canonical_uri = canonical_uri a u s f v,
          av_custom_metadata = (case meta of None \<Rightarrow> [] | Some c \<Rightarrow> c), av_create_time = now, av_mime_type = mime\<rparr>"
  by (cases mime) (simp_all add: version_meta_def dget_def py_or_def canonical_uri_def USER_SCOPE_SID_def)

text \<open>The parts that survive unchanged.\<close>

lemma reloaded_canonical:
  assumes "mime_for_part p = Inr mime" "bytes_for_part p = Inr data"
  shows "p = text_part data \<or> (\<exists>b. pt_inline_data p = Some b \<and> bl_data b \<noteq> None \<and> pt_text p = None \<and> pt_file_data p = None
          \<and> mime \<noteq> Some ''text/plain'') \<longrightarrow> reloaded mime data = p"
  using assms by (auto simp: text_part_def reloaded_def mime_for_part_def bytes_for_part_def)

lemma sorted_rows:
  fixes rows :: "(int \<times> bins) list"
  assumes "distinct (map fst rows)" "fst ` set rows = dom m" "\<And>v bs. (v, bs) \<in> set rows \<Longrightarrow> m v = Some bs"
  shows "sort_key fst rows = map (\<lambda>v. (v, the (m v))) (sorted_list_of_set (dom m))"
proof -
  have "distinct (map fst (sort_key fst rows))"
    using assms(1) by (simp add: distinct_map)
  moreover have "finite (dom m)" unfolding assms(2)[symmetric] by simp
  ultimately have keys: "map fst (sort_key fst rows) = sorted_list_of_set (dom m)"
    using assms(2) by (intro sorted_distinct_set_unique) simp_all
  have "map (\<lambda>v. (v, the (m v))) (map fst (sort_key fst rows)) = map id (sort_key fst rows)"
    unfolding map_map comp_def by (rule map_cong) (auto dest: assms(3))
  with keys show ?thesis by simp
qed

text \<open>The file names that occur in a scope.\<close>

definition row_name :: "bins \<Rightarrow> string" where
  "row_name bs = (case map_of bs FILENAME of Some (PStr f) \<Rightarrow> f | _ \<Rightarrow> [])"

definition scope_files :: "schema \<Rightarrow> db \<Rightarrow> string \<Rightarrow> string \<Rightarrow> string \<Rightarrow> string set" where
  "scope_files S d a u s = {row_name bs | key bs. d (namespace S, artifacts_set S, key) = Some bs
     \<and> map_of bs SCOPE_TUPLE = Some (PStr (scope_tuple a u s))}"

lemma matching_rows:
  "{bs. Some bs \<in> d ` matching ns st b v d} = {bs. \<exists>key. d (ns, st, key) = Some bs \<and> map_of bs b = Some v}"
proof (intro set_eqI iffI)
  fix bs assume "bs \<in> {bs. Some bs \<in> d ` matching ns st b v d}"
  then obtain k where k: "k \<in> matching ns st b v d" "d k = Some bs" by force
  from k(1) show "bs \<in> {bs. \<exists>key. d (ns, st, key) = Some bs \<and> map_of bs b = Some v}"
    by (rule matchingE) (use k(2) in auto)
next
  fix bs assume "bs \<in> {bs. \<exists>key. d (ns, st, key) = Some bs \<and> map_of bs b = Some v}"
  then obtain key where "d (ns, st, key) = Some bs" "map_of bs b = Some v" by auto
  then show "bs \<in> {bs. Some bs \<in> d ` matching ns st b v d}"
    by (intro CollectI image_eqI[of _ _ "(ns, st, key)"]) (simp_all add: matching_def)
qed

context reliable_client begin

lemma wp_metas:
  assumes rep: "file_rep S (view (srv w)) a u s f n m" and scope: "scope_id_of f sid = Inr s"
    and Q: "\<And>s'. view s' = view (srv w) \<Longrightarrow>
      Q (emap (\<lambda>v. version_meta a u s f (the (m v))) (sorted_list_of_set (dom m))) (w\<lparr>srv := s'\<rparr>)"
  shows "wp (list_artifact_versions X S a u f sid) Q w"
  unfolding list_artifact_versions_def scope wp_bindE wp_liftE sum.case
proof (rule wp_rows[OF rep], goal_cases)
  case (1 s' rows)
  have "emap (\<lambda>(_, bins). version_meta a u s f bins) (map (\<lambda>v. (v, the (m v))) vs) =
      emap (\<lambda>v. version_meta a u s f (the (m v))) vs" for vs by (induction vs) auto
  then show ?case using Q[OF 1(1)] sorted_rows[OF 1(2-4)] by simp
qed

lemma wp_filenames:
  assumes ok: "each_keyed (artifact_store_ok S) (view (srv w))"
    and Q: "\<And>s' fs. view s' = view (srv w) \<Longrightarrow> set fs = scope_files S (view (srv w)) a u s \<Longrightarrow> Q (Inr fs) (w\<lparr>srv := s'\<rparr>)"
  shows "wp (filenames_for X S a u s) Q w"
  unfolding filenames_for_def wp_bindE
proof (rule wp_query, goal_cases)
  case (1 s' rows ks)
  have "\<exists>f. map_of bs FILENAME = Some (PStr f)" if "bs \<in> set rows" for bs
  proof -
    have "Some bs \<in> set (map (view (srv w)) ks)" using that unfolding 1(4)[symmetric] by simp
    then obtain k where "k \<in> set ks" "view (srv w) k = Some bs" unfolding set_map by (elim imageE) simp
    then show ?thesis
      using each_keyedD[OF ok] unfolding 1(3)
      by (elim matchingE) (force simp: artifact_store_ok_def artifact_row_ok_def)
  qed
  then have names: "emap row_filename rows = Inr (map row_name rows)"
    using emap_ok[of rows row_filename id row_name] by (fastforce simp: row_filename_def row_name_def)
  have "{bs. Some bs \<in> set (map Some rows)} = set rows" by auto
  then have "set (map row_name rows) = row_name ` {bs. Some bs \<in> view (srv w) ` set ks}"
    unfolding 1(4) set_map by simp
  also have "\<dots> = scope_files S (view (srv w)) a u s"
    unfolding 1(3) matching_rows by (auto simp: scope_files_def)
  finally show ?case using Q[OF 1(1)] names by (simp add: wp_simps)
qed

end

section \<open>Properties\<close>

text \<open>
  C19. Stored versions are immutable. Whatever faults occur, saving an artifact never changes a
  stored version of any file of any tenant, and every row the service stores keeps the shape its
  readers expect; the reading methods change nothing at all.
\<close>

theorem artifacts_immutable:
  assumes "aerospike_client X view fits"
  shows "keeps view (\<lambda>d. d (version_pk S a' u' s' f' v) = Some r) (save_artifact X ensure_part S a u f x sid meta)
    \<and> keeps view (each_keyed (artifact_store_ok S)) (save_artifact X ensure_part S a u f x sid meta)
    \<and> keeps view (each_keyed (artifact_store_ok S)) (delete_artifact X S a u f sid)
    \<and> keeps view P (load_artifact X S a u f sid ver) \<and> keeps view P (list_artifact_keys X S a u sid)
    \<and> keeps view P (list_versions X S a u f sid) \<and> keeps view P (list_artifact_versions X S a u f sid)
    \<and> keeps view P (get_artifact_version X S a u f sid ver)"
proof (intro conjI)
  have "stable fits (x_code X) (\<lambda>d. d (version_pk S a' u' s' f' v) = Some r) (ROperate (head_pk S a u s f) allocate_ops None)" for s
    by (rule stable_frame) simp
  then show "keeps view (\<lambda>d. d (version_pk S a' u' s' f' v) = Some r) (save_artifact X ensure_part S a u f x sid meta)"
    by (intro aerospike_client.keeps_save[OF assms] stable_create_only)
  have "op_keeps (artifact_store_ok S k) op" if "op_keeps artifact_row_ok op" for op k
    using that by (auto simp: op_keeps_def artifact_store_ok_def)
  then have "list_all (op_keeps (artifact_store_ok S k)) allocate_ops" for k
    using allocate_keeps_ok by (simp add: list_all_iff)
  moreover have "artifact_store_ok S k []" for k by (simp add: artifact_store_ok_def artifact_row_ok_def)
  ultimately show "keeps view (each_keyed (artifact_store_ok S)) (save_artifact X ensure_part S a u f x sid meta)"
    by (intro aerospike_client.keeps_save[OF assms] stable_keyed_operate stable_keyed_put)
      (simp_all add: artifact_store_ok_def artifact_put_ok)
  show "keeps view (each_keyed (artifact_store_ok S)) (delete_artifact X S a u f sid)"
    by (intro aerospike_client.keeps_delete[OF assms] stable_keyed_remove)
qed (rule aerospike_client.keeps_load[OF assms] aerospike_client.keeps_keys[OF assms]
    aerospike_client.keeps_list_versions[OF assms] aerospike_client.keeps_metas[OF assms] aerospike_client.keeps_meta[OF assms])+

theorem artifacts_immutable_witness:
  "keeps mem_view (\<lambda>d. d (version_pk demo_schema ''app'' ''ann'' ''s1'' ''note.txt'' 0) = Some [])
     (save_artifact (scripted_ext 500) Inr demo_schema ''app'' ''ann'' ''note.txt'' (text_part ''hi'') (Some ''s1'') None)"
  by (rule artifacts_immutable[OF scripted.aerospike_client_axioms, THEN conjunct1])

text \<open>
  C21. What a save does to the file and to its neighbours. On a reliable cluster a save of a
  supported part returns the counter's value and stores the row under it, or fails with
  \<open>RecordTooBig\<close> when the row does not fit; a part that is neither inline data, text nor file
  data is refused. In every case the counter has moved on by one, no other version changed, and
  every other file is as it was.
\<close>

theorem save_artifact_outcome:
  assumes "reliable_client X view fits" "d = view (srv w)" "file_rep S d a u s f n m"
    and "ensure_part x = Inr p" "scope_id_of f sid = Inr s" "counter_fits fits d (head_pk S a u s f)"
    and "save_artifact X ensure_part S a u f x sid meta w = (r, w')"
    and "colon_free a u s" "colon_free a' u' s'" "(a, u, s, f) \<noteq> (a', u', s', f')"
  shows "(file_rep S d a' u' s' f' n' m' \<longrightarrow> file_rep S (view (srv w')) a' u' s' f' n' m')
    \<and> (case mime_for_part p of
         Inl e \<Rightarrow> r = Inl e \<and> file_rep S (view (srv w')) a u s f (n + 1) m
       | Inr mime \<Rightarrow> \<exists>data now. bytes_for_part p = Inr data
           \<and> (let row = stored_row a u s f n mime data now meta in
              if fits row then r = Inr n \<and> file_rep S (view (srv w')) a u s f (n + 1) (m(n \<mapsto> row))
              else r = Inl (AE RecordTooBig) \<and> file_rep S (view (srv w')) a u s f (n + 1) m))"
proof (cases "mime_for_part p")
  case (Inl e)
  have v: "r = Inl e \<and> view (srv w') = counted d (head_pk S a u s f) (n + 1)"
    using wpD[OF reliable_client.wp_save_unsupported[where ensure_part = ensure_part and x = x, OF assms(1,4) Inl assms(5) file_rep_count[OF assms(3)] assms(6,2)] assms(7)] .
  then show ?thesis
    using Inl file_rep_counted[OF assms(3)] other_file_counted[OF _ other_file_keys(1)[OF assms(8-10)]] by auto
next
  case (Inr mime)
  then obtain data where data: "bytes_for_part p = Inr data"
    by (auto simp: mime_for_part_def bytes_for_part_def split: option.splits if_splits)
  obtain now where now: "let row = stored_row a u s f n mime data now meta; d1 = counted d (head_pk S a u s f) (n + 1) in
      if fits row then r = Inr n \<and> view (srv w') = d1(version_pk S a u s f n \<mapsto> row)
      else r = Inl (AE RecordTooBig) \<and> view (srv w') = d1"
    using wpD[OF reliable_client.wp_save[where ensure_part = ensure_part and x = x, OF assms(1,4) Inr data assms(5) file_rep_count[OF assms(3)] assms(6)
        file_rep_unused[OF assms(3)] assms(2)] assms(7)] ..
  note keys = other_file_keys[OF assms(8-10)]
  have "file_rep S d a' u' s' f' n' m' \<longrightarrow> file_rep S (view (srv w')) a' u' s' f' n' m'"
    using now keys by (auto simp: Let_def intro!: other_file_stored other_file_counted split: if_splits)
  then show ?thesis
    using Inr data now file_rep_counted[OF assms(3)] file_rep_saved[OF assms(3)]
    by (auto simp: Let_def intro!: exI[of _ now] split: if_splits)
qed

definition artifact_world :: "(pk \<times> bins) list \<Rightarrow> (fault \<times> fault list) list \<Rightarrow> mem_server world" where
  "artifact_world kvs fs = \<lparr>srv = loaded_server kvs fs, slept = []\<rparr>"

lemma artifact_world_view [simp]: "mem_view (srv (artifact_world kvs fs)) = map_of kvs"
  by (simp add: artifact_world_def)

lemma empty_file_rep: "file_rep S Map.empty a u s f 0 Map.empty"
  by (simp add: file_rep_def head_count_def)

lemma demo_counter_fits: "counter_fits (size_limit 500) Map.empty k"
  by (simp add: counter_fits_def rec_at_def size_limit_def dset_def)

lemma demo_row_fits: "fits = size_limit 500 \<Longrightarrow>
  fits (stored_row ''app'' ''ann'' ''s1'' ''note.txt'' n (Some ''text/plain'') ''hi'' now None)"
  by (simp add: stored_row_def artifact_bins_def scope_tuple_def SEP_def size_limit_def dset_def)

lemma demo_scope: "scope_id_of ''note.txt'' (Some ''s1'') = Inr ''s1''"
  by (simp add: scope_id_of_def artifact_scope_id_def SCOPE_USER_def)

lemma demo_part: "mime_for_part (text_part ''hi'') = Inr (Some ''text/plain'')" "bytes_for_part (text_part ''hi'') = Inr ''hi''"
  by (simp_all add: text_part_def mime_for_part_def bytes_for_part_def)

theorem save_artifact_outcome_witness:
  "\<exists>w'. save_artifact (calm_ext 500) Inr demo_schema ''app'' ''ann'' ''note.txt'' (text_part ''hi'') (Some ''s1'') None
       (artifact_world [] []) = (Inr 0, w')
     \<and> file_rep demo_schema (mem_view (srv w')) ''app'' ''bob'' ''s1'' ''note.txt'' 0 Map.empty"
proof -
  obtain r w' where run: "save_artifact (calm_ext 500) Inr demo_schema ''app'' ''ann'' ''note.txt'' (text_part ''hi'') (Some ''s1'') None
       (artifact_world [] []) = (r, w')" by fastforce
  have view: "Map.empty = mem_view (srv (artifact_world [] []))" by simp
  have cf: "colon_free ''app'' ''ann'' ''s1''" "colon_free ''app'' ''bob'' ''s1''" by (simp_all add: colon_free_def)
  show ?thesis
    using save_artifact_outcome[OF calm.reliable_client_axioms view empty_file_rep refl demo_scope demo_counter_fits run cf, of "''note.txt''" 0 Map.empty]
      demo_part demo_row_fits[OF refl] empty_file_rep run by (auto simp: Let_def)
qed

text \<open>
  C20. A saved part comes back. Right after a save that fits, loading the latest version and
  loading the returned version both give the part back; text, and inline data with a mime type
  other than \<open>text/plain\<close>, come back as the very same part, file data comes back as inline data
  holding the URI, and inline \<open>text/plain\<close> comes back as text, or not at all if it is not UTF-8.
\<close>

theorem saved_artifact_loads:
  assumes "reliable_client X view fits" "d = view (srv w)" "file_rep S d a u s f n m"
    and "ensure_part x = Inr p" "scope_id_of f sid = Inr s" "counter_fits fits d (head_pk S a u s f)"
    and "mime_for_part p = Inr mime" "bytes_for_part p = Inr data"
    and "\<And>now. fits (stored_row a u s f n mime data now meta)" "ver \<in> {None, Some n}"
  shows "\<exists>w1. save_artifact X ensure_part S a u f x sid meta w = (Inr n, w1)
    \<and> (\<exists>w2. load_artifact X S a u f sid ver w1 =
        (if mime = Some ''text/plain'' \<and> \<not> utf8_valid data then Inl UnicodeDecodeError
         else Inr (Some (reloaded mime data)), w2))
    \<and> (p = text_part data \<or> (\<exists>b. pt_inline_data p = Some b \<and> bl_data b \<noteq> None \<and> pt_text p = None \<and> pt_file_data p = None
          \<and> mime \<noteq> Some ''text/plain'') \<longrightarrow> reloaded mime data = p)"
proof -
  obtain r w1 where save: "save_artifact X ensure_part S a u f x sid meta w = (r, w1)" by fastforce
  obtain now where now: "let row = stored_row a u s f n mime data now meta; d1 = counted d (head_pk S a u s f) (n + 1) in
      if fits row then r = Inr n \<and> view (srv w1) = d1(version_pk S a u s f n \<mapsto> row)
      else r = Inl (AE RecordTooBig) \<and> view (srv w1) = d1"
    using wpD[OF reliable_client.wp_save[where ensure_part = ensure_part and x = x, OF assms(1,4,7,8,5) file_rep_count[OF assms(3)] assms(6)
        file_rep_unused[OF assms(3)] assms(2)] save] ..
  let ?row = "stored_row a u s f n mime data now meta"
  have r: "r = Inr n" and rep: "file_rep S (view (srv w1)) a u s f (n + 1) (m(n \<mapsto> ?row))"
    using now assms(9) file_rep_saved[OF assms(3)] by (simp_all add: Let_def)
  have "Max (dom (m(n \<mapsto> ?row))) = n"
    using file_rep_dom[OF assms(3)] finite_subset[of "dom m" "{0..<n}"] by (intro Max_eqI) auto
  then have latest: "latest (m(n \<mapsto> ?row)) ver = Some ?row" using assms(10) by (auto simp: latest_def)
  have part: "part_from_bins ?row =
      (if mime = Some ''text/plain'' \<and> \<not> utf8_valid data then Inl UnicodeDecodeError else Inr (reloaded mime data))"
    by (rule stored_row_part)
  obtain l w2 where load: "load_artifact X S a u f sid ver w1 = (l, w2)" by fastforce
  have "wp (load_artifact X S a u f sid ver) (\<lambda>l w'. l = ebind (part_from_bins ?row) (\<lambda>p. Inr (Some p))) w1"
    by (rule reliable_client.wp_load[OF assms(1) rep assms(5)]) (simp only: latest option.case)
  from wpD[OF this load] load save r have "\<exists>w2. load_artifact X S a u f sid ver w1 =
        (if mime = Some ''text/plain'' \<and> \<not> utf8_valid data then Inl UnicodeDecodeError
         else Inr (Some (reloaded mime data)), w2)" by (simp add: part)
  then show ?thesis using save r reloaded_canonical[OF assms(7,8)] by blast
qed

theorem saved_artifact_loads_witness:
  "\<exists>w1. save_artifact (calm_ext 500) Inr demo_schema ''app'' ''ann'' ''note.txt'' (text_part ''hi'') (Some ''s1'') None
       (artifact_world [] []) = (Inr 0, w1)
     \<and> (\<exists>w2. load_artifact (calm_ext 500) demo_schema ''app'' ''ann'' ''note.txt'' (Some ''s1'') None w1 =
          (Inr (Some (text_part ''hi'')), w2))"
proof -
  have view: "Map.empty = mem_view (srv (artifact_world [] []))" by simp
  have "utf8_valid ''hi''" by (simp add: in_range_def)
  then show ?thesis
    using saved_artifact_loads[where ensure_part = Inr and x = "text_part ''hi''" and S = demo_schema and ver = None,
        OF calm.reliable_client_axioms view empty_file_rep refl demo_scope demo_counter_fits demo_part demo_row_fits[OF refl]]
    by auto
qed

text \<open>
  C27. Reading a file. On a reliable cluster \<open>list_versions\<close> returns the stored versions in
  ascending order, \<open>load_artifact\<close> without a version the row of the largest one and with a
  version exactly that row, and \<open>None\<close> where there is none; \<open>get_artifact_version\<close> the metadata of
  that row, and \<open>list_artifact_versions\<close> the metadata of every row in the order of the versions.
\<close>

theorem artifact_reads:
  assumes "reliable_client X view fits" "file_rep S (view (srv w)) a u s f n m" "scope_id_of f sid = Inr s"
  shows "fst (list_versions X S a u f sid w) = Inr (sorted_list_of_set (dom m))
    \<and> fst (load_artifact X S a u f sid ver w) =
        (case latest m ver of None \<Rightarrow> Inr None | Some bs \<Rightarrow> ebind (part_from_bins bs) (\<lambda>p. Inr (Some p)))
    \<and> fst (get_artifact_version X S a u f sid ver w) =
        (case latest m ver of None \<Rightarrow> Inr None | Some bs \<Rightarrow> ebind (version_meta a u s f bs) (\<lambda>p. Inr (Some p)))
    \<and> fst (list_artifact_versions X S a u f sid w) =
        emap (\<lambda>v. version_meta a u s f (the (m v))) (sorted_list_of_set (dom m))"
proof -
  have "wp (list_versions X S a u f sid) (\<lambda>r w'. r = Inr (sorted_list_of_set (dom m))) w"
    by (rule reliable_client.wp_list_versions[OF assms]) simp
  moreover have "wp (load_artifact X S a u f sid ver) (\<lambda>r w'. r =
      (case latest m ver of None \<Rightarrow> Inr None | Some bs \<Rightarrow> ebind (part_from_bins bs) (\<lambda>p. Inr (Some p)))) w"
    by (rule reliable_client.wp_load[OF assms]) simp
  moreover have "wp (get_artifact_version X S a u f sid ver) (\<lambda>r w'. r =
      (case latest m ver of None \<Rightarrow> Inr None | Some bs \<Rightarrow> ebind (version_meta a u s f bs) (\<lambda>p. Inr (Some p)))) w"
    by (rule reliable_client.wp_get_meta[OF assms]) simp
  moreover have "wp (list_artifact_versions X S a u f sid) (\<lambda>r w'. r =
      emap (\<lambda>v. version_meta a u s f (the (m v))) (sorted_list_of_set (dom m))) w"
    by (rule reliable_client.wp_metas[OF assms]) simp
  ultimately show ?thesis by (simp add: wp_def split: prod.splits)
qed

definition note_row :: "int \<Rightarrow> bins" where
  "note_row v = stored_row ''app'' ''ann'' ''s1'' ''note.txt'' v (Some ''text/plain'') ''hi'' 5 None"

definition note_records :: "(pk \<times> bins) list" where
  "note_records =
     [(head_pk demo_schema ''app'' ''ann'' ''s1'' ''note.txt'', [(VERSION, PInt 3)]),
      (version_pk demo_schema ''app'' ''ann'' ''s1'' ''note.txt'' 2, note_row 2),
      (version_pk demo_schema ''app'' ''ann'' ''s1'' ''note.txt'' 0, note_row 0)]"

lemma note_file_rep: "file_rep demo_schema (map_of note_records) ''app'' ''ann'' ''s1'' ''note.txt'' 3 [2 \<mapsto> note_row 2, 0 \<mapsto> note_row 0]"
proof -
  have "\<not> is_row t f [(VERSION, PInt 3)]" for t f by (simp add: is_row_def)
  then show ?thesis
    by (auto simp: file_rep_def note_records_def head_count_def fun_eq_iff note_row_def head_pk_def version_pk_def)
qed

lemma note_versions: "sorted_list_of_set (dom [2 \<mapsto> note_row 2, 0 \<mapsto> note_row 0]) = [0, 2 :: int]"
  by (simp add: insert_commute)

theorem artifact_reads_witness:
  "fst (list_versions (calm_ext 500) demo_schema ''app'' ''ann'' ''note.txt'' (Some ''s1'') (artifact_world note_records [])) = Inr [0, 2]
   \<and> fst (load_artifact (calm_ext 500) demo_schema ''app'' ''ann'' ''note.txt'' (Some ''s1'') (Some 1) (artifact_world note_records [])) = Inr None"
proof -
  have "file_rep demo_schema (mem_view (srv (artifact_world note_records []))) ''app'' ''ann'' ''s1'' ''note.txt'' 3 [2 \<mapsto> note_row 2, 0 \<mapsto> note_row 0]"
    using note_file_rep by simp
  from artifact_reads[OF calm.reliable_client_axioms this demo_scope, of 500 "Some 1"]
  show ?thesis unfolding note_versions by (simp add: latest_def)
qed

text \<open>
  C28. Deleting a file. On a reliable cluster \<open>delete_artifact\<close> removes every stored version and
  the counter, changes no other record, and leaves a file that lists no version and loads
  nothing; numbering starts again from zero.
\<close>

theorem delete_artifact_outcome:
  assumes "reliable_client X view fits" "d = view (srv w)" "file_rep S d a u s f n m" "scope_id_of f sid = Inr s"
    and "delete_artifact X S a u f sid w = (r, w')"
  shows "r = Inr () \<and> file_rep S (view (srv w')) a u s f 0 Map.empty
    \<and> (\<forall>k. k \<noteq> head_pk S a u s f \<longrightarrow> k \<notin> range (version_pk S a u s f) \<longrightarrow> view (srv w') k = d k)
    \<and> fst (load_artifact X S a u f sid ver w') = Inr None \<and> fst (list_versions X S a u f sid w') = Inr []"
proof -
  let ?gone = "\<lambda>k. if k = head_pk S a u s f \<or> k \<in> version_pk S a u s f ` dom m then None else d k"
  have "wp (delete_artifact X S a u f sid) (\<lambda>r w'. r = Inr () \<and> view (srv w') = ?gone) w"
    unfolding assms(2)
    by (rule reliable_client.wp_delete_artifact[OF assms(1) _ assms(4)]) (use assms(2,3) in simp_all)
  from wpD[OF this assms(5)] have r: "r = Inr ()" and v: "view (srv w') = ?gone" by auto
  have rep: "file_rep S (view (srv w')) a u s f 0 Map.empty" unfolding v by (rule file_rep_deleted[OF assms(3)])
  have "wp (load_artifact X S a u f sid ver) (\<lambda>r _. r = Inr None) w'"
    by (rule reliable_client.wp_load[OF assms(1) rep assms(4)]) (simp add: latest_def split: option.split)
  moreover have "wp (list_versions X S a u f sid) (\<lambda>r _. r = Inr []) w'"
    by (rule reliable_client.wp_list_versions[OF assms(1) rep assms(4)]) simp
  ultimately show ?thesis using r rep by (auto simp: v wp_def split: prod.splits)
qed

theorem delete_artifact_outcome_witness:
  "\<exists>r w'. delete_artifact (calm_ext 500) demo_schema ''app'' ''ann'' ''note.txt'' (Some ''s1'') (artifact_world note_records []) = (r, w')
     \<and> mem_view (srv w') (version_pk demo_schema ''app'' ''ann'' ''s1'' ''note.txt'' 2) = None"
proof -
  obtain r w' where run: "delete_artifact (calm_ext 500) demo_schema ''app'' ''ann'' ''note.txt'' (Some ''s1'') (artifact_world note_records []) = (r, w')"
    by fastforce
  have view: "map_of note_records = mem_view (srv (artifact_world note_records []))" by simp
  from delete_artifact_outcome[OF calm.reliable_client_axioms view note_file_rep demo_scope run]
  have "file_rep demo_schema (mem_view (srv w')) ''app'' ''ann'' ''s1'' ''note.txt'' 0 Map.empty" by blast
  from file_rep_map[OF this, of 2] run show ?thesis by simp
qed

text \<open>
  A file name without the \<open>user:\<close> prefix needs a session. Without one, every method that
  takes a file name raises \<open>InputValidationError\<close> before it sends a request (\<open>save_artifact\<close>
  after it has coerced the part); with the prefix no session is needed and the scope is \<open>user\<close>,
  whatever session is given.
\<close>

theorem session_required:
  "(if take 5 f = ''user:'' then scope_id_of f sid = Inr ''user''
    else if sid = None then (\<exists>e. scope_id_of f sid = Inl (InputValidationError e)
      \<and> load_artifact X S a u f sid ver w = (Inl (InputValidationError e), w)
      \<and> delete_artifact X S a u f sid w = (Inl (InputValidationError e), w)
      \<and> list_versions X S a u f sid w = (Inl (InputValidationError e), w)
      \<and> list_artifact_versions X S a u f sid w = (Inl (InputValidationError e), w)
      \<and> get_artifact_version X S a u f sid ver w = (Inl (InputValidationError e), w)
      \<and> save_artifact X ensure_part S a u f x sid meta w =
          ((case ensure_part x of Inl e' \<Rightarrow> Inl e' | Inr _ \<Rightarrow> Inl (InputValidationError e)), w))
    else scope_id_of f sid = Inr (the sid))"
proof -
  have pre: "take 5 f = ''user:'' \<longleftrightarrow> prefix ''user:'' f"
  proof
    assume "take 5 f = ''user:''"
    then show "prefix ''user:'' f" by (metis take_is_prefix)
  qed (auto simp: prefix_def)
  show ?thesis
    by (auto simp: pre scope_id_of_def artifact_scope_id_def load_artifact_def delete_artifact_def list_versions_def
        list_artifact_versions_def get_artifact_version_def save_artifact_def bindE_def liftE_def USER_SCOPE_SID_def
        split: option.splits sum.splits)
qed

text \<open>
  C29. The keys of a session are its own files and the user's. On a reliable cluster with
  well-formed rows \<open>list_artifact_keys\<close> returns, sorted and without repetition, the names of the
  files stored in the user's scope and, if a session is given, in the session's scope.
\<close>

theorem list_artifact_keys_outcome:
  assumes "reliable_client X view fits" "d = view (srv w)" "each_keyed (artifact_store_ok S) d"
  shows "\<exists>names w'. list_artifact_keys X S a u sid w = (Inr names, w') \<and> view (srv w') = d
    \<and> sorted names \<and> distinct names
    \<and> set names = scope_files S d a u ''user'' \<union> (case sid of None \<Rightarrow> {} | Some s \<Rightarrow> scope_files S d a u s)"
proof -
  let ?Q = "\<lambda>r w'. view (srv w') = d \<and> (\<exists>names. r = Inr names \<and> sorted names \<and> distinct names
    \<and> set names = scope_files S d a u ''user'' \<union> (case sid of None \<Rightarrow> {} | Some s \<Rightarrow> scope_files S d a u s))"
  have "wp (list_artifact_keys X S a u sid) ?Q w"
    unfolding list_artifact_keys_def wp_bindE[of "filenames_for _ _ _ _ _"]
  proof (rule reliable_client.wp_filenames[OF assms(1)], use assms in simp, goal_cases)
    case (1 s1 uf)
    show ?case
    proof (cases sid)
      case None
      with 1 assms(2) show ?thesis by (simp add: wp_simps USER_SCOPE_SID_def)
    next
      case (Some s)
      have "wp (filenames_for X S a u s) (\<lambda>r w'. case r of Inl e \<Rightarrow> ?Q (Inl e) w'
          | Inr sf \<Rightarrow> ?Q (Inr (sort (remdups (uf @ sf)))) w') (w\<lparr>srv := s1\<rparr>)"
        by (rule reliable_client.wp_filenames[OF assms(1)]) (use 1 assms Some in \<open>simp_all add: USER_SCOPE_SID_def\<close>)
      then show ?thesis unfolding Some option.case sum.case wp_bindE wp_retE .
    qed
  qed
  from wp_exI[OF this] show ?thesis by auto
qed

theorem list_artifact_keys_outcome_witness:
  "\<exists>names w'. list_artifact_keys (calm_ext 500) demo_schema ''app'' ''ann'' (Some ''s1'') (artifact_world note_records []) = (Inr names, w')
     \<and> ''note.txt'' \<in> set names"
proof -
  have ok: "each_keyed (artifact_store_ok demo_schema) (map_of note_records)"
    by (rule each_keyedI)
      (auto simp: note_records_def note_row_def artifact_store_ok_def stored_row_def artifact_put_ok split: if_splits,
       simp add: artifact_row_ok_def)
  have name: "''note.txt'' \<in> scope_files demo_schema (map_of note_records) ''app'' ''ann'' ''s1''"
    unfolding scope_files_def
    by (rule CollectI, rule exI[of _ "artifact_key ''app'' ''ann'' ''s1'' ''note.txt'' 0"], rule exI[of _ "note_row 0"])
      (auto simp: note_records_def version_pk_def head_pk_def row_name_def note_row_def stored_row_def map_of_put_artifact artifact_bins_def)
  have view: "map_of note_records = mem_view (srv (artifact_world note_records []))" by simp
  from list_artifact_keys_outcome[OF calm.reliable_client_axioms view ok, of 500 "''app''" "''ann''" "Some ''s1''"] name
  show ?thesis by auto
qed

end
