(* ===== verification/Memory_Service.thy ===== *)
theory Memory_Service
  imports Stability Keys Codec Py_Text Batch_Reads "HOL-Library.Product_Lexorder"
begin

text \<open>
  \<open>AerospikeMemoryService\<close> (\<^verbatim>\<open>memory/service.py\<close>): words of an event's text, one row per event,
  and per user and word a posting list of references to rows, from which a search collects its
  candidates. Two things are arguments: \<open>A\<close>, what belongs to ADK, and \<open>so\<close>, the order in which
  Python lists a set of strings, which changes from process to process. The bins of memory
  rows hold the types that the service writes; the model refuses other types with the
  exception that the first use of the value raises.
\<close>

section \<open>Words\<close>

text \<open>The matches of \<open>[A-Za-z]+\<close>, from left to right.\<close>

function words :: "string \<Rightarrow> string list" where
  "words [] = []"
| "words (c # s) =
     (if is_letter c then (c # takeWhile is_letter s) # words (dropWhile is_letter s) else words s)"
  by pat_completeness auto
termination
  by (relation "measure length") (auto simp: le_imp_less_Suc length_dropWhile_le)

definition STOPWORDS :: "string list" where
  "STOPWORDS = [''a'', ''an'', ''and'', ''are'', ''as'', ''at'', ''be'', ''by'', ''for'', ''from'', ''in'', ''is'',
     ''it'', ''of'', ''on'', ''or'', ''that'', ''the'', ''to'', ''was'', ''were'', ''with'']"

definition tokenize :: "(string list \<Rightarrow> string list) \<Rightarrow> string \<Rightarrow> string list" where
  "tokenize so text =
     (if text = [] then []
      else so (remdups (filter (\<lambda>w. w \<notin> set STOPWORDS) (map lower (words text)))))"

text \<open>Listing a set gives each element once.\<close>

definition lists_sets :: "(string list \<Rightarrow> string list) \<Rightarrow> bool" where
  "lists_sets so \<longleftrightarrow> (\<forall>xs. distinct xs \<longrightarrow> distinct (so xs) \<and> set (so xs) = set xs)"

section \<open>Constants and keys\<close>

definition UNKNOWN_SESSION_ID :: string where "UNKNOWN_SESSION_ID = ''__unknown_session_id__''"
definition REF_EID :: string where "REF_EID = ''eid''"
definition REF_SID :: string where "REF_SID = ''sid''"
definition REF_TS :: string where "REF_TS = ''ts''"
definition MAX_POSTING_LIST_SIZE :: nat where "MAX_POSTING_LIST_SIZE = 2048"
definition MAX_SEARCH_CANDIDATES :: nat where "MAX_SEARCH_CANDIDATES = 512"

definition posting_pk :: "schema \<Rightarrow> string \<Rightarrow> string \<Rightarrow> string \<Rightarrow> pk" where
  "posting_pk S app_name user_id token = (namespace S, memory_set S, memory_posting_key app_name user_id token)"

definition memory_pk :: "schema \<Rightarrow> string \<Rightarrow> string \<Rightarrow> string \<Rightarrow> string \<Rightarrow> pk" where
  "memory_pk S app_name user_id session_id event_id =
     (namespace S, memory_set S, memory_key app_name user_id session_id event_id)"

definition posting_ref :: "string \<Rightarrow> string \<Rightarrow> rat \<Rightarrow> pyval" where
  "posting_ref event_id session_id ts =
     PDict [(REF_EID, PStr event_id), (REF_SID, PStr session_id), (REF_TS, PFloat ts)]"

section \<open>Writing\<close>

definition append_posting_ref ::
  "'s ext \<Rightarrow> schema \<Rightarrow> string \<Rightarrow> string \<Rightarrow> string \<Rightarrow> pyval \<Rightarrow> ('s, 'm, unit) io" where
  "append_posting_ref X S app_name user_id token ref =
     (let pk = posting_pk S app_name user_id token in
      bindE (client_operate X pk [ListAppend MEM_POSTINGS ref, ReadBin MEM_POSTINGS] None) (\<lambda>result.
      bindE (liftE (list_items (py_or (pget result MEM_POSTINGS) (PList [])))) (\<lambda>postings.
        if length postings \<le> MAX_POSTING_LIST_SIZE then retE ()
        else let trim_count = int (length postings) - int MAX_POSTING_LIST_SIZE in
          bindE (client_operate X pk [ListRemoveByIndexRange MEM_POSTINGS 0 trim_count] None) (\<lambda>_. retE ()))))"

definition memory_bins ::
  "adk \<Rightarrow> (string list \<Rightarrow> string list) \<Rightarrow> string \<Rightarrow> string \<Rightarrow> string \<Rightarrow> event \<Rightarrow> string \<Rightarrow> bins" where
  "memory_bins A so app_name user_id session_id event text =
     [(APP_NAME, PStr app_name), (USER_ID, PStr user_id), (SESSION_ID, PStr session_id),
      (SCOPE_TUPLE, PStr (scope_tuple app_name user_id session_id)), (EVENT_ID, PStr (ev_id event)),
      (TEXT, PStr text), (KEYWORDS, PList (map PStr (tokenize so text))), (AUTHOR, PStr (ev_author event)),
      (TIMESTAMP, PFloat (ev_timestamp event)),
      (CONTENT, case ev_content event of None \<Rightarrow> PNone | Some c \<Rightarrow> PDict (dump_content A c))]"

definition upsert_memory ::
  "'s ext \<Rightarrow> adk \<Rightarrow> (string list \<Rightarrow> string list) \<Rightarrow> schema \<Rightarrow> string \<Rightarrow> string \<Rightarrow> string \<Rightarrow> event \<Rightarrow> string
   \<Rightarrow> ('s, 'm, unit) io" where
  "upsert_memory X A so S app_name user_id session_id event text =
     thenE (client_put X (memory_pk S app_name user_id session_id (ev_id event))
              (memory_bins A so app_name user_id session_id event text) False)
       (forE (\<lambda>token. append_posting_ref X S app_name user_id token
                (posting_ref (ev_id event) session_id (ev_timestamp event)))
         (tokenize so text))"

definition remove_posting_refs ::
  "'s ext \<Rightarrow> schema \<Rightarrow> string \<Rightarrow> string \<Rightarrow> string list \<Rightarrow> string \<Rightarrow> string \<Rightarrow> rat \<Rightarrow> ('s, 'm, unit) io" where
  "remove_posting_refs X S app_name user_id keywords session_id event_id ts =
     forE (\<lambda>token.
         bindE (or_not_found (client_operate X (posting_pk S app_name user_id token)
                  [ListRemoveByValue MEM_POSTINGS (posting_ref event_id session_id ts)] None)) (\<lambda>_. retE ()))
       keywords"

definition purge_row :: "'s ext \<Rightarrow> schema \<Rightarrow> string \<Rightarrow> string \<Rightarrow> string \<Rightarrow> bins \<Rightarrow> ('s, 'm, unit) io" where
  "purge_row X S app_name user_id session_id bins =
     bindE (liftE (str_of (dget bins EVENT_ID (PStr [])))) (\<lambda>eid.
     bindE (liftE (ebind (list_items (py_or (pget bins KEYWORDS) (PList []))) (emap str_of))) (\<lambda>keywords.
     bindE (liftE (py_float (py_or (pget bins TIMESTAMP) (PFloat 0)))) (\<lambda>ts.
     thenE (whenE (keywords \<noteq> [] \<and> eid \<noteq> [])
              (remove_posting_refs X S app_name user_id keywords session_id eid ts))
       (bindE (or_not_found (client_remove X (memory_pk S app_name user_id session_id eid))) (\<lambda>_. retE ())))))"

definition purge_session_memories :: "'s ext \<Rightarrow> schema \<Rightarrow> string \<Rightarrow> string \<Rightarrow> string \<Rightarrow> ('s, 'm, unit) io" where
  "purge_session_memories X S app_name user_id session_id =
     bindE (client_query X (namespace S) (memory_set S) SCOPE_TUPLE (PStr (scope_tuple app_name user_id session_id)))
       (forE (purge_row X S app_name user_id session_id))"

text \<open>The text a loop over events skips or indexes.\<close>

definition event_text :: "event \<Rightarrow> string option" where
  "event_text event =
     (case ev_content event of
        None \<Rightarrow> None
      | Some c \<Rightarrow>
          if ct_parts c = None \<or> ct_parts c = Some [] then None
          else let text = extract_event_text event in if text = [] then None else Some text)"

definition add_session_to_memory ::
  "'s ext \<Rightarrow> adk \<Rightarrow> (string list \<Rightarrow> string list) \<Rightarrow> schema \<Rightarrow> session \<Rightarrow> ('s, 'm, unit) io" where
  "add_session_to_memory X A so S session =
     thenE (purge_session_memories X S (s_app_name session) (s_user_id session) (s_id session))
       (forE (\<lambda>event. case event_text event of
            None \<Rightarrow> retE ()
          | Some text \<Rightarrow>
              upsert_memory X A so S (s_app_name session) (s_user_id session) (s_id session) event text)
         (s_events session))"

definition add_events_to_memory ::
  "'s ext \<Rightarrow> adk \<Rightarrow> (string list \<Rightarrow> string list) \<Rightarrow> schema \<Rightarrow> string \<Rightarrow> string \<Rightarrow> event list \<Rightarrow> string option
   \<Rightarrow> ('s, 'm, unit) io" where
  "add_events_to_memory X A so S app_name user_id events session_id =
     (let scoped_session_id = (case session_id of None \<Rightarrow> UNKNOWN_SESSION_ID
          | Some s \<Rightarrow> if s = [] then UNKNOWN_SESSION_ID else s) in
      forE (\<lambda>event. case event_text event of
            None \<Rightarrow> retE ()
          | Some text \<Rightarrow>
              let pk = memory_pk S app_name user_id scoped_session_id (ev_id event) in
              bindE (batch_read X [pk]) (\<lambda>rows.
                case map_of rows pk of
                  Some (Some (b # bs)) \<Rightarrow> retE ()
                | _ \<Rightarrow> upsert_memory X A so S app_name user_id scoped_session_id event text))
        events)"

section \<open>Searching\<close>

type_synonym candidates = "(string, string \<times> rat) pydict"

definition add_candidate :: "string \<Rightarrow> string \<Rightarrow> rat \<Rightarrow> candidates \<Rightarrow> candidates" where
  "add_candidate eid sid ts c =
     (case map_of c eid of
        None \<Rightarrow> dset eid (sid, ts) c
      | Some (_, t) \<Rightarrow> if t < ts then dset eid (sid, ts) c else c)"

fun scan_refs :: "pyval list \<Rightarrow> candidates \<Rightarrow> candidates exc" where
  "scan_refs [] c = Inr c"
| "scan_refs (PDict ref # refs) c =
     (if \<not> truthy (dget ref REF_EID (PStr [])) \<or> \<not> truthy (dget ref REF_SID (PStr [])) then scan_refs refs c
      else
        ebind (str_of (dget ref REF_EID (PStr []))) (\<lambda>eid.
        ebind (str_of (dget ref REF_SID (PStr []))) (\<lambda>sid.
        ebind (py_float (py_or (pget ref REF_TS) (PFloat 0))) (\<lambda>ts.
          let c' = add_candidate eid sid ts c in
          if MAX_SEARCH_CANDIDATES \<le> length c' then Inr c' else scan_refs refs c'))))"
| "scan_refs (_ # refs) c = scan_refs refs c"

fun scan_postings :: "(pk, bins option) pydict \<Rightarrow> pk list \<Rightarrow> candidates \<Rightarrow> candidates exc" where
  "scan_postings rows [] c = Inr c"
| "scan_postings rows (pk # pks) c =
     (case map_of rows pk of
        Some (Some (b # bs)) \<Rightarrow>
          ebind (list_items (py_or (pget (b # bs) MEM_POSTINGS) (PList []))) (\<lambda>refs.
          ebind (scan_refs refs c) (\<lambda>c'.
            if MAX_SEARCH_CANDIDATES \<le> length c' then Inr c' else scan_postings rows pks c'))
      | _ \<Rightarrow> scan_postings rows pks c)"

fun hashable :: "pyval \<Rightarrow> bool" where
  "hashable (PList l) = False"
| "hashable (PDict d) = False"
| "hashable v = True"

definition overlap :: "string list \<Rightarrow> pyval list \<Rightarrow> int exc" where
  "overlap query_tokens keywords =
     (if list_all hashable keywords
      then Inr (int (length (remdups (filter (\<lambda>v. v \<in> PStr ` set query_tokens) keywords))))
      else Inl (TypeError ''unhashable type''))"

type_synonym scored = "(int \<times> rat) \<times> bins"

fun score_rows ::
  "schema \<Rightarrow> string \<Rightarrow> string \<Rightarrow> string list \<Rightarrow> (pk, bins option) pydict \<Rightarrow> candidates \<Rightarrow> scored list exc" where
  "score_rows S app_name user_id query_tokens rows [] = Inr []"
| "score_rows S app_name user_id query_tokens rows ((eid, sid, ts) # c) =
     (case map_of rows (memory_pk S app_name user_id sid eid) of
        Some (Some (b # bs)) \<Rightarrow>
          let bins = b # bs in
          if pget bins APP_NAME \<noteq> PStr app_name \<or> pget bins USER_ID \<noteq> PStr user_id
          then score_rows S app_name user_id query_tokens rows c
          else
            ebind (list_items (py_or (pget bins KEYWORDS) (PList []))) (\<lambda>keywords.
            ebind (overlap query_tokens keywords) (\<lambda>n.
              if n = 0 then score_rows S app_name user_id query_tokens rows c
              else ebind (score_rows S app_name user_id query_tokens rows c) (\<lambda>rest. Inr (((n, ts), bins) # rest))))
      | _ \<Rightarrow> score_rows S app_name user_id query_tokens rows c)"

text \<open>\<open>list.sort(key=k, reverse=True)\<close> keeps the order of equal elements, and \<open>xs[:k]\<close> counts a
  negative bound from the end.\<close>

definition sort_desc :: "('a \<Rightarrow> 'b::linorder) \<Rightarrow> 'a list \<Rightarrow> 'a list" where
  "sort_desc k xs = rev (sort_key k (rev xs))"

definition py_upto :: "int \<Rightarrow> 'a list \<Rightarrow> 'a list" where
  "py_upto k xs = take (if 0 \<le> k then nat k else length xs - nat (- k)) xs"

record memory_entry =
  me_id :: "string option"
  me_content :: content
  me_author :: "string option"
  me_timestamp :: "string option"

fun real_of :: "pyval \<Rightarrow> rat exc" where
  "real_of (PFloat r) = Inr r"
| "real_of (PInt i) = Inr (of_int i)"
| "real_of (PBool b) = Inr (if b then 1 else 0)"
| "real_of v = Inl (TypeError ''must be real number'')"

definition memory_entry_from_bins :: "adk \<Rightarrow> bins \<Rightarrow> memory_entry exc" where
  "memory_entry_from_bins A bins =
     ebind (if truthy (pget bins CONTENT) then validate_content A (pget bins CONTENT)
            else ebind (str_of (dget bins TEXT (PStr []))) (\<lambda>t.
              Inr \<lparr>ct_role = None, ct_parts = Some [\<lparr>pt_text = Some t, pt_inline_data = None, pt_file_data = None\<rparr>]\<rparr>))
       (\<lambda>content.
     ebind (if truthy (pget bins TIMESTAMP)
            then ebind (real_of (pget bins TIMESTAMP)) (\<lambda>ts. Inr (Some (format_timestamp A ts))) else Inr None)
       (\<lambda>timestamp.
     ebind (opt_str (pget bins EVENT_ID)) (\<lambda>i.
     ebind (opt_str (pget bins AUTHOR)) (\<lambda>author.
       Inr \<lparr>me_id = i, me_content = content, me_author = author, me_timestamp = timestamp\<rparr>))))"

definition search_memory ::
  "'s ext \<Rightarrow> adk \<Rightarrow> (string list \<Rightarrow> string list) \<Rightarrow> schema \<Rightarrow> int \<Rightarrow> string \<Rightarrow> string \<Rightarrow> string
   \<Rightarrow> ('s, 'm, memory_entry list) io" where
  "search_memory X A so S top_k app_name user_id query =
     (let query_tokens = tokenize so query;
          posting_pks = map (posting_pk S app_name user_id) query_tokens in
      if query_tokens = [] then retE []
      else
        bindE (batch_read X posting_pks) (\<lambda>posting_rows.
        bindE (liftE (scan_postings posting_rows posting_pks [])) (\<lambda>candidates.
          if candidates = [] then retE []
          else
            bindE (batch_read X (map (\<lambda>(eid, sid, _). memory_pk S app_name user_id sid eid) candidates)) (\<lambda>memory_rows.
            bindE (liftE (score_rows S app_name user_id query_tokens memory_rows candidates)) (\<lambda>scored.
              liftE (emap (memory_entry_from_bins A) (map snd (py_upto top_k (sort_desc fst scored)))))))))"

end
