(* ===== verification/Memory_Words.thy ===== *)
theory Memory_Words
  imports Memory_Service
begin

text \<open>
  The tokenizer finds exactly the maximal runs of ASCII letters, lower-cased, without stopwords.
\<close>

definition whole_word :: "string \<Rightarrow> string \<Rightarrow> bool" where
  "whole_word t s \<longleftrightarrow> (\<exists>p q. s = p @ t @ q \<and> t \<noteq> [] \<and> (\<forall>c \<in> set t. is_letter c)
     \<and> (p = [] \<or> \<not> is_letter (last p)) \<and> (q = [] \<or> \<not> is_letter (hd q)))"

lemma whole_word_skip: "\<not> is_letter c \<Longrightarrow> whole_word t (c # s) \<longleftrightarrow> whole_word t s"
proof
  assume c: "\<not> is_letter c" and "whole_word t (c # s)"
  then obtain p q where w: "c # s = p @ t @ q" "t \<noteq> []" "\<forall>c \<in> set t. is_letter c"
      "p = [] \<or> \<not> is_letter (last p)" "q = [] \<or> \<not> is_letter (hd q)"
    by (auto simp: whole_word_def)
  with c obtain p' where "p = c # p'" by (cases p) (auto simp: Cons_eq_append_conv)
  with w show "whole_word t s" by (auto simp: whole_word_def split: if_splits)
next
  assume c: "\<not> is_letter c" and "whole_word t s"
  then obtain p q where w: "s = p @ t @ q" "t \<noteq> []" "\<forall>c \<in> set t. is_letter c"
      "p = [] \<or> \<not> is_letter (last p)" "q = [] \<or> \<not> is_letter (hd q)"
    by (auto simp: whole_word_def)
  have "c # s = (c # p) @ t @ q" using w(1) by simp
  moreover have "\<not> is_letter (last (c # p))" using w(4) c by auto
  ultimately show "whole_word t (c # s)" using w(2,3,5) unfolding whole_word_def by blast
qed

lemma takeWhile_run: "\<forall>c \<in> set t. P c \<Longrightarrow> q = [] \<or> \<not> P (hd q) \<Longrightarrow> takeWhile P (t @ q) = t"
  by (cases q) (auto simp: takeWhile_append2)

lemma whole_word_run:
  assumes u: "u \<noteq> []" "\<forall>c \<in> set u. is_letter c" and r: "r = [] \<or> \<not> is_letter (hd r)"
  shows "whole_word t (u @ r) \<longleftrightarrow> t = u \<or> whole_word t r"
proof
  assume "whole_word t (u @ r)"
  then obtain p q where w: "u @ r = p @ t @ q" "t \<noteq> []" "\<forall>c \<in> set t. is_letter c"
      "p = [] \<or> \<not> is_letter (last p)" "q = [] \<or> \<not> is_letter (hd q)"
    by (auto simp: whole_word_def)
  show "t = u \<or> whole_word t r"
  proof (cases "p = []")
    case True
    then have "takeWhile is_letter (u @ r) = t" using w takeWhile_run[of t is_letter q] by simp
    then show ?thesis using takeWhile_run[OF u(2) r] by simp
  next
    case False
    then have bad: "\<not> is_letter (last p)" using w(4) by simp
    obtain p' where p: "p = u @ p' \<and> r = p' @ t @ q \<or> u = p @ p'"
      using w(1) by (auto simp: append_eq_append_conv2)
    moreover have "u \<noteq> p @ p'" using bad u(2) False by auto
    ultimately have p: "p = u @ p'" "r = p' @ t @ q" by auto
    have "p' \<noteq> []" using p(1) bad u by auto
    with bad p(1) have "\<not> is_letter (last p')" by simp
    with w p(2) show ?thesis by (auto simp: whole_word_def)
  qed
next
  assume "t = u \<or> whole_word t r"
  then show "whole_word t (u @ r)"
  proof
    assume "t = u"
    with u r show ?thesis unfolding whole_word_def by (intro exI[of _ "[]"] exI[of _ r]) simp
  next
    assume "whole_word t r"
    then obtain p q where w: "r = p @ t @ q" "t \<noteq> []" "\<forall>c \<in> set t. is_letter c"
      "p = [] \<or> \<not> is_letter (last p)" "q = [] \<or> \<not> is_letter (hd q)"
      by (auto simp: whole_word_def)
    have "p \<noteq> []" using w r by (cases t) auto
    with w show ?thesis unfolding whole_word_def by (intro exI[of _ "u @ p"] exI[of _ q]) simp
  qed
qed

lemma words_whole: "t \<in> set (words s) \<longleftrightarrow> whole_word t s"
proof (induction s rule: words.induct)
  case 1
  show ?case by (simp add: whole_word_def)
next
  case (2 c s)
  show ?case
  proof (cases "is_letter c")
    case True
    have "dropWhile is_letter s = [] \<or> \<not> is_letter (hd (dropWhile is_letter s))"
      using hd_dropWhile by blast
    then have "whole_word t ((c # takeWhile is_letter s) @ dropWhile is_letter s)
        \<longleftrightarrow> t = c # takeWhile is_letter s \<or> whole_word t (dropWhile is_letter s)"
      using True by (intro whole_word_run) (auto dest: set_takeWhileD)
    with True 2(1) show ?thesis by simp
  next
    case False
    with 2(2) show ?thesis by (simp add: whole_word_skip)
  qed
qed

lemma tokenize_set:
  "lists_sets so \<Longrightarrow> distinct (tokenize so s) \<and> set (tokenize so s) = {lower w | w. whole_word w s} - set STOPWORDS"
  by (cases "s = []") (auto simp: tokenize_def lists_sets_def words_whole[symmetric])

section \<open>Properties\<close>

text \<open>
  C35. Tokens are words. Whatever order Python lists a set in, the tokens of a text are without
  repetition the lower-cased maximal runs of the letters A-Z and a-z in it, except stopwords.
\<close>

theorem tokens_are_words:
  assumes "lists_sets so"
  shows "distinct (tokenize so s) \<and> set (tokenize so s) = {lower w | w. whole_word w s} - set STOPWORDS"
  by (rule tokenize_set[OF assms])

lemma id_lists_sets: "lists_sets id"
  by (simp add: lists_sets_def)

lemma demo_words: "words ''The cat, 2 CATS'' = [''The'', ''cat'', ''CATS'']"
  by (simp add: is_letter_def)

theorem tokens_are_words_witness:
  "lower ''CATS'' \<in> set (tokenize id ''The cat, 2 CATS'') \<and> lower ''The'' \<notin> set (tokenize id ''The cat, 2 CATS'')"
proof -
  have "whole_word ''CATS'' ''The cat, 2 CATS''" unfolding words_whole[symmetric] demo_words by simp
  moreover have "lower ''CATS'' \<notin> set STOPWORDS" "lower ''The'' \<in> set STOPWORDS"
    by code_simp+
  ultimately show ?thesis
    unfolding tokens_are_words[OF id_lists_sets, of "''The cat, 2 CATS''", THEN conjunct2] by blast
qed

end
