(* ===== verification/Memory_Search.thy ===== *)
theory Memory_Search
  imports Memory_Words Reference_Server
begin

text \<open>
  What a search computes, in terms of the store: the references in the posting lists of the
  query's words, up to the cap on candidates, the rows they lead to, ranked by the number of
  words they share with the query and then by time.
\<close>

section \<open>The shape of memory records\<close>

fun ref_val :: "string \<times> string \<times> rat \<Rightarrow> pyval" where
  "ref_val (e, s, t) = posting_ref e s t"

lemma ref_val_inject [simp]: "ref_val x = ref_val y \<longleftrightarrow> x = y"
  by (cases x; cases y) (simp add: posting_ref_def)

definition bin_ok :: "(pyval \<Rightarrow> bool) \<Rightarrow> bins \<Rightarrow> bin_name \<Rightarrow> bool" where
  "bin_ok P bs b \<longleftrightarrow> (case map_of bs b of None \<Rightarrow> True | Some v \<Rightarrow> P v)"

definition is_postings :: "pyval \<Rightarrow> bool" where
  "is_postings v \<longleftrightarrow> (\<exists>l. v = PList l \<and> (\<forall>x \<in> set l. x \<in> range ref_val))"

definition is_keywords :: "pyval \<Rightarrow> bool" where
  "is_keywords v \<longleftrightarrow> (\<exists>l. v = PList l \<and> (\<forall>x \<in> set l. x \<in> range PStr))"

definition memory_row_ok :: "adk \<Rightarrow> schema \<Rightarrow> pk \<Rightarrow> bins \<Rightarrow> bool" where
  "memory_row_ok A S k bs \<longleftrightarrow> (fst k = namespace S \<and> fst (snd k) = memory_set S \<longrightarrow>
     bin_ok is_postings bs MEM_POSTINGS \<and> bin_ok is_keywords bs KEYWORDS
     \<and> bin_ok (\<lambda>v. v \<in> range PStr) bs EVENT_ID \<and> bin_ok (\<lambda>v. v \<in> range PStr) bs TEXT
     \<and> bin_ok (\<lambda>v. v \<in> range PStr) bs AUTHOR \<and> bin_ok (\<lambda>v. v \<in> range PFloat) bs TIMESTAMP
     \<and> bin_ok (\<lambda>v. v \<in> range (PDict \<circ> dump_content A)) bs CONTENT
     \<and> bin_ok (\<lambda>v. \<exists>t e. v = PStr t \<and> map_of bs EVENT_ID = Some (PStr e) \<and> snd (snd k) = t @ SEP @ e) bs SCOPE_TUPLE)"

definition postings_of :: "db \<Rightarrow> pk \<Rightarrow> pyval list" where
  "postings_of d k = (case d k of None \<Rightarrow> [] | Some bs \<Rightarrow>
     (case map_of bs MEM_POSTINGS of Some (PList l) \<Rightarrow> l | _ \<Rightarrow> []))"

definition row_words :: "bins \<Rightarrow> string set" where
  "row_words bs = (case map_of bs KEYWORDS of Some (PList l) \<Rightarrow> {w. PStr w \<in> set l} | _ \<Rightarrow> {})"

lemma posting_bin:
  assumes "memory_row_ok A S (posting_pk S a u t) bs" "d (posting_pk S a u t) = Some bs"
  shows "list_items (py_or (pget bs MEM_POSTINGS) (PList [])) = Inr (postings_of d (posting_pk S a u t))"
    and "set (postings_of d (posting_pk S a u t)) \<subseteq> range ref_val"
  using assms
  by (auto simp: memory_row_ok_def posting_pk_def bin_ok_def is_postings_def postings_of_def dget_def py_or_def
      split: option.splits)

section \<open>Candidates\<close>

definition cand_inv :: "candidates \<Rightarrow> (string \<times> string \<times> rat) set \<Rightarrow> bool" where
  "cand_inv c R \<longleftrightarrow> distinct (map fst c) \<and> (\<forall>e s t. map_of c e = Some (s, t) \<longrightarrow> (e, s, t) \<in> R)
     \<and> (\<forall>e s t. (e, s, t) \<in> R \<longrightarrow> (\<exists>s' t'. map_of c e = Some (s', t') \<and> t \<le> t'))"

lemma cand_inv_empty: "cand_inv [] {}"
  by (simp add: cand_inv_def)

lemma add_candidate_cases:
  "add_candidate e s t c = c \<and> (\<exists>s' t'. map_of c e = Some (s', t') \<and> t \<le> t')
   \<or> add_candidate e s t c = dset e (s, t) c \<and> (\<forall>s' t'. map_of c e = Some (s', t') \<longrightarrow> t' < t)"
  by (auto simp: add_candidate_def not_less split: option.splits)

lemma add_candidate_inv:
  assumes inv: "cand_inv c R"
  shows "cand_inv (add_candidate e s t c) (insert (e, s, t) R)"
  using add_candidate_cases[of e s t c]
proof
  assume "add_candidate e s t c = c \<and> (\<exists>s' t'. map_of c e = Some (s', t') \<and> t \<le> t')"
  then have c: "add_candidate e s t c = c" and le: "\<exists>s' t'. map_of c e = Some (s', t') \<and> t \<le> t'" by blast+
  show ?thesis unfolding c using inv le unfolding cand_inv_def by blast
next
  assume "add_candidate e s t c = dset e (s, t) c \<and> (\<forall>s' t'. map_of c e = Some (s', t') \<longrightarrow> t' < t)"
  then have c: "add_candidate e s t c = dset e (s, t) c" and older: "\<And>s' t'. map_of c e = Some (s', t') \<Longrightarrow> t' < t" by auto
  have "\<exists>s' t'. map_of (dset e (s, t) c) e1 = Some (s', t') \<and> t1 \<le> t'" if r: "(e1, s1, t1) \<in> R" for e1 s1 t1
  proof -
    obtain s' t' where "map_of c e1 = Some (s', t')" "t1 \<le> t'" using inv r unfolding cand_inv_def by blast
    with older show ?thesis by (cases "e1 = e") force+
  qed
  with inv show ?thesis unfolding c cand_inv_def by auto
qed

lemma cand_inv_length: "cand_inv c R \<Longrightarrow> length c = card (fst ` R)"
proof -
  assume inv: "cand_inv c R"
  have "fst ` set c = fst ` R"
  proof
    show "fst ` set c \<subseteq> fst ` R"
    proof
      fix e assume "e \<in> fst ` set c"
      then obtain s t where "map_of c e = Some (s, t)"
        by (metis map_of_eq_None_iff not_None_eq prod.exhaust)
      with inv have "(e, s, t) \<in> R" by (simp add: cand_inv_def)
      then show "e \<in> fst ` R" by force
    qed
    show "fst ` R \<subseteq> fst ` set c"
      using inv by (force simp: cand_inv_def dest: map_of_SomeD)
  qed
  moreover have "length c = card (fst ` set c)"
    using inv by (metis cand_inv_def distinct_card length_map list.set_map)
  ultimately show ?thesis by simp
qed

definition usable :: "pyval list \<Rightarrow> (string \<times> string \<times> rat) set" where
  "usable l = {(e, s, t). ref_val (e, s, t) \<in> set l \<and> e \<noteq> [] \<and> s \<noteq> []}"

lemma usable_Cons: "usable (ref_val (e, s, t) # l) = (if e \<noteq> [] \<and> s \<noteq> [] then insert (e, s, t) (usable l) else usable l)"
  by (auto simp: usable_def simp del: ref_val.simps)

text \<open>\<open>c'\<close> is what scanning \<open>U\<close> from \<open>c\<close> may give: everything, or enough.\<close>

definition scanned :: "(string \<times> string \<times> rat) set \<Rightarrow> (string \<times> string \<times> rat) set \<Rightarrow> candidates \<Rightarrow> bool" where
  "scanned R U c' \<longleftrightarrow> (\<exists>R'. cand_inv c' R' \<and> R \<subseteq> R' \<and> R' \<subseteq> R \<union> U \<and> (R' = R \<union> U \<or> MAX_SEARCH_CANDIDATES \<le> length c'))"

lemma scan_refs_scanned:
  "set l \<subseteq> range ref_val \<Longrightarrow> cand_inv c R \<Longrightarrow> \<exists>c'. scan_refs l c = Inr c' \<and> scanned R (usable l) c'"
proof (induction l arbitrary: c R)
  case Nil
  then show ?case by (auto simp: scanned_def usable_def)
next
  case (Cons x l)
  then obtain e s t where x: "x = ref_val (e, s, t)" by auto
  have l: "set l \<subseteq> range ref_val" using Cons.prems(1) by simp
  show ?case
  proof (cases "e = [] \<or> s = []")
    case True
    from Cons.IH[OF l Cons.prems(2)] True show ?thesis
      unfolding x usable_Cons by (auto simp: posting_ref_def REF_EID_def REF_SID_def REF_TS_def dget_def)
  next
    case False
    let ?c = "add_candidate e s t c"
    have inv: "cand_inv ?c (insert (e, s, t) R)" by (rule add_candidate_inv[OF Cons.prems(2)])
    have step: "scan_refs (x # l) c = (if MAX_SEARCH_CANDIDATES \<le> length ?c then Inr ?c else scan_refs l ?c)"
      using False by (simp add: x posting_ref_def REF_EID_def REF_SID_def REF_TS_def dget_def py_or_def Let_def)
    have us: "usable (x # l) = insert (e, s, t) (usable l)" using False unfolding x usable_Cons by simp
    show ?thesis
    proof (cases "MAX_SEARCH_CANDIDATES \<le> length ?c")
      case True
      with inv show ?thesis unfolding step us scanned_def by auto
    next
      case False
      from Cons.IH[OF l inv] obtain c' where "scan_refs l ?c = Inr c'" "scanned (insert (e, s, t) R) (usable l) c'" by blast
      with False show ?thesis unfolding step us scanned_def by auto
    qed
  qed
qed

definition user_refs :: "schema \<Rightarrow> db \<Rightarrow> string \<Rightarrow> string \<Rightarrow> string set \<Rightarrow> (string \<times> string \<times> rat) set" where
  "user_refs S d a u ws = (\<Union>w \<in> ws. usable (postings_of d (posting_pk S a u w)))"

lemma scanned_trans: "scanned R U c1 \<Longrightarrow> MAX_SEARCH_CANDIDATES \<le> length c1 \<Longrightarrow> scanned R (U \<union> V) c1"
  by (auto simp: scanned_def)

lemma scan_postings_scanned:
  assumes ok: "each_keyed (memory_row_ok A S) d" and rows: "\<forall>w \<in> set ws. map_of rows (posting_pk S a u w) = Some (d (posting_pk S a u w))"
  shows "cand_inv c R \<Longrightarrow> \<exists>c'. scan_postings rows (map (posting_pk S a u) ws) c = Inr c' \<and> scanned R (user_refs S d a u (set ws)) c'"
  using rows
proof (induction ws arbitrary: c R)
  case Nil
  then show ?case by (auto simp: scanned_def user_refs_def)
next
  case (Cons w ws)
  let ?k = "posting_pk S a u w"
  have row: "map_of rows ?k = Some (d ?k)" using Cons.prems(2) by simp
  have refs: "user_refs S d a u (insert w (set ws)) = usable (postings_of d ?k) \<union> user_refs S d a u (set ws)"
    by (simp add: user_refs_def)
  consider "postings_of d ?k = []" "\<And>b bs. d ?k \<noteq> Some (b # bs)" | b bs where "d ?k = Some (b # bs)"
    by (cases "d ?k"; cases "the (d ?k)") (auto simp: postings_of_def)
  then show ?case
  proof cases
    case 1
    then have eq: "scan_postings rows (?k # map (posting_pk S a u) ws) c = scan_postings rows (map (posting_pk S a u) ws) c"
      by (cases "d ?k"; cases "the (d ?k)") (simp_all add: row)
    have none: "usable [] = {}" by (simp add: usable_def)
    show ?thesis unfolding list.set(2) refs list.map eq 1(1) none Un_empty_left
      using Cons.IH[OF Cons.prems(1)] Cons.prems(2) by simp
  next
    case 2
    note items = posting_bin[where d = d, OF each_keyedD[OF ok 2] 2]
    from scan_refs_scanned[OF items(2) Cons.prems(1)] obtain c1 where
      c1: "scan_refs (postings_of d ?k) c = Inr c1" "scanned R (usable (postings_of d ?k)) c1" by blast
    show ?thesis
    proof (cases "MAX_SEARCH_CANDIDATES \<le> length c1")
      case True
      with c1 2 items(1) show ?thesis by (auto simp: row refs intro: scanned_trans)
    next
      case False
      with c1(2) have inv: "cand_inv c1 (R \<union> usable (postings_of d ?k))" by (auto simp: scanned_def)
      from Cons.IH[OF this] Cons.prems(2) obtain c2 where
        "scan_postings rows (map (posting_pk S a u) ws) c1 = Inr c2"
        "scanned (R \<union> usable (postings_of d ?k)) (user_refs S d a u (set ws)) c2" by auto
      with False c1(1) 2 items(1) show ?thesis by (auto simp: row refs scanned_def Un_assoc)
    qed
  qed
qed

section \<open>Scores\<close>

definition hit :: "schema \<Rightarrow> db \<Rightarrow> string \<Rightarrow> string \<Rightarrow> string set \<Rightarrow> string \<times> string \<times> rat \<Rightarrow> scored option" where
  "hit S d a u q = (\<lambda>(e, s, t). case d (memory_pk S a u s e) of
     None \<Rightarrow> None
   | Some bs \<Rightarrow>
       if map_of bs APP_NAME = Some (PStr a) \<and> map_of bs USER_ID = Some (PStr u) \<and> row_words bs \<inter> q \<noteq> {}
       then Some ((int (card (row_words bs \<inter> q)), t), bs) else None)"

lemma overlap_words:
  assumes "set l \<subseteq> range PStr"
  shows "overlap q l = Inr (int (card ({w. PStr w \<in> set l} \<inter> set q)))"
proof -
  have "list_all hashable l" using assms by (auto simp: list_all_iff)
  moreover have "set (filter (\<lambda>v. v \<in> PStr ` set q) l) = PStr ` ({w. PStr w \<in> set l} \<inter> set q)" by auto
  then have "card (set (filter (\<lambda>v. v \<in> PStr ` set q) l)) = card ({w. PStr w \<in> set l} \<inter> set q)"
    by (metis card_image inj_onI pyval.inject(4))
  ultimately show ?thesis by (simp add: overlap_def length_remdups_card_conv)
qed

lemma keyword_bin:
  assumes "memory_row_ok A S (memory_pk S a u s e) bs"
  obtains l where "list_items (py_or (pget bs KEYWORDS) (PList [])) = Inr l" "set l \<subseteq> range PStr"
    "row_words bs = {w. PStr w \<in> set l}"
proof (cases "map_of bs KEYWORDS")
  case None
  with that[of "[]"] show ?thesis by (simp add: dget_def py_or_def row_words_def)
next
  case (Some v)
  with assms obtain l where "v = PList l" "\<forall>x \<in> set l. x \<in> range PStr"
    by (auto simp: memory_row_ok_def memory_pk_def bin_ok_def is_keywords_def)
  moreover have "list_items (py_or (PList l) (PList [])) = Inr l" by (simp add: py_or_def)
  ultimately show ?thesis using Some by (intro that[of l]) (auto simp: dget_def row_words_def)
qed

lemma score_rows_hits:
  assumes ok: "each_keyed (memory_row_ok A S) d"
    and rows: "\<forall>(e, s, t) \<in> set c. map_of rows (memory_pk S a u s e) = Some (d (memory_pk S a u s e))"
  shows "score_rows S a u q rows c = Inr (List.map_filter (hit S d a u (set q)) c)"
  using rows
proof (induction c)
  case Nil
  show ?case by (simp add: List.map_filter_def)
next
  case (Cons p c)
  obtain e s t where p: "p = (e, s, t)" by (cases p)
  let ?k = "memory_pk S a u s e"
  have row: "map_of rows ?k = Some (d ?k)" and IH: "score_rows S a u q rows c = Inr (List.map_filter (hit S d a u (set q)) c)"
    using Cons p by auto
  show ?case
  proof (cases "d ?k")
    case None
    with IH row show ?thesis by (simp add: p hit_def List.map_filter_simps)
  next
    case (Some bs)
    obtain l where l: "list_items (py_or (pget bs KEYWORDS) (PList [])) = Inr l" "set l \<subseteq> range PStr"
      "row_words bs = {w. PStr w \<in> set l}"
      by (rule keyword_bin[OF each_keyedD[OF ok Some]])
    have "finite (row_words bs \<inter> set q)" by simp
    with Some IH row l(1) overlap_words[OF l(2), of q] show ?thesis
      by (cases bs) (auto simp: p hit_def List.map_filter_simps dget_def l(3)[symmetric] Let_def split: option.splits if_splits)
  qed
qed

section \<open>Ranking\<close>

lemma set_sort_desc [simp]: "set (sort_desc k xs) = set xs"
  by (simp add: sort_desc_def)

lemma length_sort_desc [simp]: "length (sort_desc k xs) = length xs"
  by (simp add: sort_desc_def)

lemma sorted_sort_desc: "sorted_wrt (\<lambda>x y. k y \<le> k x) (sort_desc k xs)"
  using sorted_sort_key[of k "rev xs"] by (simp add: sort_desc_def sorted_map sorted_wrt_rev)

lemma set_py_upto: "set (py_upto n xs) \<subseteq> set xs"
  by (simp add: py_upto_def set_take_subset)

lemma py_upto_all: "int (length xs) \<le> n \<Longrightarrow> py_upto n xs = xs"
  by (simp add: py_upto_def)

lemma length_py_upto: "0 \<le> n \<Longrightarrow> int (length (py_upto n xs)) \<le> n"
  by (simp add: py_upto_def)

section \<open>Entries\<close>

definition content_lossless :: "adk \<Rightarrow> bool" where
  "content_lossless A \<longleftrightarrow> (\<forall>c. validate_content A (PDict (dump_content A c)) = Inr c)"

lemma entry_ok:
  assumes "content_lossless A" "memory_row_ok A S (memory_pk S a u s e) bs"
  shows "\<exists>m. memory_entry_from_bins A bs = Inr m \<and> me_id m = map_option (\<lambda>v. case v of PStr i \<Rightarrow> i | _ \<Rightarrow> []) (map_of bs EVENT_ID)"
proof -
  have ok: "bin_ok (\<lambda>v. v \<in> range PStr) bs EVENT_ID" "bin_ok (\<lambda>v. v \<in> range PStr) bs TEXT"
    "bin_ok (\<lambda>v. v \<in> range PStr) bs AUTHOR" "bin_ok (\<lambda>v. v \<in> range PFloat) bs TIMESTAMP"
    "bin_ok (\<lambda>v. v \<in> range (PDict \<circ> dump_content A)) bs CONTENT"
    using assms(2) by (simp_all add: memory_row_ok_def memory_pk_def)
  obtain t where t: "str_of (dget bs TEXT (PStr [])) = Inr t"
    using ok(2) by (auto simp: bin_ok_def dget_def split: option.splits)
  obtain ct where ct: "(if truthy (pget bs CONTENT) then validate_content A (pget bs CONTENT)
            else Inr \<lparr>ct_role = None, ct_parts = Some [\<lparr>pt_text = Some t, pt_inline_data = None, pt_file_data = None\<rparr>]\<rparr>) = Inr ct"
  proof (cases "map_of bs CONTENT")
    case (Some v)
    then obtain c where "v = PDict (dump_content A c)" using ok(5) by (auto simp: bin_ok_def)
    with Some assms(1) that show ?thesis by (cases "dump_content A c = []") (auto simp: content_lossless_def dget_def)
  qed (use that in \<open>simp add: dget_def\<close>)
  obtain ts where ts: "(if truthy (pget bs TIMESTAMP)
            then ebind (real_of (pget bs TIMESTAMP)) (\<lambda>ts. Inr (Some (format_timestamp A ts))) else Inr None) = Inr ts"
  proof (cases "map_of bs TIMESTAMP")
    case (Some v)
    then obtain r where "v = PFloat r" using ok(4) by (auto simp: bin_ok_def)
    with Some that show ?thesis by (cases "r = 0") (auto simp: dget_def)
  qed (use that in \<open>simp add: dget_def\<close>)
  obtain au where au: "opt_str (pget bs AUTHOR) = Inr au"
    using ok(3) by (auto simp: bin_ok_def dget_def split: option.splits)
  have i: "opt_str (pget bs EVENT_ID) = Inr (map_option (\<lambda>v. case v of PStr i \<Rightarrow> i | _ \<Rightarrow> []) (map_of bs EVENT_ID))"
    using ok(1) by (auto simp: bin_ok_def dget_def split: option.splits)
  show ?thesis unfolding memory_entry_from_bins_def t ebind_simps ct ts au i by simp
qed

section \<open>The search\<close>

text \<open>A list of candidates for the words \<open>q\<close>: no event twice, each with a reference from one of
  the posting lists, and all events that are referred to unless the cap was reached.\<close>

definition candidates_for :: "schema \<Rightarrow> db \<Rightarrow> string \<Rightarrow> string \<Rightarrow> string set \<Rightarrow> candidates \<Rightarrow> bool" where
  "candidates_for S d a u q c \<longleftrightarrow> distinct (map fst c) \<and> set c \<subseteq> user_refs S d a u q
     \<and> (card (fst ` user_refs S d a u q) < MAX_SEARCH_CANDIDATES \<longrightarrow>
          (\<forall>(e, s, t) \<in> user_refs S d a u q. \<exists>s' t'. (e, s', t') \<in> set c \<and> t \<le> t'))"

lemma finite_user_refs: "finite q \<Longrightarrow> finite (user_refs S d a u q)"
proof -
  have "finite (usable l)" for l
  proof (rule finite_surj[of "set l"])
    show "finite (set l)" by simp
    show "usable l \<subseteq> (\<lambda>v. THE r. v = ref_val r) ` set l"
      by (auto simp: usable_def image_iff simp del: ref_val.simps)
        (metis (mono_tags, lifting) ref_val_inject the_equality)
  qed
  then show "finite q \<Longrightarrow> ?thesis" by (simp add: user_refs_def)
qed

lemma scanned_candidates:
  assumes sc: "scanned {} (user_refs S d a u q) c" and fin: "finite q"
  shows "candidates_for S d a u q c"
proof -
  obtain R where inv: "cand_inv c R" and sub: "R \<subseteq> user_refs S d a u q"
    and all: "R = user_refs S d a u q \<or> MAX_SEARCH_CANDIDATES \<le> length c"
    using sc by (auto simp: scanned_def)
  have dist: "distinct (map fst c)" using inv by (simp add: cand_inv_def)
  have "set c \<subseteq> R"
  proof
    fix x assume x: "x \<in> set c"
    obtain e s t where "x = (e, s, t)" by (cases x)
    with x dist have "map_of c e = Some (s, t)" by simp
    with inv \<open>x = _\<close> show "x \<in> R" unfolding cand_inv_def by blast
  qed
  moreover have "R = user_refs S d a u q" if "card (fst ` user_refs S d a u q) < MAX_SEARCH_CANDIDATES"
  proof -
    have "length c \<le> card (fst ` user_refs S d a u q)"
      unfolding cand_inv_length[OF inv] using sub by (intro card_mono finite_imageI finite_user_refs[OF fin] image_mono)
    with that all show ?thesis by simp
  qed
  moreover have "\<exists>s' t'. (e, s', t') \<in> set c \<and> t \<le> t'" if r: "(e, s, t) \<in> R" for e s t
  proof -
    obtain s' t' where "map_of c e = Some (s', t')" "t \<le> t'" using inv r unfolding cand_inv_def by blast
    then show ?thesis by (blast dest: map_of_SomeD)
  qed
  ultimately show ?thesis using dist sub unfolding candidates_for_def by blast
qed

text \<open>The result of a search, given the candidates.\<close>

definition ranked :: "schema \<Rightarrow> db \<Rightarrow> int \<Rightarrow> string \<Rightarrow> string \<Rightarrow> string set \<Rightarrow> candidates \<Rightarrow> scored list" where
  "ranked S d k a u q c = py_upto k (sort_desc fst (List.map_filter (hit S d a u q) c))"

lemma ranked_hit:
  assumes "h \<in> set (ranked S d k a u q c)"
  obtains e s t where "(e, s, t) \<in> set c" "hit S d a u q (e, s, t) = Some h"
proof -
  have "h \<in> set (List.map_filter (hit S d a u q) c)"
    using assms set_py_upto[of k "sort_desc fst (List.map_filter (hit S d a u q) c)"] by (auto simp: ranked_def)
  then obtain x where x: "x \<in> set c" "hit S d a u q x = Some h" by (auto simp: List.map_filter_def)
  obtain e s t where "x = (e, s, t)" by (cases x)
  with x that show thesis by blast
qed

lemma hit_row:
  assumes "hit S d a u q (e, s, t) = Some h"
  shows "d (memory_pk S a u s e) = Some (snd h)" "map_of (snd h) APP_NAME = Some (PStr a)"
    "map_of (snd h) USER_ID = Some (PStr u)" "fst h = (int (card (row_words (snd h) \<inter> q)), t)" "row_words (snd h) \<inter> q \<noteq> {}"
  using assms by (auto simp: hit_def split: option.splits if_splits)

context reliable_client begin

lemma wp_search:
  assumes ok: "each_keyed (memory_row_ok A S) (view (srv w))" and A: "content_lossless A"
    and Q: "\<And>s' c ms. view s' = view (srv w) \<Longrightarrow> candidates_for S (view (srv w)) a u (set (tokenize so query)) c \<Longrightarrow>
      map (memory_entry_from_bins A \<circ> snd) (ranked S (view (srv w)) k a u (set (tokenize so query)) c) = map Inr ms \<Longrightarrow>
      Q (Inr ms) (w\<lparr>srv := s'\<rparr>)"
  shows "wp (search_memory X A so S k a u query) Q w"
proof -
  let ?q = "tokenize so query" and ?d = "view (srv w)"
  let ?pks = "map (posting_pk S a u) ?q"
  have none: "Q (Inr []) (w\<lparr>srv := s'\<rparr>)" if "view s' = ?d" "candidates_for S ?d a u (set ?q) []" for s'
    using that by (intro Q) (auto simp: ranked_def List.map_filter_simps sort_desc_def py_upto_def)
  show ?thesis
  proof (cases "?q = []")
    case True
    have "candidates_for S ?d a u (set ?q) []" by (simp add: True candidates_for_def user_refs_def)
    with none[of "srv w"] True show ?thesis by (simp add: search_memory_def wp_simps)
  next
    case False
    show ?thesis
      unfolding search_memory_def Let_def if_not_P[OF False] wp_bindE[of "batch_read X ?pks"]
    proof (rule wp_batch_read_map, goal_cases)
      case 1
      show ?case using False by simp
    next
      case (2 s1 rows)
      have "\<forall>w' \<in> set ?q. map_of rows (posting_pk S a u w') = Some (?d (posting_pk S a u w'))" using 2(2) by simp
      from scan_postings_scanned[OF ok this cand_inv_empty] obtain c where
        c: "scan_postings rows ?pks [] = Inr c" "scanned {} (user_refs S ?d a u (set ?q)) c" by blast
      have cf: "candidates_for S ?d a u (set ?q) c" by (rule scanned_candidates[OF c(2)]) simp
      show ?case
      proof (cases "c = []")
        case True
        with none[OF 2(1)] cf c(1) show ?thesis by (simp add: wp_simps)
      next
        case False
        let ?mks = "map (\<lambda>(eid, sid, _). memory_pk S a u sid eid) c"
        have mem: "wp (batch_read X ?mks) (\<lambda>r w'. case r of Inl e \<Rightarrow> Q (Inl e) w'
            | Inr mrows \<Rightarrow> wp (bindE (liftE (score_rows S a u ?q mrows c))
                (\<lambda>scored. liftE (emap (memory_entry_from_bins A) (map snd (py_upto k (sort_desc fst scored)))))) Q w') (w\<lparr>srv := s1\<rparr>)"
        proof (rule wp_batch_read_map, goal_cases)
          case 1
          show ?case using False by simp
        next
          case (2 s2 mrows)
          have v: "view s2 = ?d" using 2(1) \<open>view s1 = ?d\<close> by simp
          have "map_of mrows (memory_pk S a u s e) = Some (?d (memory_pk S a u s e))" if "(e, s, t) \<in> set c" for e s t
            using 2(2)[of "memory_pk S a u s e"] that \<open>view s1 = ?d\<close> by force
          then have score: "score_rows S a u ?q mrows c = Inr (List.map_filter (hit S ?d a u (set ?q)) c)"
            by (intro score_rows_hits[OF ok]) blast
          let ?r = "ranked S ?d k a u (set ?q) c"
          define ms where "ms = map (\<lambda>h. projr (memory_entry_from_bins A (snd h))) ?r"
          have each: "memory_entry_from_bins A (snd h) = Inr (projr (memory_entry_from_bins A (snd h)))" if h: "h \<in> set ?r" for h
          proof -
            obtain e s t where "hit S ?d a u (set ?q) (e, s, t) = Some h" by (rule ranked_hit[OF h])
            from each_keyedD[OF ok hit_row(1)[OF this]] show ?thesis using entry_ok[OF A] by fastforce
          qed
          then have "map (memory_entry_from_bins A \<circ> snd) ?r = map Inr ms" by (simp add: ms_def)
          moreover have "emap (memory_entry_from_bins A) (map snd ?r) = Inr ms"
            unfolding ms_def by (rule emap_ok) (rule each)
          ultimately show ?case using Q[OF v cf] score by (simp add: wp_simps ranked_def)
        qed
        then show ?thesis using False c(1) by (simp add: wp_bindE wp_liftE)
      qed
    qed
  qed
qed

end

end
