(* ===== verification/Memory_Contract.thy ===== *)
theory Memory_Contract
  imports Memory_Search
begin

text \<open>
  What the memory service promises: records keep their shape and stay with their user whatever
  the cluster does; on a reliable cluster posting lists are trimmed to their newest entries,
  a search returns ranked rows of the user that share a word with the query, an event that was
  added is found by a query that shares a word with it, and a session that is purged leaves no row.
\<close>

section \<open>What the writes keep\<close>

definition memory_tolerates ::
  "(bins \<Rightarrow> bool) \<Rightarrow> (ae_error \<Rightarrow> int) \<Rightarrow> (db \<Rightarrow> bool) \<Rightarrow> adk \<Rightarrow> (string list \<Rightarrow> string list) \<Rightarrow> schema \<Rightarrow> string \<Rightarrow> string \<Rightarrow> bool" where
  "memory_tolerates fits code P A so S a u \<longleftrightarrow>
     (\<forall>w r. stable fits code P (ROperate (posting_pk S a u w) [ListAppend MEM_POSTINGS (ref_val r), ReadBin MEM_POSTINGS] None))
     \<and> (\<forall>w n. stable fits code P (ROperate (posting_pk S a u w) [ListRemoveByIndexRange MEM_POSTINGS 0 n] None))
     \<and> (\<forall>w v. stable fits code P (ROperate (posting_pk S a u w) [ListRemoveByValue MEM_POSTINGS v] None))
     \<and> (\<forall>s e t. stable fits code P (RPut (memory_pk S a u s (ev_id e)) (memory_bins A so a u s e t) False))
     \<and> (\<forall>s e. stable fits code P (RRemove (memory_pk S a u s e)))"

context aerospike_client begin

lemma keeps_upsert:
  assumes "memory_tolerates fits (x_code X) P A so S a u"
  shows "keeps view P (upsert_memory X A so S a u s e t)"
proof -
  have "stable fits (x_code X) P (ROperate (posting_pk S a u w) [ListAppend MEM_POSTINGS (posting_ref e' s' t'), ReadBin MEM_POSTINGS] None)" for w e' s' t'
    using assms unfolding memory_tolerates_def by (metis ref_val.simps)
  then show ?thesis
    unfolding upsert_memory_def append_posting_ref_def Let_def
    by (intro keeps_intros keeps_operate keeps_put) (use assms in \<open>simp_all add: memory_tolerates_def\<close>)
qed

lemma keeps_purge:
  assumes "memory_tolerates fits (x_code X) P A so S a u"
  shows "keeps view P (purge_session_memories X S a u s)"
  unfolding purge_session_memories_def purge_row_def remove_posting_refs_def
  by (intro keeps_intros keeps_operate keeps_remove keeps_query) (use assms in \<open>simp_all add: memory_tolerates_def\<close>)

lemma keeps_mem_batch: "keeps view P (batch_read X ks)"
  unfolding batch_read_def by (intro keeps_intros keeps_batch_read)

lemma keeps_add_session:
  "memory_tolerates fits (x_code X) P A so S (s_app_name ss) (s_user_id ss) \<Longrightarrow> keeps view P (add_session_to_memory X A so S ss)"
  unfolding add_session_to_memory_def by (intro keeps_intros keeps_purge keeps_upsert)

lemma keeps_add_events:
  "memory_tolerates fits (x_code X) P A so S a u \<Longrightarrow> keeps view P (add_events_to_memory X A so S a u es sid)"
  unfolding add_events_to_memory_def Let_def
  by (intro keeps_intros) (auto intro!: keeps_intros keeps_mem_batch keeps_upsert split: option.split list.split)

lemma keeps_search: "keeps view P (search_memory X A so S k a u q)"
  unfolding search_memory_def Let_def by (intro keeps_intros keeps_mem_batch)

end

text \<open>The two things every write keeps: the shape of memory records, and everybody else's records.\<close>

lemma dset_postings_ok: "memory_row_ok A S k bs \<Longrightarrow> is_postings v \<Longrightarrow> memory_row_ok A S k (dset MEM_POSTINGS v bs)"
  by (simp add: memory_row_ok_def bin_ok_def)

lemma is_postings_drop: "is_postings (PList l) \<Longrightarrow> is_postings (PList (drop n l))"
  by (auto simp: is_postings_def dest: in_set_dropD)

text \<open>An operation on a posting list keeps the shape if it keeps lists of references.\<close>

lemma postings_op_ok:
  assumes "\<And>bs bs' out. apply_op x bs = Inr (bs', out) \<Longrightarrow> bs' = bs \<or> (\<exists>v. bs' = dset MEM_POSTINGS v bs \<and>
      (bin_ok is_postings bs MEM_POSTINGS \<longrightarrow> is_postings v))"
  shows "op_keeps (memory_row_ok A S k) x"
  unfolding op_keeps_def
proof (intro allI impI)
  fix bs bs' out assume ok: "memory_row_ok A S k bs" and "apply_op x bs = Inr (bs', out)"
  show "memory_row_ok A S k bs'"
  proof (cases "fst k = namespace S \<and> fst (snd k) = memory_set S")
    case True
    with ok have "bin_ok is_postings bs MEM_POSTINGS" by (simp add: memory_row_ok_def)
    with assms[OF \<open>apply_op x bs = _\<close>] ok dset_postings_ok[OF ok] show ?thesis by blast
  qed (auto simp: memory_row_ok_def)
qed

lemma append_op_ok: "op_keeps (memory_row_ok A S k) (ListAppend MEM_POSTINGS (ref_val r))"
  by (rule postings_op_ok) (auto simp: bin_ok_def is_postings_def simp del: ref_val.simps split: option.splits pyval.splits)

lemma trim_op_ok: "op_keeps (memory_row_ok A S k) (ListRemoveByIndexRange MEM_POSTINGS 0 n)"
  by (rule postings_op_ok)
    (auto simp: bin_ok_def simp del: ref_val.simps intro: is_postings_drop split: option.splits pyval.splits if_splits)

lemma remove_op_ok: "op_keeps (memory_row_ok A S k) (ListRemoveByValue MEM_POSTINGS v)"
  by (rule postings_op_ok) (auto simp: bin_ok_def is_postings_def simp del: ref_val.simps split: option.splits pyval.splits)

lemma read_op_ok: "op_keeps (memory_row_ok A S k) (ReadBin b)"
  by (rule postings_op_ok) simp

lemma put_memory_ok: "memory_row_ok A S (memory_pk S a u s (ev_id e)) old \<Longrightarrow>
  memory_row_ok A S (memory_pk S a u s (ev_id e)) (put_bins old (memory_bins A so a u s e t))"
  by (cases "ev_content e")
    (auto simp: memory_row_ok_def memory_pk_def bin_ok_def memory_bins_def is_keywords_def scope_tuple_def memory_key_def)

lemma empty_memory_ok: "memory_row_ok A S k []"
  by (simp add: memory_row_ok_def bin_ok_def)

lemma memory_ok_tolerates: "memory_tolerates fits code (each_keyed (memory_row_ok A S)) A so S a u"
  unfolding memory_tolerates_def
  by (intro conjI allI stable_keyed_operate stable_keyed_put stable_keyed_remove put_memory_ok empty_memory_ok)
    (simp_all add: append_op_ok trim_op_ok remove_op_ok read_op_ok del: ref_val.simps)

definition memory_records :: "schema \<Rightarrow> string \<Rightarrow> string \<Rightarrow> pk set" where
  "memory_records S a u = range (posting_pk S a u) \<union> {memory_pk S a u s e | s e. True}"

lemma other_memory_tolerates: "k \<notin> memory_records S a u \<Longrightarrow> memory_tolerates fits code (\<lambda>d. d k = v) A so S a u"
  unfolding memory_tolerates_def by (intro conjI allI stable_frame) (auto simp: memory_records_def)

lemma memory_records_apart:
  assumes "no_colon a" "no_colon u" "no_colon a'" "no_colon u'" "(a, u) \<noteq> (a', u')" "k \<in> memory_records S a' u'"
  shows "k \<notin> memory_records S a u"
  using assms
  by (auto simp: memory_records_def memory_pk_def posting_pk_def memory_key_def memory_posting_key_def SEP_def first_field_eq)

section \<open>Posting lists\<close>

definition newest :: "nat \<Rightarrow> 'a list \<Rightarrow> 'a list" where
  "newest n l = drop (length l - n) l"

definition with_postings :: "db \<Rightarrow> pk \<Rightarrow> pyval list \<Rightarrow> bins" where
  "with_postings d k l = dset MEM_POSTINGS (PList l) (rec_at d k)"

lemma dset_twice: "dset k v (dset k w d) = dset k v d"
  by (induction d) (auto simp: dset_def)

lemma dset_single: "dset k w [(k, v)] = [(k, w)]" "dset k w [] = [(k, w)]"
  by (simp_all add: dset_def)

lemma postings_no_bin: "bin_ok is_postings (rec_at d k) MEM_POSTINGS \<Longrightarrow>
  (case map_of (rec_at d k) MEM_POSTINGS of None \<Rightarrow> postings_of d k = [] | Some v \<Rightarrow> v = PList (postings_of d k))"
  by (auto simp: bin_ok_def is_postings_def postings_of_def rec_at_def split: option.splits)

lemma operate_append:
  assumes ok: "bin_ok is_postings (rec_at d k) MEM_POSTINGS" and fit: "fits (with_postings d k (postings_of d k @ [v]))"
  shows "operate_db fits k [ListAppend MEM_POSTINGS v, ReadBin MEM_POSTINGS] None d =
    (Inr [(MEM_POSTINGS, PList (postings_of d k @ [v]))], d(k \<mapsto> with_postings d k (postings_of d k @ [v])))"
  using postings_no_bin[OF ok] fit
  by (auto simp: operate_creating run_ops_def with_postings_def dset_single split: option.splits)

lemma operate_trim:
  assumes "d k = Some (dset MEM_POSTINGS (PList l) bs)" "0 \<le> n" "fits (dset MEM_POSTINGS (PList (drop (nat n) l)) bs)"
  shows "operate_db fits k [ListRemoveByIndexRange MEM_POSTINGS 0 n] None d =
    (Inr [], d(k \<mapsto> dset MEM_POSTINGS (PList (drop (nat n) l)) bs))"
  using assms by (simp add: operate_db_def run_ops_def dset_twice)

definition posted :: "db \<Rightarrow> pk \<Rightarrow> pyval \<Rightarrow> db" where
  "posted d k v = d(k \<mapsto> with_postings d k (newest MAX_POSTING_LIST_SIZE (postings_of d k @ [v])))"

text \<open>Room for one more reference, and for the list that is left after trimming.\<close>

definition room_to_post :: "(bins \<Rightarrow> bool) \<Rightarrow> db \<Rightarrow> pk \<Rightarrow> pyval \<Rightarrow> bool" where
  "room_to_post fits d k v \<longleftrightarrow> fits (with_postings d k (postings_of d k @ [v]))
     \<and> fits (with_postings d k (newest MAX_POSTING_LIST_SIZE (postings_of d k @ [v])))"

context reliable_client begin

lemma wp_append_posting:
  assumes ok: "bin_ok is_postings (rec_at (view (srv w)) (posting_pk S a u t)) MEM_POSTINGS"
    and fit: "room_to_post fits (view (srv w)) (posting_pk S a u t) v"
    and Q: "\<And>s'. view s' = posted (view (srv w)) (posting_pk S a u t) v \<Longrightarrow> Q (Inr ()) (w\<lparr>srv := s'\<rparr>)"
  shows "wp (append_posting_ref X S a u t v) Q w"
proof -
  let ?k = "posting_pk S a u t" and ?d = "view (srv w)"
  let ?l = "postings_of ?d ?k @ [v]"
  have fits: "fits (with_postings ?d ?k ?l)" "fits (with_postings ?d ?k (newest MAX_POSTING_LIST_SIZE ?l))"
    using fit by (simp_all add: room_to_post_def)
  note app = operate_append[where d = ?d and k = ?k and fits = fits and v = v, OF ok fits(1)]
  show ?thesis
    unfolding append_posting_ref_def Let_def wp_bindE[of "client_operate X ?k [ListAppend MEM_POSTINGS v, ReadBin MEM_POSTINGS] None"]
  proof (rule wp_operate, simp, unfold app, goal_cases)
    case (1 s1)
    then have s1: "view s1 = ?d(?k \<mapsto> with_postings ?d ?k ?l)" by simp
    show ?case
    proof (cases "length ?l \<le> MAX_POSTING_LIST_SIZE")
      case True
      then have "newest MAX_POSTING_LIST_SIZE ?l = ?l" by (simp add: newest_def)
      with Q[of s1] s1 True show ?thesis by (simp add: wp_simps py_or_def dget_def posted_def)
    next
      case False
      let ?n = "int (length ?l) - int MAX_POSTING_LIST_SIZE"
      have n: "0 \<le> ?n" "nat ?n = length ?l - MAX_POSTING_LIST_SIZE" using False by linarith+
      have trim: "operate_db fits ?k [ListRemoveByIndexRange MEM_POSTINGS 0 ?n] None (view s1) =
          (Inr [], posted ?d ?k v)"
        unfolding s1
        by (subst operate_trim[where l = ?l and bs = "rec_at ?d ?k"])
          (use n fits(2) in \<open>simp_all add: with_postings_def newest_def posted_def\<close>)
      have "wp (client_operate X ?k [ListRemoveByIndexRange MEM_POSTINGS 0 ?n] None)
          (\<lambda>r w'. case r of Inl e \<Rightarrow> Q (Inl e) w' | Inr _ \<Rightarrow> wp (retE ()) Q w') (w\<lparr>srv := s1\<rparr>)"
        by (rule wp_operate) (use trim Q in \<open>auto simp: wp_retE\<close>)
      with False show ?thesis by (simp add: wp_simps py_or_def dget_def)
    qed
  qed
qed

end

text \<open>The posting lists of different words are different records.\<close>

lemma posting_pk_inject [simp]: "posting_pk S a u w = posting_pk S a u w' \<longleftrightarrow> w = w'"
  by (simp add: posting_pk_def)

lemma posting_pk_image [simp]: "posting_pk S a u w \<in> posting_pk S a u ` W \<longleftrightarrow> w \<in> W"
  by auto

lemma posted_other: "k' \<noteq> k \<Longrightarrow> posted d k v k' = d k'"
  by (simp add: posted_def)

lemma posted_bins: "posted d k v k = Some (with_postings d k (newest MAX_POSTING_LIST_SIZE (postings_of d k @ [v])))"
  by (simp add: posted_def)

lemma postings_posted: "postings_of (posted d k v) k = newest MAX_POSTING_LIST_SIZE (postings_of d k @ [v])"
  by (simp add: postings_of_def posted_def with_postings_def)

definition posted_all :: "schema \<Rightarrow> string \<Rightarrow> string \<Rightarrow> pyval \<Rightarrow> string list \<Rightarrow> db \<Rightarrow> db" where
  "posted_all S a u v ws d = fold (\<lambda>w d. posted d (posting_pk S a u w) v) ws d"

lemma posted_all_other: "k \<notin> posting_pk S a u ` set ws \<Longrightarrow> posted_all S a u v ws d k = d k"
  unfolding posted_all_def by (induction ws arbitrary: d) (auto simp: posted_other)

lemma posted_all_word:
  "distinct ws \<Longrightarrow> w \<in> set ws \<Longrightarrow> posted_all S a u v ws d (posting_pk S a u w) = posted d (posting_pk S a u w) v (posting_pk S a u w)"
proof (induction ws arbitrary: d)
  case (Cons w0 ws)
  show ?case
  proof (cases "w = w0")
    case True
    with Cons.prems posted_all_other[of "posting_pk S a u w" S a u ws v "posted d (posting_pk S a u w) v"]
    show ?thesis by (auto simp: posted_all_def)
  next
    case False
    let ?d = "posted d (posting_pk S a u w0) v"
    have "?d (posting_pk S a u w) = d (posting_pk S a u w)" using False by (intro posted_other) simp
    then have "posted ?d (posting_pk S a u w) v (posting_pk S a u w) = posted d (posting_pk S a u w) v (posting_pk S a u w)"
      by (simp add: posted_def with_postings_def postings_of_def rec_at_def)
    with Cons False show ?thesis by (simp add: posted_all_def)
  qed
qed simp

context reliable_client begin

lemma wp_post_all:
  assumes "distinct ws"
    and "\<And>w'. w' \<in> set ws \<Longrightarrow> bin_ok is_postings (rec_at (view (srv w)) (posting_pk S a u w')) MEM_POSTINGS"
    and "\<And>w'. w' \<in> set ws \<Longrightarrow> room_to_post fits (view (srv w)) (posting_pk S a u w') v"
    and "\<And>s'. view s' = posted_all S a u v ws (view (srv w)) \<Longrightarrow> Q (Inr ()) (w\<lparr>srv := s'\<rparr>)"
  shows "wp (forE (\<lambda>t. append_posting_ref X S a u t v) ws) Q w"
  using assms
proof (induction ws arbitrary: w)
  case Nil
  from Nil(4)[of "srv w"] show ?case by (simp add: wp_simps posted_all_def)
next
  case (Cons w0 ws)
  let ?d = "view (srv w)"
  have same: "posted ?d (posting_pk S a u w0) v (posting_pk S a u w') = ?d (posting_pk S a u w')" if "w' \<in> set ws" for w'
    using that Cons.prems(1) by (intro posted_other) auto
  show ?case
    unfolding wp_forE_Cons
  proof (rule wp_append_posting, goal_cases)
    case 1
    show ?case using Cons.prems(2)[of w0] by simp
  next
    case 2
    show ?case using Cons.prems(3)[of w0] by simp
  next
    case (3 s1)
    have "wp (forE (\<lambda>t. append_posting_ref X S a u t v) ws) Q (w\<lparr>srv := s1\<rparr>)"
    proof (rule Cons.IH)
      show "distinct ws" using Cons.prems(1) by simp
      fix w' assume w': "w' \<in> set ws"
      have rec: "rec_at (view s1) (posting_pk S a u w') = rec_at ?d (posting_pk S a u w')"
        "postings_of (view s1) (posting_pk S a u w') = postings_of ?d (posting_pk S a u w')"
        using same[OF w'] by (simp_all add: 3 rec_at_def postings_of_def)
      from Cons.prems(2)[of w'] w' show "bin_ok is_postings (rec_at (view (srv (w\<lparr>srv := s1\<rparr>))) (posting_pk S a u w')) MEM_POSTINGS"
        by (simp add: rec)
      from Cons.prems(3)[of w'] w' show "room_to_post fits (view (srv (w\<lparr>srv := s1\<rparr>))) (posting_pk S a u w') v"
        by (simp add: rec room_to_post_def with_postings_def)
    next
      fix s' assume "view s' = posted_all S a u v ws (view (srv (w\<lparr>srv := s1\<rparr>)))"
      then have "view s' = posted_all S a u v (w0 # ws) ?d" by (simp add: 3 posted_all_def)
      from Cons.prems(4)[OF this] show "Q (Inr ()) (w\<lparr>srv := s1, srv := s'\<rparr>)" by simp
    qed
    then show ?case by simp
  qed
qed

end

section \<open>Adding an event\<close>

text \<open>Memory rows and posting lists share a set; their keys meet only for the session \<open>kw\<close>.\<close>

lemma memory_pk_not_posting:
  assumes "s \<noteq> ''kw''" "no_colon w"
  shows "memory_pk S a u s e \<noteq> posting_pk S a u w"
proof
  assume "memory_pk S a u s e = posting_pk S a u w"
  then have eq: "s @ CHR '':'' # e = ''kw'' @ CHR '':'' # w"
    by (simp add: memory_pk_def posting_pk_def memory_key_def memory_posting_key_def key_consts)
  have "no_colon s"
  proof
    assume "CHR '':'' \<in> set s"
    then obtain s1 s2 where "s = s1 @ CHR '':'' # s2" "no_colon s1" by (meson split_list_first)
    with eq have "s1 @ CHR '':'' # (s2 @ CHR '':'' # e) = ''kw'' @ CHR '':'' # w" by simp
    moreover have "no_colon ''kw''" by simp
    ultimately have "s2 @ CHR '':'' # e = w" using first_field_eq \<open>no_colon s1\<close> by blast
    with assms(2) show False by auto
  qed
  moreover have "no_colon ''kw''" by simp
  ultimately show False using eq first_field_eq[of s "''kw''"] assms(1) by blast
qed

lemma lower_no_colon: "\<forall>c \<in> set w. is_letter c \<Longrightarrow> no_colon (lower w)"
proof
  assume l: "\<forall>c \<in> set w. is_letter c" and "CHR '':'' \<in> set (lower w)"
  then obtain c where c: "c \<in> set w" "lower_char c = CHR '':''" by (auto simp: lower_def)
  then have "(of_char (lower_char c) :: nat) = 58" by simp
  moreover have "65 \<le> (of_char (lower_char c) :: nat)"
    using l c(1) by (auto simp: lower_char_def is_letter_def)
  ultimately show False by simp
qed

lemma token_no_colon: "lists_sets so \<Longrightarrow> w \<in> set (tokenize so s) \<Longrightarrow> no_colon w"
  using tokenize_set[of so s] lower_no_colon by (auto simp: whole_word_def)

definition memory_row :: "adk \<Rightarrow> (string list \<Rightarrow> string list) \<Rightarrow> string \<Rightarrow> string \<Rightarrow> string \<Rightarrow> event \<Rightarrow> string \<Rightarrow> bins" where
  "memory_row A so a u s e t = put_bins [] (memory_bins A so a u s e t)"

lemma memory_row_bins:
  "map_of (memory_row A so a u s e t) APP_NAME = Some (PStr a)"
  "map_of (memory_row A so a u s e t) USER_ID = Some (PStr u)"
  "map_of (memory_row A so a u s e t) EVENT_ID = Some (PStr (ev_id e))"
  "row_words (memory_row A so a u s e t) = set (tokenize so t)"
  by (cases "ev_content e"; force simp: memory_row_def memory_bins_def row_words_def)+

text \<open>The store after an event was added that was not there.\<close>

definition remembered ::
  "adk \<Rightarrow> (string list \<Rightarrow> string list) \<Rightarrow> schema \<Rightarrow> string \<Rightarrow> string \<Rightarrow> string \<Rightarrow> event \<Rightarrow> string \<Rightarrow> db \<Rightarrow> db" where
  "remembered A so S a u s e t d =
     posted_all S a u (posting_ref (ev_id e) s (ev_timestamp e)) (tokenize so t)
       (d(memory_pk S a u s (ev_id e) \<mapsto> memory_row A so a u s e t))"

lemma postings_remembered:
  assumes "lists_sets so" "s \<noteq> ''kw''"
  shows "w \<in> set (tokenize so t) \<Longrightarrow> postings_of (remembered A so S a u s e t d) (posting_pk S a u w) =
      newest MAX_POSTING_LIST_SIZE (postings_of d (posting_pk S a u w) @ [posting_ref (ev_id e) s (ev_timestamp e)])"
    and "w \<notin> set (tokenize so t) \<Longrightarrow> no_colon w \<Longrightarrow>
      postings_of (remembered A so S a u s e t d) (posting_pk S a u w) = postings_of d (posting_pk S a u w)"
proof -
  let ?d = "d(memory_pk S a u s (ev_id e) \<mapsto> memory_row A so a u s e t)"
  have same: "no_colon w \<Longrightarrow> postings_of ?d (posting_pk S a u w) = postings_of d (posting_pk S a u w)"
    using memory_pk_not_posting[OF assms(2), of w S a u "ev_id e"] by (simp add: postings_of_def)
  { assume w: "w \<in> set (tokenize so t)"
    have "distinct (tokenize so t)" using tokenize_set[OF assms(1)] by blast
    from posted_all_word[OF this w, of S a u _ ?d] same[OF token_no_colon[OF assms(1) w]]
    show "postings_of (remembered A so S a u s e t d) (posting_pk S a u w) =
      newest MAX_POSTING_LIST_SIZE (postings_of d (posting_pk S a u w) @ [posting_ref (ev_id e) s (ev_timestamp e)])"
      using postings_posted[of ?d "posting_pk S a u w"] by (simp add: remembered_def postings_of_def) }
  { assume "w \<notin> set (tokenize so t)" "no_colon w"
    with same show "postings_of (remembered A so S a u s e t d) (posting_pk S a u w) = postings_of d (posting_pk S a u w)"
      by (simp add: remembered_def postings_of_def posted_all_other) }
qed

lemma row_remembered:
  assumes "lists_sets so" "s \<noteq> ''kw''"
  shows "remembered A so S a u s e t d (memory_pk S a u s (ev_id e)) = Some (memory_row A so a u s e t)"
proof -
  have "memory_pk S a u s (ev_id e) \<notin> posting_pk S a u ` set (tokenize so t)"
    using memory_pk_not_posting[OF assms(2)] token_no_colon[OF assms(1)] by blast
  then show ?thesis by (simp add: remembered_def posted_all_other)
qed

lemma usable_newest: "usable (newest n l) \<subseteq> usable l"
  by (auto simp: usable_def newest_def dest: in_set_dropD)

lemma newest_last: "0 < n \<Longrightarrow> x \<in> set (newest n (l @ [x]))"
  by (auto simp: newest_def)

text \<open>The references a later search may use: the new one, and no others than before.\<close>

lemma refs_remembered:
  assumes so: "lists_sets so" and s: "s \<noteq> ''kw''" "s \<noteq> []" and e: "ev_id e \<noteq> []" and q: "\<forall>w \<in> q. no_colon w"
  shows "user_refs S (remembered A so S a u s e t d) a u q \<subseteq> insert (ev_id e, s, ev_timestamp e) (user_refs S d a u q)"
    and "q \<inter> set (tokenize so t) \<noteq> {} \<Longrightarrow> (ev_id e, s, ev_timestamp e) \<in> user_refs S (remembered A so S a u s e t d) a u q"
proof -
  let ?v = "posting_ref (ev_id e) s (ev_timestamp e)" and ?d = "remembered A so S a u s e t d"
  have snoc: "usable (l @ [?v]) \<subseteq> insert (ev_id e, s, ev_timestamp e) (usable l)" for l
    by (auto simp: usable_def posting_ref_def)
  have "usable (postings_of ?d (posting_pk S a u w)) \<subseteq> insert (ev_id e, s, ev_timestamp e) (usable (postings_of d (posting_pk S a u w)))"
    if "w \<in> q" for w
    using postings_remembered[OF so s(1), where w = w] usable_newest snoc q that by (cases "w \<in> set (tokenize so t)") fastforce+
  then show "user_refs S ?d a u q \<subseteq> insert (ev_id e, s, ev_timestamp e) (user_refs S d a u q)"
    unfolding user_refs_def by blast
  assume "q \<inter> set (tokenize so t) \<noteq> {}"
  then obtain w where w: "w \<in> q" "w \<in> set (tokenize so t)" by blast
  have "?v \<in> set (postings_of ?d (posting_pk S a u w))"
    unfolding postings_remembered(1)[OF so s(1) w(2)] by (rule newest_last) (simp add: MAX_POSTING_LIST_SIZE_def)
  then have "(ev_id e, s, ev_timestamp e) \<in> usable (postings_of ?d (posting_pk S a u w))"
    using e s(2) by (simp add: usable_def)
  with w(1) show "(ev_id e, s, ev_timestamp e) \<in> user_refs S ?d a u q" unfolding user_refs_def by blast
qed

definition room_for_event ::
  "(bins \<Rightarrow> bool) \<Rightarrow> adk \<Rightarrow> (string list \<Rightarrow> string list) \<Rightarrow> schema \<Rightarrow> string \<Rightarrow> string \<Rightarrow> string \<Rightarrow> event \<Rightarrow> string \<Rightarrow> db \<Rightarrow> bool" where
  "room_for_event fits A so S a u s e t d \<longleftrightarrow> fits (memory_row A so a u s e t)
     \<and> (\<forall>w \<in> set (tokenize so t). room_to_post fits d (posting_pk S a u w) (posting_ref (ev_id e) s (ev_timestamp e)))"

lemma posting_rec_ok: "each_keyed (memory_row_ok A S) d \<Longrightarrow> bin_ok is_postings (rec_at d (posting_pk S a u w)) MEM_POSTINGS"
  using each_keyedD[of "memory_row_ok A S" d "posting_pk S a u w"]
  by (auto simp: rec_at_def memory_row_ok_def posting_pk_def bin_ok_def split: option.split)

context reliable_client begin

lemma wp_upsert:
  assumes so: "lists_sets so" and s: "s \<noteq> ''kw''" and ok: "each_keyed (memory_row_ok A S) (view (srv w))"
    and new: "view (srv w) (memory_pk S a u s (ev_id e)) = None" and room: "room_for_event fits A so S a u s e t (view (srv w))"
    and Q: "\<And>s'. view s' = remembered A so S a u s e t (view (srv w)) \<Longrightarrow> Q (Inr ()) (w\<lparr>srv := s'\<rparr>)"
  shows "wp (upsert_memory X A so S a u s e t) Q w"
  unfolding upsert_memory_def wp_thenE
proof (rule wp_put, goal_cases)
  case (1 s1)
  let ?d = "view (srv w)" and ?k = "memory_pk S a u s (ev_id e)" and ?v = "posting_ref (ev_id e) s (ev_timestamp e)"
  have put: "put_db fits ?k (memory_bins A so a u s e t) False ?d = (Inr RespNone, ?d(?k \<mapsto> memory_row A so a u s e t))"
    using new room by (simp add: put_db_def memory_row_def room_for_event_def)
  have s1: "view s1 = ?d(?k \<mapsto> memory_row A so a u s e t)" using 1 put by simp
  have same: "view s1 (posting_pk S a u w') = ?d (posting_pk S a u w')" if "w' \<in> set (tokenize so t)" for w'
    using memory_pk_not_posting[OF s token_no_colon[OF so that], THEN not_sym] by (simp add: s1)
  have "wp (forE (\<lambda>token. append_posting_ref X S a u token ?v) (tokenize so t)) Q (w\<lparr>srv := s1\<rparr>)"
  proof (rule wp_post_all, goal_cases)
    case 1
    show ?case using tokenize_set[OF so] by blast
  next
    case (2 w')
    then show ?case using posting_rec_ok[OF ok, of a u w'] same[of w'] by (simp add: rec_at_def)
  next
    case (3 w')
    then show ?case using room same[of w']
      by (simp add: room_for_event_def room_to_post_def with_postings_def rec_at_def postings_of_def)
  next
    case (4 s2)
    then have "view s2 = remembered A so S a u s e t ?d" by (simp add: s1 remembered_def)
    from Q[OF this] show ?case by simp
  qed
  then show ?case by (simp add: put)
qed

lemma wp_add_event:
  assumes so: "lists_sets so" and s: "s \<noteq> ''kw''" "s \<noteq> []" and ok: "each_keyed (memory_row_ok A S) (view (srv w))"
    and new: "view (srv w) (memory_pk S a u s (ev_id e)) = None" and room: "room_for_event fits A so S a u s e t (view (srv w))"
    and t: "event_text e = Some t"
    and Q: "\<And>s'. view s' = remembered A so S a u s e t (view (srv w)) \<Longrightarrow> Q (Inr ()) (w\<lparr>srv := s'\<rparr>)"
  shows "wp (add_events_to_memory X A so S a u [e] (Some s)) Q w"
proof -
  let ?k = "memory_pk S a u s (ev_id e)"
  have "wp (bindE (batch_read X [?k]) (\<lambda>rows. case map_of rows ?k of
        Some (Some (b # bs)) \<Rightarrow> retE () | _ \<Rightarrow> upsert_memory X A so S a u s e t))
      (\<lambda>r w'. case r of Inl e \<Rightarrow> Q (Inl e) w' | Inr _ \<Rightarrow> wp (retE ()) Q w') w"
    unfolding wp_bindE[of "batch_read X [?k]"]
  proof (rule wp_batch_read_map, simp, goal_cases)
    case (1 s1 rows)
    have row: "map_of rows ?k = Some None" using 1(2)[of ?k] new by simp
    have "wp (upsert_memory X A so S a u s e t) (\<lambda>r w'. case r of Inl e \<Rightarrow> Q (Inl e) w' | Inr _ \<Rightarrow> wp (retE ()) Q w') (w\<lparr>srv := s1\<rparr>)"
      by (rule wp_upsert[OF so s(1)]) (use 1(1) ok new room Q in \<open>simp_all add: wp_retE\<close>)
    with row show ?case by simp
  qed
  then show ?thesis using s(2) by (simp add: add_events_to_memory_def t Let_def wp_thenE)
qed

end

lemma set_map_filter: "set (List.map_filter f xs) = {y. \<exists>x \<in> set xs. f x = Some y}"
  by (induction xs) (auto simp: List.map_filter_simps split: option.split)

section \<open>Properties\<close>

text \<open>
  C24. Memory stays in shape and with its user. Whatever faults occur, adding sessions or events
  and searching keep every record of the memory set in shape (posting lists hold references,
  keyword lists hold strings, a row lies under the key its bins name), change no record of
  another user, and a search changes nothing at all.
\<close>

theorem memory_isolation:
  assumes "aerospike_client X view fits"
    and "no_colon a" "no_colon u" "no_colon a'" "no_colon u'" "(a, u) \<noteq> (a', u')" "k \<in> memory_records S a' u'"
    and "s_app_name ss = a" "s_user_id ss = u"
  shows "keeps view (each_keyed (memory_row_ok A S)) (add_session_to_memory X A so S ss)
    \<and> keeps view (each_keyed (memory_row_ok A S)) (add_events_to_memory X A so S a u es sid)
    \<and> keeps view (\<lambda>d. d k = r) (add_session_to_memory X A so S ss)
    \<and> keeps view (\<lambda>d. d k = r) (add_events_to_memory X A so S a u es sid)
    \<and> keeps view P (search_memory X A so S top_k a u q)"
  unfolding assms(8,9)[symmetric]
  using other_memory_tolerates[OF memory_records_apart[OF assms(2-7)]] assms(8,9)
  by (auto intro: aerospike_client.keeps_add_session[OF assms(1)] aerospike_client.keeps_add_events[OF assms(1)]
      memory_ok_tolerates aerospike_client.keeps_search[OF assms(1)])

theorem memory_isolation_witness:
  "keeps mem_view (\<lambda>d. d (posting_pk demo_schema ''app'' ''bob'' ''cat'') = None)
     (add_events_to_memory (scripted_ext 500) sample_adk id demo_schema ''app'' ''ann'' [sample_event ''e1'' 7 []] None)"
proof -
  have k: "posting_pk demo_schema ''app'' ''bob'' ''cat'' \<in> memory_records demo_schema ''app'' ''bob''"
    by (simp add: memory_records_def)
  let ?ss = "\<lparr>s_id = ''s1'', s_app_name = ''app'', s_user_id = ''ann'', s_state = [], s_events = [], s_last_update_time = PFloat 0\<rparr>"
  show ?thesis
    by (rule memory_isolation[where ss = ?ss, OF scripted.aerospike_client_axioms _ _ _ _ _ k, THEN conjunct2, THEN conjunct2,
          THEN conjunct2, THEN conjunct1]) simp_all
qed

text \<open>
  C26. Posting lists keep their newest entries. On a reliable cluster with room for one more
  reference, appending a reference leaves the last 2048 of the old references and the new one,
  so the list never grows past that, and changes nothing else.
\<close>

theorem posting_list_trimmed:
  assumes "reliable_client X view fits" "d = view (srv w)" "each_keyed (memory_row_ok A S) d"
    and "room_to_post fits d (posting_pk S a u t) v"
  shows "\<exists>w'. append_posting_ref X S a u t v w = (Inr (), w')
    \<and> postings_of (view (srv w')) (posting_pk S a u t) =
        drop (length (postings_of d (posting_pk S a u t)) + 1 - 2048) (postings_of d (posting_pk S a u t) @ [v])
    \<and> length (postings_of (view (srv w')) (posting_pk S a u t)) \<le> 2048
    \<and> (\<forall>k. k \<noteq> posting_pk S a u t \<longrightarrow> view (srv w') k = d k)"
proof -
  have "wp (append_posting_ref X S a u t v) (\<lambda>r w'. r = Inr () \<and> view (srv w') = posted d (posting_pk S a u t) v) w"
    by (rule reliable_client.wp_append_posting[OF assms(1)])
      (use assms(2,4) posting_rec_ok[OF assms(3)] in \<open>simp_all\<close>)
  from wp_exI[OF this] show ?thesis
    by (auto simp: postings_posted posted_other newest_def MAX_POSTING_LIST_SIZE_def)
qed

definition memory_world :: "(pk \<times> bins) list \<Rightarrow> mem_server world" where
  "memory_world kvs = \<lparr>srv = loaded_server kvs [], slept = []\<rparr>"

lemma memory_world_view [simp]: "mem_view (srv (memory_world kvs)) = map_of kvs"
  by (simp add: memory_world_def)

theorem posting_list_trimmed_witness:
  "\<exists>w'. append_posting_ref (calm_ext 500) demo_schema ''app'' ''ann'' ''cat'' (posting_ref ''e1'' ''s1'' 7) (memory_world []) = (Inr (), w')
     \<and> postings_of (mem_view (srv w')) (posting_pk demo_schema ''app'' ''ann'' ''cat'') = [posting_ref ''e1'' ''s1'' 7]"
proof -
  have view: "Map.empty = mem_view (srv (memory_world []))" by simp
  have ok: "each_keyed (memory_row_ok sample_adk demo_schema) Map.empty" by (simp add: each_keyed_def)
  have room: "room_to_post (size_limit 500) Map.empty (posting_pk demo_schema ''app'' ''ann'' ''cat'') (posting_ref ''e1'' ''s1'' 7)"
    by (simp add: room_to_post_def with_postings_def rec_at_def postings_of_def newest_def size_limit_def dset_single
        posting_ref_def REF_EID_def REF_SID_def REF_TS_def MAX_POSTING_LIST_SIZE_def)
  have none: "postings_of Map.empty k = []" for k by (simp add: postings_of_def)
  from posting_list_trimmed[OF calm.reliable_client_axioms view ok room] show ?thesis unfolding none by auto
qed

text \<open>
  C23. What a search returns, completely. On a reliable cluster with well-formed memory records a
  search never fails and changes nothing. Its candidates \<open>c\<close> are references that stand in the
  posting lists of the query's words, at most one for each event, and with fewer than 512 events referred to
  each of them is there with its newest reference. A candidate is a hit exactly if its row
  exists, carries the application and the user and shares a word with the query; its rank is
  the number of shared words and then the time of the reference. The answer is made from
  the first \<open>top_k\<close> hits, all if there are fewer, in descending order of rank (for a negative
  \<open>top_k\<close>, from all but the last \<open>-top_k\<close>, as Python slices).
\<close>

theorem search_memory_outcome:
  assumes "reliable_client X view fits" "d = view (srv w)" "each_keyed (memory_row_ok A S) d" "content_lossless A"
    and "q = set (tokenize so query)"
  shows "\<exists>c hs rest ms w'. search_memory X A so S top_k a u query w = (Inr ms, w') \<and> view (srv w') = d
    \<and> distinct (map fst c) \<and> set c \<subseteq> user_refs S d a u q
    \<and> (card (fst ` user_refs S d a u q) < 512 \<longrightarrow>
        (\<forall>(e, s, t) \<in> user_refs S d a u q. \<exists>s' t'. (e, s', t') \<in> set c \<and> t \<le> t'))
    \<and> hs @ rest = sort_desc fst (List.map_filter (hit S d a u q) c)
    \<and> sorted_wrt (\<lambda>x y. fst y \<le> fst x) (hs @ rest)
    \<and> (\<forall>h. h \<in> set (hs @ rest) \<longleftrightarrow> (\<exists>s e t. (e, s, t) \<in> set c \<and> d (memory_pk S a u s e) = Some (snd h)
        \<and> map_of (snd h) APP_NAME = Some (PStr a) \<and> map_of (snd h) USER_ID = Some (PStr u)
        \<and> fst h = (int (card (row_words (snd h) \<inter> q)), t) \<and> row_words (snd h) \<inter> q \<noteq> {}))
    \<and> length hs = (if 0 \<le> top_k then min (nat top_k) (length (hs @ rest)) else length (hs @ rest) - nat (- top_k))
    \<and> map (memory_entry_from_bins A \<circ> snd) hs = map Inr ms"
proof -
  have "wp (search_memory X A so S top_k a u query) (\<lambda>r w'. view (srv w') = d \<and> (\<exists>c ms. r = Inr ms
      \<and> candidates_for S d a u q c
      \<and> map (memory_entry_from_bins A \<circ> snd) (ranked S d top_k a u q c) = map Inr ms)) w"
    by (rule reliable_client.wp_search[OF assms(1) _ assms(4)]) (use assms(2,3,5) in auto)
  from wp_exI[OF this] obtain c ms w' where run: "search_memory X A so S top_k a u query w = (Inr ms, w')" "view (srv w') = d"
    and c: "candidates_for S d a u q c"
    and ms: "map (memory_entry_from_bins A \<circ> snd) (ranked S d top_k a u q c) = map Inr ms" by blast
  let ?all = "sort_desc fst (List.map_filter (hit S d a u q) c)"
  let ?n = "if 0 \<le> top_k then nat top_k else length ?all - nat (- top_k)"
  have hs: "ranked S d top_k a u q c = take ?n ?all" by (simp add: ranked_def py_upto_def)
  have hits: "h \<in> set ?all \<longleftrightarrow> (\<exists>s e t. (e, s, t) \<in> set c \<and> d (memory_pk S a u s e) = Some (snd h)
        \<and> map_of (snd h) APP_NAME = Some (PStr a) \<and> map_of (snd h) USER_ID = Some (PStr u)
        \<and> fst h = (int (card (row_words (snd h) \<inter> q)), t) \<and> row_words (snd h) \<inter> q \<noteq> {})" for h
    unfolding set_sort_desc set_map_filter by (cases h) (force simp: hit_def split: option.splits if_splits)
  have len: "length (take ?n ?all) = (if 0 \<le> top_k then min (nat top_k) (length ?all) else length ?all - nat (- top_k))"
    by (simp add: min.commute)
  have all: "take ?n ?all @ drop ?n ?all = ?all" by (rule append_take_drop_id)
  have cand: "distinct (map fst c)" "set c \<subseteq> user_refs S d a u q"
    "card (fst ` user_refs S d a u q) < 512 \<longrightarrow>
        (\<forall>(e, s, t) \<in> user_refs S d a u q. \<exists>s' t'. (e, s', t') \<in> set c \<and> t \<le> t')"
    using c by (simp_all add: candidates_for_def MAX_SEARCH_CANDIDATES_def)
  show ?thesis
    by (rule exI[of _ c], rule exI[of _ "take ?n ?all"], rule exI[of _ "drop ?n ?all"], rule exI[of _ ms], rule exI[of _ w'])
      (unfold all, intro conjI allI run cand hits len refl sorted_sort_desc ms[unfolded hs])
qed

definition cat_event :: event where
  "cat_event = (sample_event ''e1'' 7 [])\<lparr>ev_content := Some \<lparr>ct_role = None,
     ct_parts = Some [\<lparr>pt_text = Some ''my cat'', pt_inline_data = None, pt_file_data = None\<rparr>]\<rparr>\<rparr>"

lemma sample_content_lossless: "content_lossless sample_adk"
  by (simp add: content_lossless_def sample_adk_def val_content_val)

lemma no_memories_ok: "each_keyed (memory_row_ok A S) Map.empty"
  by (simp add: each_keyed_def)

text \<open>Two rows that share the one word of the query, at different times.\<close>

definition late_cat :: event where
  "late_cat = cat_event\<lparr>ev_id := ''e2'', ev_timestamp := 9\<rparr>"

definition two_cats :: "(pk \<times> bins) list" where
  "two_cats =
     [(memory_pk demo_schema ''app'' ''ann'' ''s1'' ''e1'', memory_row sample_adk id ''app'' ''ann'' ''s1'' cat_event ''my cat''),
      (memory_pk demo_schema ''app'' ''ann'' ''s2'' ''e2'', memory_row sample_adk id ''app'' ''ann'' ''s2'' late_cat ''my cat''),
      (posting_pk demo_schema ''app'' ''ann'' ''cat'',
       [(MEM_POSTINGS, PList [posting_ref ''e1'' ''s1'' 7, posting_ref ''e2'' ''s2'' 9])])]"

lemma cat_tokens: "tokenize id ''my cat'' = [''my'', ''cat'']" "tokenize id ''cat'' = [''cat'']"
  by code_simp+

lemma two_cats_ok: "each_keyed (memory_row_ok sample_adk demo_schema) (map_of two_cats)"
proof -
  have ids: "ev_id cat_event = ''e1''" "ev_id late_cat = ''e2''" by (simp_all add: late_cat_def cat_event_def sample_event_def)
  have rows: "memory_row_ok sample_adk demo_schema (memory_pk demo_schema ''app'' ''ann'' ''s1'' ''e1'')
      (memory_row sample_adk id ''app'' ''ann'' ''s1'' cat_event ''my cat'')"
    "memory_row_ok sample_adk demo_schema (memory_pk demo_schema ''app'' ''ann'' ''s2'' ''e2'')
      (memory_row sample_adk id ''app'' ''ann'' ''s2'' late_cat ''my cat'')"
    using put_memory_ok[OF empty_memory_ok, of sample_adk demo_schema "''app''" "''ann''" "''s1''" cat_event id "''my cat''"]
      put_memory_ok[OF empty_memory_ok, of sample_adk demo_schema "''app''" "''ann''" "''s2''" late_cat id "''my cat''"]
    by (simp_all add: memory_row_def ids)
  have "memory_row_ok sample_adk demo_schema k [(MEM_POSTINGS, PList [posting_ref ''e1'' ''s1'' 7, posting_ref ''e2'' ''s2'' 9])]" for k
    using rangeI[of ref_val "(''e1'', ''s1'', 7)"] rangeI[of ref_val "(''e2'', ''s2'', 9)"]
    by (auto simp: memory_row_ok_def bin_ok_def is_postings_def)
  with rows show ?thesis by (auto simp: each_keyed_def two_cats_def split: if_splits)
qed

lemma two_cats_refs:
  "user_refs demo_schema (map_of two_cats) ''app'' ''ann'' {''cat''} = {(''e1'', ''s1'', 7), (''e2'', ''s2'', 9)}"
proof -
  have apart: "memory_pk demo_schema ''app'' ''ann'' ''s1'' e \<noteq> posting_pk demo_schema ''app'' ''ann'' w"
    "memory_pk demo_schema ''app'' ''ann'' ''s2'' e \<noteq> posting_pk demo_schema ''app'' ''ann'' w" for e w
    by (simp_all add: memory_pk_def posting_pk_def memory_key_posting)
  have l: "postings_of (map_of two_cats) (posting_pk demo_schema ''app'' ''ann'' ''cat'')
      = [ref_val (''e1'', ''s1'', 7), ref_val (''e2'', ''s2'', 9)]"
    by (simp add: postings_of_def two_cats_def apart[THEN not_sym])
  have none: "usable [] = {}" by (simp add: usable_def)
  show ?thesis by (simp add: user_refs_def l usable_Cons none del: ref_val.simps)
qed

theorem search_memory_outcome_witness:
  "\<exists>m w'. search_memory (calm_ext 500) sample_adk id demo_schema 1 ''app'' ''ann'' ''cat'' (memory_world two_cats) = (Inr [m], w')
     \<and> me_id m = Some ''e2''"
proof -
  let ?d = "map_of two_cats" and ?q = "{''cat''}" and ?S = demo_schema
  let ?r1 = "memory_row sample_adk id ''app'' ''ann'' ''s1'' cat_event ''my cat''"
  let ?r2 = "memory_row sample_adk id ''app'' ''ann'' ''s2'' late_cat ''my cat''"
  have view: "?d = mem_view (srv (memory_world two_cats))" by simp
  have q: "?q = set (tokenize id ''cat'')" by (simp add: cat_tokens)
  obtain c hs rest ms w' where run: "search_memory (calm_ext 500) sample_adk id ?S 1 ''app'' ''ann'' ''cat'' (memory_world two_cats) = (Inr ms, w')"
    and c: "distinct (map fst c)" "set c \<subseteq> user_refs ?S ?d ''app'' ''ann'' ?q"
      "card (fst ` user_refs ?S ?d ''app'' ''ann'' ?q) < 512 \<longrightarrow>
        (\<forall>(e, s, t) \<in> user_refs ?S ?d ''app'' ''ann'' ?q. \<exists>s' t'. (e, s', t') \<in> set c \<and> t \<le> t')"
    and sorted: "sorted_wrt (\<lambda>x y. fst y \<le> fst x) (hs @ rest)"
    and hits: "\<forall>h. h \<in> set (hs @ rest) \<longleftrightarrow> (\<exists>s e t. (e, s, t) \<in> set c \<and> ?d (memory_pk ?S ''app'' ''ann'' s e) = Some (snd h)
        \<and> map_of (snd h) APP_NAME = Some (PStr ''app'') \<and> map_of (snd h) USER_ID = Some (PStr ''ann'')
        \<and> fst h = (int (card (row_words (snd h) \<inter> ?q)), t) \<and> row_words (snd h) \<inter> ?q \<noteq> {})"
    and len: "length hs = (if 0 \<le> (1 :: int) then min (nat 1) (length (hs @ rest)) else length (hs @ rest) - nat (- 1))"
    and ms: "map (memory_entry_from_bins sample_adk \<circ> snd) hs = map Inr ms"
    using search_memory_outcome[OF calm.reliable_client_axioms view two_cats_ok sample_content_lossless q, where top_k = 1
        and a = "''app''" and u = "''ann''", of 500]
    by (elim exE conjE) (rule that)
  have "(''e1'', ''s1'', 7) \<in> set c" "(''e2'', ''s2'', 9) \<in> set c"
    using c(2,3) unfolding two_cats_refs by force+
  with c(2) have c: "set c = {(''e1'', ''s1'', 7), (''e2'', ''s2'', 9)}" unfolding two_cats_refs by blast
  have rows: "?d (memory_pk ?S ''app'' ''ann'' ''s1'' ''e1'') = Some ?r1" "?d (memory_pk ?S ''app'' ''ann'' ''s2'' ''e2'') = Some ?r2"
    by (simp_all add: two_cats_def memory_pk_def memory_key_def)
  have words: "row_words ?r1 \<inter> ?q = ?q" "row_words ?r2 \<inter> ?q = ?q"
    by (simp_all add: memory_row_bins cat_tokens)
  have all: "h \<in> set (hs @ rest) \<longleftrightarrow> h = ((1, 7), ?r1) \<or> h = ((1, 9), ?r2)" for h
    unfolding hits[rule_format] c by (cases h) (auto simp: rows memory_row_bins cat_tokens)
  then have "hs @ rest \<noteq> []" by (metis empty_iff list.set(1))
  with len obtain h where h: "hs = [h]" by (cases hs; cases rest; cases "tl hs") auto
  have "h = ((1, 9), ?r2)"
  proof (rule ccontr)
    assume n: "h \<noteq> ((1, 9), ?r2)"
    have "h \<in> set (hs @ rest)" by (simp add: h)
    with n all have h1: "h = ((1, 7), ?r1)" by blast
    have "((1, 9), ?r2) \<in> set (hs @ rest)" using all by blast
    with n have "((1, 9), ?r2) \<in> set rest" by (simp add: h)
    with sorted h1 show False by (auto simp: h less_eq_prod_def)
  qed
  with ms have "map Inr ms = [memory_entry_from_bins sample_adk ?r2]" by (simp add: h)
  moreover have "\<exists>m. memory_entry_from_bins sample_adk ?r2 = Inr m \<and> me_id m = Some ''e2''"
    using entry_ok[OF sample_content_lossless each_keyedD[OF two_cats_ok rows(2)]]
    by (simp add: memory_row_bins late_cat_def)
  ultimately show ?thesis using run by auto
qed

text \<open>When \<open>top_k\<close> is not smaller than the number of possible candidates, nothing is cut off.\<close>

lemma ranked_all:
  assumes c: "candidates_for S d a u q c" and N: "finite N" "fst ` user_refs S d a u q \<subseteq> N" "int (card N) \<le> top_k"
  shows "set (ranked S d top_k a u q c) = {h. \<exists>x \<in> set c. hit S d a u q x = Some h}"
proof -
  have "length (List.map_filter (hit S d a u q) c) \<le> length c" by (simp add: List.map_filter_def)
  also have "length c = card (fst ` set c)"
    using c by (metis candidates_for_def distinct_card length_map list.set_map)
  also have "\<dots> \<le> card N"
  proof (rule card_mono[OF N(1)])
    have "fst ` set c \<subseteq> fst ` user_refs S d a u q" using c unfolding candidates_for_def by (intro image_mono) blast
    with N(2) show "fst ` set c \<subseteq> N" by (rule subset_trans[rotated])
  qed
  finally have "int (length (List.map_filter (hit S d a u q) c)) \<le> top_k" using N(3) by linarith
  then have "ranked S d top_k a u q c = sort_desc fst (List.map_filter (hit S d a u q) c)"
    by (simp add: ranked_def py_upto_all)
  then show ?thesis by (simp only: set_sort_desc set_map_filter)
qed

text \<open>What a search finds right after an event was remembered.\<close>

lemma py_upto_nonempty: "0 < k \<Longrightarrow> xs \<noteq> [] \<Longrightarrow> py_upto k xs \<noteq> []"
  by (simp add: py_upto_def)

context reliable_client begin

lemma search_remembered:
  assumes view: "view (srv w1) = remembered A so S a u s e t d" and ok: "each_keyed (memory_row_ok A S) (view (srv w1))"
    and lossless: "content_lossless A" and so: "lists_sets so" and e: "ev_id e \<noteq> []" and s: "s \<noteq> []" "s \<noteq> ''kw''"
    and common: "set (tokenize so query) \<inter> set (tokenize so t) \<noteq> {}"
    and cap: "card (insert (ev_id e) (fst ` user_refs S d a u (set (tokenize so query)))) < 512"
    and one: "\<And>s' t'. (ev_id e, s', t') \<in> user_refs S d a u (set (tokenize so query)) \<Longrightarrow> s' = s"
  shows "\<exists>ms w2. search_memory X A so S top_k a u query w1 = (Inr ms, w2) \<and> (0 < top_k \<longrightarrow> ms \<noteq> [])
    \<and> (int (card (insert (ev_id e) (fst ` user_refs S d a u (set (tokenize so query))))) \<le> top_k
        \<longrightarrow> Some (ev_id e) \<in> me_id ` set ms)"
proof -
  let ?q = "set (tokenize so query)" and ?d = "remembered A so S a u s e t d"
  let ?refs = "user_refs S ?d a u ?q"
  have "wp (search_memory X A so S top_k a u query) (\<lambda>r w'. \<exists>c ms. r = Inr ms \<and> candidates_for S ?d a u ?q c
      \<and> map (memory_entry_from_bins A \<circ> snd) (ranked S ?d top_k a u ?q c) = map Inr ms) w1"
    by (rule wp_search[OF ok lossless]) (use view in auto)
  from wp_exI[OF this] obtain c ms w2 where search: "search_memory X A so S top_k a u query w1 = (Inr ms, w2)"
    and c: "candidates_for S ?d a u ?q c" and ms: "map (memory_entry_from_bins A \<circ> snd) (ranked S ?d top_k a u ?q c) = map Inr ms"
    by blast
  have nc: "\<forall>w \<in> ?q. no_colon w" using token_no_colon[OF so] by blast
  note refs = refs_remembered[OF so s(2,1) e nc, where S = S and A = A and a = a and u = u and t = t and d = d]
  have names: "fst ` ?refs \<subseteq> insert (ev_id e) (fst ` user_refs S d a u ?q)" using refs(1) by force
  have fin: "finite (insert (ev_id e) (fst ` user_refs S d a u ?q))" by (simp add: finite_user_refs)
  have "card (fst ` ?refs) < MAX_SEARCH_CANDIDATES"
    using card_mono[OF fin names] cap by (simp add: MAX_SEARCH_CANDIDATES_def)
  then obtain s' t' where cand: "(ev_id e, s', t') \<in> set c"
    using c refs(2)[OF common] unfolding candidates_for_def by blast
  then have "(ev_id e, s', t') \<in> ?refs" using c unfolding candidates_for_def by blast
  then have s': "s' = s" using refs(1) one by blast
  have row: "?d (memory_pk S a u s (ev_id e)) = Some (memory_row A so a u s e t)" by (rule row_remembered[OF so s(2)])
  have "set (tokenize so t) \<inter> ?q \<noteq> {}" using common by blast
  with row obtain h where h: "hit S ?d a u ?q (ev_id e, s', t') = Some h" "snd h = memory_row A so a u s e t"
    by (simp add: hit_def s' memory_row_bins)
  have "h \<in> set (List.map_filter (hit S ?d a u ?q) c)" using cand h(1) set_map_filter by fastforce
  then have "sort_desc fst (List.map_filter (hit S ?d a u ?q) c) \<noteq> []"
    using set_sort_desc[of fst "List.map_filter (hit S ?d a u ?q) c"] by (metis empty_iff empty_set)
  then have some: "0 < top_k \<longrightarrow> ms \<noteq> []"
    using py_upto_nonempty ms unfolding ranked_def by (metis Nil_is_map_conv)
  have "Some (ev_id e) \<in> me_id ` set ms"
    if top: "int (card (insert (ev_id e) (fst ` user_refs S d a u ?q))) \<le> top_k"
  proof -
    have "h \<in> set (ranked S ?d top_k a u ?q c)" using ranked_all[OF c fin names top] cand h(1) by blast
    then have "(memory_entry_from_bins A \<circ> snd) h \<in> set (map Inr ms)" unfolding ms[symmetric] set_map by (rule imageI)
    then obtain m where m: "m \<in> set ms" "memory_entry_from_bins A (memory_row A so a u s e t) = Inr m" using h(2) by auto
    have "memory_row_ok A S (memory_pk S a u s (ev_id e)) (memory_row A so a u s e t)"
      using each_keyedD[OF ok] row view by simp
    from entry_ok[OF lossless this] m(2) have "me_id m = Some (ev_id e)" by (simp add: memory_row_bins)
    with m(1) show ?thesis by (metis image_eqI)
  qed
  with search some show ?thesis by blast
qed

end

text \<open>
  C22. What was added is found. On a reliable cluster with room for its records, an event that
  was not stored yet and that shares a word with a query is among the results of a search right
  after it was added, as long as the postings of the query's words name no more events than
  \<open>top_k\<close> and fewer than the cap of 512, and none with the same event id in another session.
\<close>

theorem remembered_event_found:
  assumes "reliable_client X view fits" "d = view (srv w)" "each_keyed (memory_row_ok A S) d" "content_lossless A" "lists_sets so"
    and "event_text e = Some t" "ev_id e \<noteq> []" "s \<noteq> []" "s \<noteq> ''kw''" "d (memory_pk S a u s (ev_id e)) = None"
    and "room_for_event fits A so S a u s e t d"
    and "set (tokenize so query) \<inter> set (tokenize so t) \<noteq> {}"
    and "card (insert (ev_id e) (fst ` user_refs S d a u (set (tokenize so query)))) < 512"
    and "int (card (insert (ev_id e) (fst ` user_refs S d a u (set (tokenize so query))))) \<le> top_k"
    and "\<And>s' t'. (ev_id e, s', t') \<in> user_refs S d a u (set (tokenize so query)) \<Longrightarrow> s' = s"
  shows "\<exists>w1 ms w2. add_events_to_memory X A so S a u [e] (Some s) w = (Inr (), w1)
    \<and> search_memory X A so S top_k a u query w1 = (Inr ms, w2) \<and> Some (ev_id e) \<in> me_id ` set ms"
proof -
  let ?d = "remembered A so S a u s e t d"
  have "wp (add_events_to_memory X A so S a u [e] (Some s)) (\<lambda>r w'. r = Inr () \<and> view (srv w') = ?d) w"
    by (rule reliable_client.wp_add_event[OF assms(1,5,9,8) _ _ _ assms(6)]) (use assms(2,3,10,11) in simp_all)
  from wp_exI[OF this] obtain w1 where add: "add_events_to_memory X A so S a u [e] (Some s) w = (Inr (), w1)"
    and w1: "view (srv w1) = ?d" by blast
  have "aerospike_client X view fits" using assms(1) by (simp add: reliable_client_def)
  from aerospike_client.keeps_add_events[OF this memory_ok_tolerates] add assms(2,3)
  have ok1: "each_keyed (memory_row_ok A S) (view (srv w1))" by (blast intro: keepsD)
  obtain ms w2 where "search_memory X A so S top_k a u query w1 = (Inr ms, w2)" "Some (ev_id e) \<in> me_id ` set ms"
    using reliable_client.search_remembered[OF assms(1) w1 ok1 assms(4,5,7,8,9,12,13), where top_k = top_k] assms(14,15)
    by blast
  with add show ?thesis by blast
qed

lemma cat_row: "memory_row sample_adk id ''app'' ''ann'' ''s1'' cat_event ''my cat'' \<noteq> []"
  using memory_row_bins(1)[of sample_adk id "''app''" "''ann''" "''s1''" cat_event "''my cat''"] by auto

lemma cat_room: "room_for_event (size_limit 500) sample_adk id demo_schema ''app'' ''ann'' ''s1'' cat_event ''my cat'' Map.empty"
  unfolding room_for_event_def cat_tokens
  by (simp add: room_to_post_def with_postings_def rec_at_def postings_of_def newest_def size_limit_def dset_single
      posting_ref_def REF_EID_def REF_SID_def REF_TS_def MAX_POSTING_LIST_SIZE_def memory_row_def memory_bins_def cat_tokens
      cat_event_def sample_event_def sample_adk_def content_val_def part_val_def opt_val_def scope_tuple_def SEP_def dset_def)

theorem remembered_event_found_witness:
  "\<exists>w1 ms w2. add_events_to_memory (calm_ext 500) sample_adk id demo_schema ''app'' ''ann'' [cat_event] (Some ''s1'') (memory_world []) = (Inr (), w1)
     \<and> search_memory (calm_ext 500) sample_adk id demo_schema 10 ''app'' ''ann'' ''cat'' w1 = (Inr ms, w2) \<and> Some ''e1'' \<in> me_id ` set ms"
proof -
  have view: "Map.empty = mem_view (srv (memory_world []))" by simp
  have tx: "event_text cat_event = Some ''my cat''"
    by (simp add: event_text_def cat_event_def sample_event_def extract_event_text_def part_texts_def)
  have none: "user_refs demo_schema Map.empty ''app'' ''ann'' q = {}" for q
    by (simp add: user_refs_def postings_of_def usable_def)
  have e: "ev_id cat_event = ''e1''" by (simp add: cat_event_def sample_event_def)
  from remembered_event_found[OF calm.reliable_client_axioms view no_memories_ok sample_content_lossless id_lists_sets tx
      _ _ _ _ cat_room, where query = "''cat''" and top_k = 10] show ?thesis
    by (simp add: e none cat_tokens)
qed

end
