(* ===== verification/Memory_Purge.thy ===== *)
theory Memory_Purge
  imports Memory_Contract
begin

text \<open>
  Purging a session: every row of the session goes, and with it the references that the posting
  lists of its words hold to it. A posting list only ever loses references on the way.
\<close>

section \<open>One reference, one row\<close>

definition drop_ref :: "pyval \<Rightarrow> pk \<Rightarrow> db \<Rightarrow> db" where
  "drop_ref v k d = (case d k of None \<Rightarrow> d
     | Some bs \<Rightarrow> (case map_of bs MEM_POSTINGS of
          Some (PList l) \<Rightarrow> d(k \<mapsto> dset MEM_POSTINGS (PList (removeAll v l)) bs) | _ \<Rightarrow> d))"

definition row_event :: "bins \<Rightarrow> string" where
  "row_event bs = (case map_of bs EVENT_ID of Some (PStr e) \<Rightarrow> e | _ \<Rightarrow> [])"

definition row_word_list :: "bins \<Rightarrow> string list" where
  "row_word_list bs = (case map_of bs KEYWORDS of Some (PList l) \<Rightarrow> map (\<lambda>v. case v of PStr w \<Rightarrow> w | _ \<Rightarrow> []) l | _ \<Rightarrow> [])"

definition row_time :: "bins \<Rightarrow> rat" where
  "row_time bs = (case map_of bs TIMESTAMP of Some (PFloat t) \<Rightarrow> t | _ \<Rightarrow> 0)"

definition row_ref :: "string \<Rightarrow> bins \<Rightarrow> pyval" where
  "row_ref s bs = posting_ref (row_event bs) s (row_time bs)"

definition forget_row :: "schema \<Rightarrow> string \<Rightarrow> string \<Rightarrow> string \<Rightarrow> bins \<Rightarrow> db \<Rightarrow> db" where
  "forget_row S a u s bs d =
     (fold (\<lambda>w. drop_ref (row_ref s bs) (posting_pk S a u w)) (if row_event bs = [] then [] else row_word_list bs) d)
       (memory_pk S a u s (row_event bs) := None)"

definition forget_rows :: "schema \<Rightarrow> string \<Rightarrow> string \<Rightarrow> string \<Rightarrow> bins list \<Rightarrow> db \<Rightarrow> db" where
  "forget_rows S a u s rows d = fold (forget_row S a u s) rows d"

section \<open>Stores that only lose\<close>

definition shrunk :: "db \<Rightarrow> db \<Rightarrow> bool" where
  "shrunk d d' \<longleftrightarrow> (\<forall>k bs'. d' k = Some bs' \<longrightarrow> (\<exists>bs. d k = Some bs \<and> (\<forall>b. b \<noteq> MEM_POSTINGS \<longrightarrow> map_of bs' b = map_of bs b)
     \<and> set (postings_of d' k) \<subseteq> set (postings_of d k)))"

lemma shrunkD: "shrunk d d' \<Longrightarrow> d' k = Some bs' \<Longrightarrow> \<exists>bs. d k = Some bs \<and> (\<forall>b. b \<noteq> MEM_POSTINGS \<longrightarrow> map_of bs' b = map_of bs b)
     \<and> set (postings_of d' k) \<subseteq> set (postings_of d k)"
  unfolding shrunk_def by blast

lemma shrunk_refl: "shrunk d d"
  by (simp add: shrunk_def del: split_paired_All)

lemma shrunk_trans: "shrunk d d1 \<Longrightarrow> shrunk d1 d2 \<Longrightarrow> shrunk d d2"
  unfolding shrunk_def by (smt (verit) subset_trans)

lemma shrunk_postings: "shrunk d d' \<Longrightarrow> set (postings_of d' k) \<subseteq> set (postings_of d k)"
proof (cases "d' k")
  case None
  then show ?thesis by (simp add: postings_of_def)
qed (blast dest: shrunkD)

lemma shrunk_remove: "shrunk d (d(k := None))"
proof (unfold shrunk_def, intro allI impI)
  fix k' bs' assume "(d(k := None)) k' = Some bs'"
  then show "\<exists>bs. d k' = Some bs \<and> (\<forall>b. b \<noteq> MEM_POSTINGS \<longrightarrow> map_of bs' b = map_of bs b)
     \<and> set (postings_of (d(k := None)) k') \<subseteq> set (postings_of d k')"
    by (cases "k' = k") (simp_all add: postings_of_def)
qed

lemma drop_ref_other: "k' \<noteq> k \<Longrightarrow> drop_ref v k d k' = d k'"
  by (auto simp: drop_ref_def split: option.split pyval.split)

lemma postings_drop_ref: "postings_of (drop_ref v k d) k = removeAll v (postings_of d k)"
  by (auto simp: drop_ref_def postings_of_def split: option.split pyval.split)

lemma shrunk_drop_ref: "shrunk d (drop_ref v k d)"
proof (unfold shrunk_def, intro allI impI)
  fix k' bs' assume bs': "drop_ref v k d k' = Some bs'"
  show "\<exists>bs. d k' = Some bs \<and> (\<forall>b. b \<noteq> MEM_POSTINGS \<longrightarrow> map_of bs' b = map_of bs b)
     \<and> set (postings_of (drop_ref v k d) k') \<subseteq> set (postings_of d k')"
  proof (cases "k' = k")
    case False
    with bs' drop_ref_other[OF this] show ?thesis by (simp add: postings_of_def)
  next
    case True
    have "\<exists>bs. d k = Some bs \<and> (\<forall>b. b \<noteq> MEM_POSTINGS \<longrightarrow> map_of bs' b = map_of bs b)"
      using bs' by (auto simp: True drop_ref_def split: option.splits pyval.splits)
    with True postings_drop_ref[of v k d] show ?thesis by auto
  qed
qed

lemma shrunk_fold: "(\<And>x d. shrunk d (f x d)) \<Longrightarrow> shrunk d (fold f xs d)"
proof (induction xs arbitrary: d)
  case (Cons x xs)
  then show ?case by (auto intro: shrunk_trans)
qed (simp add: shrunk_refl)

lemma shrunk_forget_row: "shrunk d (forget_row S a u s bs d)"
  unfolding forget_row_def by (rule shrunk_trans[OF shrunk_fold shrunk_remove]) (rule shrunk_drop_ref)

lemma shrunk_forget_rows: "shrunk d (forget_rows S a u s rows d)"
  unfolding forget_rows_def by (rule shrunk_fold) (rule shrunk_forget_row)

lemma fold_drop_gone:
  "w \<in> set ws \<Longrightarrow> v \<notin> set (postings_of (fold (\<lambda>w. drop_ref v (posting_pk S a u w)) ws d) (posting_pk S a u w))"
proof (induction ws arbitrary: d)
  case (Cons w0 ws)
  let ?d = "drop_ref v (posting_pk S a u w0) d"
  have sh: "shrunk ?d (fold (\<lambda>w. drop_ref v (posting_pk S a u w)) ws ?d)"
    by (rule shrunk_fold) (rule shrunk_drop_ref)
  show ?case
  proof (cases "w = w0")
    case True
    with shrunk_postings[OF sh, of "posting_pk S a u w0"] show ?thesis by (auto simp: postings_drop_ref)
  next
    case False
    with Cons show ?thesis by simp
  qed
qed simp

lemma forget_row_gone:
  "forget_row S a u s bs d (memory_pk S a u s (row_event bs)) = None"
  "row_event bs \<noteq> [] \<Longrightarrow> w \<in> set (row_word_list bs) \<Longrightarrow> row_ref s bs \<notin> set (postings_of (forget_row S a u s bs d) (posting_pk S a u w))"
proof -
  show "forget_row S a u s bs d (memory_pk S a u s (row_event bs)) = None" by (simp add: forget_row_def)
  assume "row_event bs \<noteq> []" "w \<in> set (row_word_list bs)"
  from fold_drop_gone[OF this(2), of "row_ref s bs" S a u d] this(1)
    shrunk_postings[OF shrunk_remove[where k = "memory_pk S a u s (row_event bs)"], of
      "fold (\<lambda>w. drop_ref (row_ref s bs) (posting_pk S a u w)) (row_word_list bs) d" "posting_pk S a u w"]
  show "row_ref s bs \<notin> set (postings_of (forget_row S a u s bs d) (posting_pk S a u w))"
    by (auto simp: forget_row_def)
qed

lemma forget_row_other:
  "k \<notin> range (posting_pk S a u) \<Longrightarrow> k \<noteq> memory_pk S a u s (row_event bs) \<Longrightarrow> forget_row S a u s bs d k = d k"
proof -
  have "k \<notin> range (posting_pk S a u) \<Longrightarrow> fold (\<lambda>w. drop_ref v (posting_pk S a u w)) ws d k = d k" for v ws
  proof (induction ws arbitrary: d)
    case (Cons w ws)
    then have "k \<noteq> posting_pk S a u w" by blast
    with Cons show ?case by (simp add: drop_ref_other)
  qed simp
  then show "k \<notin> range (posting_pk S a u) \<Longrightarrow> k \<noteq> memory_pk S a u s (row_event bs) \<Longrightarrow> ?thesis" by (simp add: forget_row_def)
qed

lemma forget_rows_gone:
  assumes "bs \<in> set rows"
  shows "forget_rows S a u s rows d (memory_pk S a u s (row_event bs)) = None"
    and "row_event bs \<noteq> [] \<Longrightarrow> w \<in> set (row_word_list bs) \<Longrightarrow>
      row_ref s bs \<notin> set (postings_of (forget_rows S a u s rows d) (posting_pk S a u w))"
proof -
  obtain xs ys where rows: "rows = xs @ bs # ys" using assms by (meson split_list)
  let ?d = "forget_row S a u s bs (forget_rows S a u s xs d)"
  have eq: "forget_rows S a u s rows d = forget_rows S a u s ys ?d" by (simp add: rows forget_rows_def)
  have sh: "shrunk ?d (forget_rows S a u s rows d)" unfolding eq by (rule shrunk_forget_rows)
  show "forget_rows S a u s rows d (memory_pk S a u s (row_event bs)) = None"
    using shrunkD[OF sh] forget_row_gone(1) by (metis not_None_eq)
  show "row_event bs \<noteq> [] \<Longrightarrow> w \<in> set (row_word_list bs) \<Longrightarrow>
      row_ref s bs \<notin> set (postings_of (forget_rows S a u s rows d) (posting_pk S a u w))"
    using shrunk_postings[OF sh] forget_row_gone(2) by blast
qed

lemma forget_rows_other:
  "k \<notin> range (posting_pk S a u) \<Longrightarrow> k \<notin> range (memory_pk S a u s) \<Longrightarrow> forget_rows S a u s rows d k = d k"
proof (induction rows arbitrary: d)
  case (Cons bs rows)
  then have "k \<noteq> memory_pk S a u s (row_event bs)" by blast
  with Cons show ?case by (simp add: forget_rows_def forget_row_other)
qed (simp add: forget_rows_def)

section \<open>The purge on a reliable cluster\<close>

text \<open>Some record that has lost references does not fit any more.\<close>

definition unfit_after :: "(bins \<Rightarrow> bool) \<Rightarrow> db \<Rightarrow> bool" where
  "unfit_after fits d \<longleftrightarrow> (\<exists>d1 k bs. shrunk d d1 \<and> d1 k = Some bs \<and> \<not> fits bs)"

lemma unfit_trans: "shrunk d d' \<Longrightarrow> unfit_after fits d' \<Longrightarrow> unfit_after fits d"
  unfolding unfit_after_def by (metis shrunk_trans)

lemma operate_drop_ref:
  assumes "bin_ok is_postings (rec_at d k) MEM_POSTINGS"
  shows "let (r, d') = operate_db fits k [ListRemoveByValue MEM_POSTINGS v] None d in
    r = Inl RecordNotFound \<and> d' = drop_ref v k d \<or> r = Inl RecordTooBig \<and> unfit_after fits d \<or> (\<exists>out. r = Inr out \<and> d' = drop_ref v k d)"
proof (cases "d k")
  case None
  then show ?thesis by (simp add: operate_db_def drop_ref_def)
next
  case (Some bs)
  have new: "\<exists>bs'. drop_ref v k d k = Some bs' \<and> drop_ref v k d = d(k \<mapsto> bs')
      \<and> apply_op (ListRemoveByValue MEM_POSTINGS v) bs = Inr (bs', None)"
  proof (cases "map_of bs MEM_POSTINGS")
    case None
    with Some show ?thesis by (simp add: drop_ref_def fun_upd_idem)
  next
    case (Some v')
    then obtain l where "v' = PList l" using assms \<open>d k = Some bs\<close> by (auto simp: bin_ok_def rec_at_def is_postings_def)
    with Some \<open>d k = Some bs\<close> show ?thesis by (simp add: drop_ref_def)
  qed
  then obtain bs' where bs': "drop_ref v k d k = Some bs'" "drop_ref v k d = d(k \<mapsto> bs')"
    "apply_op (ListRemoveByValue MEM_POSTINGS v) bs = Inr (bs', None)" by blast
  have "\<not> fits bs' \<Longrightarrow> unfit_after fits d"
    using bs'(1) shrunk_drop_ref unfolding unfit_after_def by blast
  with Some bs'(2,3) show ?thesis by (simp add: operate_db_def run_ops_def)
qed

lemma drop_ref_ok: "each_keyed (memory_row_ok A S) d \<Longrightarrow> each_keyed (memory_row_ok A S) (drop_ref v k d)"
proof -
  assume ok: "each_keyed (memory_row_ok A S) d"
  show ?thesis
  proof (cases "d k")
    case (Some bs)
    note row = each_keyedD[OF ok Some]
    show ?thesis
    proof (cases "\<exists>l. map_of bs MEM_POSTINGS = Some (PList l)")
      case True
      then obtain l where l: "map_of bs MEM_POSTINGS = Some (PList l)" by blast
      have "memory_row_ok A S k (dset MEM_POSTINGS (PList (removeAll v l)) bs)"
        using remove_op_ok[of A S k v] row l by (auto simp: op_keeps_def)
      with ok Some l show ?thesis by (simp add: drop_ref_def each_keyed_upd)
    next
      case False
      then have "drop_ref v k d = d" by (auto simp: drop_ref_def Some split: option.split pyval.split)
      with ok show ?thesis by simp
    qed
  qed (use ok in \<open>simp add: drop_ref_def\<close>)
qed

context reliable_client begin

lemma wp_remove_posting_refs:
  assumes "each_keyed (memory_row_ok A S) (view (srv w))"
    and "\<And>s'. unfit_after fits (view (srv w)) \<Longrightarrow> Q (Inl (AE RecordTooBig)) (w\<lparr>srv := s'\<rparr>)"
    and "\<And>s'. view s' = fold (\<lambda>t. drop_ref (posting_ref e s ts) (posting_pk S a u t)) ws (view (srv w)) \<Longrightarrow>
      Q (Inr ()) (w\<lparr>srv := s'\<rparr>)"
  shows "wp (remove_posting_refs X S a u ws s e ts) Q w"
  using assms unfolding remove_posting_refs_def
proof (induction ws arbitrary: w)
  case Nil
  from Nil(3)[of "srv w"] show ?case by (simp add: wp_simps)
next
  case (Cons t ws)
  let ?k = "posting_pk S a u t" and ?v = "posting_ref e s ts" and ?d = "view (srv w)"
  let ?loop = "forE (\<lambda>token. bindE (or_not_found (client_operate X (posting_pk S a u token)
      [ListRemoveByValue MEM_POSTINGS ?v] None)) (\<lambda>_. retE ())) ws"
  have rest: "wp ?loop Q (w\<lparr>srv := s1\<rparr>)" if s1: "view s1 = drop_ref ?v ?k ?d" for s1
  proof (rule Cons.IH)
    show "each_keyed (memory_row_ok A S) (view (srv (w\<lparr>srv := s1\<rparr>)))"
      using drop_ref_ok[OF Cons.prems(1)] by (simp add: s1)
    show "Q (Inl (AE RecordTooBig)) (w\<lparr>srv := s1, srv := s'\<rparr>)" if "unfit_after fits (view (srv (w\<lparr>srv := s1\<rparr>)))" for s'
      using Cons.prems(2)[of s'] unfit_trans[OF shrunk_drop_ref] that by (simp add: s1)
    fix s' assume "view s' = fold (\<lambda>t. drop_ref ?v (posting_pk S a u t)) ws (view (srv (w\<lparr>srv := s1\<rparr>)))"
    then have "view s' = fold (\<lambda>t. drop_ref ?v (posting_pk S a u t)) (t # ws) ?d" by (simp add: s1)
    from Cons.prems(3)[OF this] show "Q (Inr ()) (w\<lparr>srv := s1, srv := s'\<rparr>)" by simp
  qed
  show ?case
    unfolding wp_forE_Cons wp_bindE[of "or_not_found _"] wp_or_not_found wp_retE
  proof (rule wp_operate, simp, goal_cases)
    case (1 s1)
    obtain r d' where op: "operate_db fits ?k [ListRemoveByValue MEM_POSTINGS ?v] None ?d = (r, d')" by fastforce
    have bin: "bin_ok is_postings (rec_at ?d ?k) MEM_POSTINGS" by (rule posting_rec_ok[OF Cons.prems(1)])
    from operate_drop_ref[OF bin, of fits ?v] op 1 consider "r = Inl RecordNotFound" "view s1 = drop_ref ?v ?k ?d"
      | "r = Inl RecordTooBig" "unfit_after fits ?d" | out where "r = Inr out" "view s1 = drop_ref ?v ?k ?d" by auto
    then show ?case by cases (use op rest Cons.prems(2) in simp_all)
  qed
qed

end

text \<open>The rows that the purge's query may return.\<close>

definition purgeable :: "bins \<Rightarrow> bool" where
  "purgeable bs \<longleftrightarrow> str_of (dget bs EVENT_ID (PStr [])) = Inr (row_event bs)
     \<and> ebind (list_items (py_or (pget bs KEYWORDS) (PList []))) (emap str_of) = Inr (row_word_list bs)
     \<and> py_float (py_or (pget bs TIMESTAMP) (PFloat 0)) = Inr (row_time bs)"

lemma emap_words: "\<forall>x \<in> set l. x \<in> range PStr \<Longrightarrow> emap str_of l = Inr (map (\<lambda>v. case v of PStr w \<Rightarrow> w | _ \<Rightarrow> []) l)"
  by (induction l) auto

lemma row_purgeable:
  assumes "memory_row_ok A S (namespace S, memory_set S, key) bs" "map_of bs SCOPE_TUPLE = Some (PStr t)"
  shows "purgeable bs" and "key = t @ SEP @ row_event bs"
proof -
  have ok: "bin_ok is_keywords bs KEYWORDS" "bin_ok (\<lambda>v. v \<in> range PFloat) bs TIMESTAMP"
    using assms(1) by (simp_all add: memory_row_ok_def)
  obtain e where e: "map_of bs EVENT_ID = Some (PStr e)" "key = t @ SEP @ e"
    using assms by (auto simp: memory_row_ok_def bin_ok_def)
  then show "key = t @ SEP @ row_event bs" by (simp add: row_event_def)
  have "ebind (list_items (py_or (pget bs KEYWORDS) (PList []))) (emap str_of) = Inr (row_word_list bs)"
  proof (cases "map_of bs KEYWORDS")
    case (Some v)
    then obtain l where l: "v = PList l" "\<forall>x \<in> set l. x \<in> range PStr" using ok(1) by (auto simp: bin_ok_def is_keywords_def)
    have "list_items (py_or (PList l) (PList [])) = Inr l" by (simp add: py_or_def)
    with Some l show ?thesis by (simp add: dget_def row_word_list_def emap_words)
  qed (simp add: dget_def py_or_def row_word_list_def)
  moreover have "py_float (py_or (pget bs TIMESTAMP) (PFloat 0)) = Inr (row_time bs)"
    using ok(2) by (auto simp: bin_ok_def dget_def py_or_def row_time_def split: option.splits)
  ultimately show "purgeable bs" using e(1) by (simp add: purgeable_def dget_def row_event_def)
qed

lemma forget_row_ok: "each_keyed (memory_row_ok A S) d \<Longrightarrow> each_keyed (memory_row_ok A S) (forget_row S a u s bs d)"
proof -
  have "each_keyed (memory_row_ok A S) d \<Longrightarrow> each_keyed (memory_row_ok A S) (fold (\<lambda>w. drop_ref v (posting_pk S a u w)) ws d)" for v ws
    by (induction ws arbitrary: d) (simp_all add: drop_ref_ok)
  then show "each_keyed (memory_row_ok A S) d \<Longrightarrow> ?thesis" by (simp add: forget_row_def each_keyed_del)
qed

context reliable_client begin

lemma wp_purge_row:
  assumes ok: "each_keyed (memory_row_ok A S) (view (srv w))" and p: "purgeable bs"
    and big: "\<And>s'. unfit_after fits (view (srv w)) \<Longrightarrow> Q (Inl (AE RecordTooBig)) (w\<lparr>srv := s'\<rparr>)"
    and fin: "\<And>s'. view s' = forget_row S a u s bs (view (srv w)) \<Longrightarrow> Q (Inr ()) (w\<lparr>srv := s'\<rparr>)"
  shows "wp (purge_row X S a u s bs) Q w"
proof -
  let ?ws = "if row_event bs = [] then [] else row_word_list bs" and ?d = "view (srv w)"
  let ?refs = "remove_posting_refs X S a u ?ws s (row_event bs) (row_time bs)"
  have skip: "whenE (row_word_list bs \<noteq> [] \<and> row_event bs \<noteq> []) (remove_posting_refs X S a u (row_word_list bs) s (row_event bs) (row_time bs)) = ?refs"
    by (simp add: whenE_def remove_posting_refs_def)
  have "wp (thenE ?refs (bindE (or_not_found (client_remove X (memory_pk S a u s (row_event bs)))) (\<lambda>_. retE ()))) Q w"
    unfolding wp_thenE
  proof (rule wp_remove_posting_refs[OF ok], goal_cases)
    case 1
    then show ?case using big by simp
  next
    case (2 s1)
    show ?case
      unfolding sum.case wp_bindE wp_or_not_found wp_retE
    proof (rule wp_remove, goal_cases)
      case (1 s2)
      then have "view s2 = forget_row S a u s bs ?d" using 2 by (simp add: forget_row_def row_ref_def)
      from fin[OF this] show ?case by simp
    qed
  qed
  with p show ?thesis by (simp add: purge_row_def purgeable_def skip wp_bindE wp_liftE)
qed

lemma wp_purge_rows:
  assumes "each_keyed (memory_row_ok A S) (view (srv w))" "list_all purgeable rows"
    and "\<And>s'. unfit_after fits (view (srv w)) \<Longrightarrow> Q (Inl (AE RecordTooBig)) (w\<lparr>srv := s'\<rparr>)"
    and "\<And>s'. view s' = forget_rows S a u s rows (view (srv w)) \<Longrightarrow> Q (Inr ()) (w\<lparr>srv := s'\<rparr>)"
  shows "wp (forE (purge_row X S a u s) rows) Q w"
  using assms
proof (induction rows arbitrary: w)
  case Nil
  from Nil(4)[of "srv w"] show ?case by (simp add: wp_simps forget_rows_def)
next
  case (Cons bs rows)
  show ?case
    unfolding wp_forE_Cons
  proof (rule wp_purge_row[OF Cons.prems(1)], goal_cases)
    case 1
    show ?case using Cons.prems(2) by simp
  next
    case 2
    then show ?case using Cons.prems(3) by simp
  next
    case (3 s1)
    have "wp (forE (purge_row X S a u s) rows) Q (w\<lparr>srv := s1\<rparr>)"
    proof (rule Cons.IH, goal_cases)
      case 1
      show ?case using forget_row_ok[OF Cons.prems(1)] by (simp add: 3)
    next
      case 2
      show ?case using Cons.prems(2) by simp
    next
      case (3 s')
      with unfit_trans[OF shrunk_forget_row] \<open>view s1 = _\<close> Cons.prems(3)[of s'] show ?case by simp
    next
      case (4 s')
      then have "view s' = forget_rows S a u s (bs # rows) (view (srv w))" by (simp add: \<open>view s1 = _\<close> forget_rows_def)
      from Cons.prems(4)[OF this] show ?case by simp
    qed
    then show ?case by simp
  qed
qed

lemma wp_purge:
  assumes ok: "each_keyed (memory_row_ok A S) (view (srv w))"
    and big: "\<And>s'. unfit_after fits (view (srv w)) \<Longrightarrow> Q (Inl (AE RecordTooBig)) (w\<lparr>srv := s'\<rparr>)"
    and fin: "\<And>s' rows. view s' = forget_rows S a u s rows (view (srv w)) \<Longrightarrow>
      (\<And>key bs. view (srv w) (namespace S, memory_set S, key) = Some bs \<Longrightarrow>
        map_of bs SCOPE_TUPLE = Some (PStr (scope_tuple a u s)) \<Longrightarrow> bs \<in> set rows) \<Longrightarrow> Q (Inr ()) (w\<lparr>srv := s'\<rparr>)"
  shows "wp (purge_session_memories X S a u s) Q w"
  unfolding purge_session_memories_def wp_bindE
proof (rule wp_query, goal_cases)
  case (1 s1 rows ks)
  let ?d = "view (srv w)"
  have rows: "bs \<in> set rows \<longleftrightarrow> Some bs \<in> ?d ` set ks" for bs
    using arg_cong[OF 1(4), of set] by (metis image_iff list.set_map option.inject)
  have all: "bs \<in> set rows" if "?d (namespace S, memory_set S, key) = Some bs" "map_of bs SCOPE_TUPLE = Some (PStr (scope_tuple a u s))" for key bs
  proof -
    have "(namespace S, memory_set S, key) \<in> set ks" using that by (simp add: 1(3) matching_def)
    then have "?d (namespace S, memory_set S, key) \<in> ?d ` set ks" by (rule imageI)
    with that(1) show ?thesis by (simp add: rows)
  qed
  have purge: "purgeable bs" if bs: "bs \<in> set rows" for bs
  proof -
    obtain k where k: "k \<in> set ks" "?d k = Some bs" using bs by (auto simp: rows simp del: split_paired_Ex)
    from k(1) show ?thesis
      unfolding 1(3) by (rule matchingE) (use k(2) row_purgeable(1)[OF each_keyedD[OF ok]] in auto)
  qed
  have "wp (forE (purge_row X S a u s) rows) Q (w\<lparr>srv := s1\<rparr>)"
  proof (rule wp_purge_rows[where A = A and S = S], goal_cases)
    case 1
    show ?case using ok by (simp add: \<open>view s1 = ?d\<close>)
  next
    case 2
    show ?case using purge by (simp add: list_all_iff)
  next
    case (3 s')
    then show ?case using big[of s'] by (simp add: \<open>view s1 = ?d\<close>)
  next
    case (4 s')
    then have "view s' = forget_rows S a u s rows ?d" by (simp add: \<open>view s1 = ?d\<close>)
    from fin[OF this all] show ?case by simp
  qed
  then show ?case by simp
qed

end

section \<open>Properties\<close>

text \<open>
  C25. A purge forgets a session. Before a session is added again, its rows are purged: on a
  reliable cluster the purge leaves no row of the session, no reference to one of these rows in
  the posting list of any of its words, and adds nothing anywhere; no record but the session's
  rows and the user's posting lists changes. It can only be cut short by a posting list that has
  lost references and yet does not fit.
\<close>

theorem purge_forgets_session:
  assumes "reliable_client X view fits" "d = view (srv w)" "each_keyed (memory_row_ok A S) d"
    and "purge_session_memories X S a u s w = (r, w')" "d' = view (srv w')"
  shows "r = Inl (AE RecordTooBig) \<and> unfit_after fits d
    \<or> r = Inr () \<and> shrunk d d'
      \<and> (\<forall>k. k \<notin> range (posting_pk S a u) \<longrightarrow> k \<notin> range (memory_pk S a u s) \<longrightarrow> d' k = d k)
      \<and> (\<forall>key bs. d (namespace S, memory_set S, key) = Some bs \<longrightarrow> map_of bs SCOPE_TUPLE = Some (PStr (scope_tuple a u s)) \<longrightarrow>
          d' (namespace S, memory_set S, key) = None
          \<and> (row_event bs \<noteq> [] \<longrightarrow> (\<forall>t \<in> set (row_word_list bs). row_ref s bs \<notin> set (postings_of d' (posting_pk S a u t)))))"
proof -
  have "wp (purge_session_memories X S a u s) (\<lambda>r w'. r = Inl (AE RecordTooBig) \<and> unfit_after fits d \<or> r = Inr ()
      \<and> (\<exists>rows. view (srv w') = forget_rows S a u s rows d \<and> (\<forall>key bs. d (namespace S, memory_set S, key) = Some bs \<longrightarrow>
          map_of bs SCOPE_TUPLE = Some (PStr (scope_tuple a u s)) \<longrightarrow> bs \<in> set rows))) w"
    by (rule reliable_client.wp_purge[OF assms(1)]) (use assms(2,3) in auto)
  from wpD[OF this assms(4)] show ?thesis
  proof
    assume "r = Inr () \<and> (\<exists>rows. view (srv w') = forget_rows S a u s rows d \<and> (\<forall>key bs. d (namespace S, memory_set S, key) = Some bs \<longrightarrow>
          map_of bs SCOPE_TUPLE = Some (PStr (scope_tuple a u s)) \<longrightarrow> bs \<in> set rows))"
    then obtain rows where r: "r = Inr ()" and d': "d' = forget_rows S a u s rows d"
      and all: "\<And>key bs. d (namespace S, memory_set S, key) = Some bs \<Longrightarrow> map_of bs SCOPE_TUPLE = Some (PStr (scope_tuple a u s)) \<Longrightarrow> bs \<in> set rows"
      using assms(5) by blast
    have "d' (namespace S, memory_set S, key) = None"
      "row_event bs \<noteq> [] \<longrightarrow> (\<forall>t \<in> set (row_word_list bs). row_ref s bs \<notin> set (postings_of d' (posting_pk S a u t)))"
      if bs: "d (namespace S, memory_set S, key) = Some bs" "map_of bs SCOPE_TUPLE = Some (PStr (scope_tuple a u s))" for key bs
    proof -
      have "(namespace S, memory_set S, key) = memory_pk S a u s (row_event bs)"
        using row_purgeable(2)[OF each_keyedD[OF assms(3) bs(1)] bs(2)]
        by (simp add: memory_pk_def memory_key_def scope_tuple_def SEP_def)
      with forget_rows_gone[OF all[OF bs], where S = S and a = a and u = u and s = s and d = d]
      show "d' (namespace S, memory_set S, key) = None"
        "row_event bs \<noteq> [] \<longrightarrow> (\<forall>t \<in> set (row_word_list bs). row_ref s bs \<notin> set (postings_of d' (posting_pk S a u t)))"
        unfolding d' by (metis, blast)
    qed
    with r shrunk_forget_rows forget_rows_other show ?thesis unfolding d' by blast
  qed simp
qed

definition cat_records :: "(pk \<times> bins) list" where
  "cat_records = [(memory_pk demo_schema ''app'' ''ann'' ''s1'' ''e1'', memory_row sample_adk id ''app'' ''ann'' ''s1'' cat_event ''my cat'')]"

theorem purge_forgets_session_witness:
  "\<exists>r w'. purge_session_memories (calm_ext 500) demo_schema ''app'' ''ann'' ''s1'' (memory_world cat_records) = (r, w')
     \<and> (r = Inl (AE RecordTooBig) \<or> mem_view (srv w') (memory_pk demo_schema ''app'' ''ann'' ''s1'' ''e1'') = None)"
proof -
  obtain r w' where run: "purge_session_memories (calm_ext 500) demo_schema ''app'' ''ann'' ''s1'' (memory_world cat_records) = (r, w')"
    by fastforce
  have view: "map_of cat_records = mem_view (srv (memory_world cat_records))" by simp
  have ev: "ev_id cat_event = ''e1''" by (simp add: cat_event_def sample_event_def)
  have ok: "each_keyed (memory_row_ok sample_adk demo_schema) (map_of cat_records)"
    using put_memory_ok[OF empty_memory_ok, of sample_adk demo_schema "''app''" "''ann''" "''s1''" cat_event id "''my cat''"]
    by (auto simp: each_keyed_def cat_records_def memory_row_def ev split: if_splits)
  have row: "map_of cat_records (namespace demo_schema, memory_set demo_schema, memory_key ''app'' ''ann'' ''s1'' ''e1'') =
      Some (memory_row sample_adk id ''app'' ''ann'' ''s1'' cat_event ''my cat'')"
    by (simp add: cat_records_def memory_pk_def)
  have st: "map_of (memory_row sample_adk id ''app'' ''ann'' ''s1'' cat_event ''my cat'') SCOPE_TUPLE = Some (PStr (scope_tuple ''app'' ''ann'' ''s1''))"
    by (simp add: memory_row_def memory_bins_def cat_event_def sample_event_def)
  from purge_forgets_session[OF calm.reliable_client_axioms view ok run refl] run row st show ?thesis
    unfolding memory_pk_def by blast
qed

end
