(* ===== verification/Uri.thy ===== *)
theory Uri
  imports Py_Text
begin

text \<open>
  \<^verbatim>\<open>_internal/uri.py\<close>: the \<open>aerospike://\<close> URI. \<open>parse\<close> rests on \<open>urlsplit\<close>, on the
  \<open>username\<close> and \<open>password\<close> of its result and on \<open>parse_qs\<close>, which are written out here as far
  as the code uses them. What \<open>urlsplit\<close> checks of a host part with brackets (an IP address
  literal) or with characters outside ASCII (Unicode normalization) is the argument \<open>net_ok\<close>;
  the theorems rely on it only for host parts that have neither. \<open>int\<close> reads ASCII digits.
\<close>

section \<open>urllib\<close>

record split_result =
  sr_scheme :: string
  sr_netloc :: string
  sr_path :: string
  sr_query :: string

definition scheme_char :: "char \<Rightarrow> bool" where
  "scheme_char c \<longleftrightarrow> is_letter c \<or> is_digit c \<or> c \<in> set ''+-.''"

definition cut_scheme :: "string \<Rightarrow> string \<times> string" where
  "cut_scheme url =
     (let s = before (CHR '':'') url
      in if CHR '':'' \<in> set url \<and> s \<noteq> [] \<and> is_letter (hd s) \<and> list_all scheme_char s
         then (lower s, after (CHR '':'') url) else ([], url))"

definition cut_netloc :: "string \<Rightarrow> string \<times> string" where
  "cut_netloc url =
     (if take 2 url = ''//''
      then (takeWhile (\<lambda>c. c \<notin> set ''/?#'') (drop 2 url), dropWhile (\<lambda>c. c \<notin> set ''/?#'') (drop 2 url))
      else ([], url))"

definition removed :: "char \<Rightarrow> bool" where
  "removed c \<longleftrightarrow> (of_char c :: nat) \<in> {9, 10, 13}"

definition urlsplit :: "(string \<Rightarrow> bool) \<Rightarrow> string \<Rightarrow> split_result exc" where
  "urlsplit net_ok uri =
     (let url = filter (\<lambda>c. \<not> removed c) (dropWhile (in_range 0 32) uri);
          (scheme, url) = cut_scheme url;
          (netloc, url) = cut_netloc url;
          url = before (CHR ''#'') url
      in if (CHR ''['' \<in> set netloc) \<noteq> (CHR '']'' \<in> set netloc) \<or> \<not> net_ok netloc
         then Inl (ValueError ''invalid netloc'')
         else Inr \<lparr>sr_scheme = scheme, sr_netloc = netloc, sr_path = before (CHR ''?'') url,
                sr_query = after (CHR ''?'') url\<rparr>)"

definition sr_username :: "split_result \<Rightarrow> string option" where
  "sr_username r =
     (if CHR ''@'' \<in> set (sr_netloc r) then Some (before (CHR '':'') (before_last (CHR ''@'') (sr_netloc r))) else None)"

definition sr_password :: "split_result \<Rightarrow> string option" where
  "sr_password r =
     (let userinfo = before_last (CHR ''@'') (sr_netloc r)
      in if CHR ''@'' \<in> set (sr_netloc r) \<and> CHR '':'' \<in> set userinfo then Some (after (CHR '':'') userinfo) else None)"

text \<open>\<open>unquote\<close>: runs of ASCII characters have their escapes replaced and are decoded.\<close>

definition hex_val :: "char \<Rightarrow> nat option" where
  "hex_val c =
     (if is_digit c then Some (digit_val c)
      else if in_range 65 70 c then Some (of_char c - 55)
      else if in_range 97 102 c then Some (of_char c - 87) else None)"

fun unquote_to_bytes :: "string \<Rightarrow> string" where
  "unquote_to_bytes (c # a # b # s) =
     (if c = CHR ''%'' then
        (case (hex_val a, hex_val b) of
           (Some x, Some y) \<Rightarrow> char_of (16 * x + y) # unquote_to_bytes s
         | _ \<Rightarrow> c # unquote_to_bytes (a # b # s))
      else c # unquote_to_bytes (a # b # s))"
| "unquote_to_bytes s = s"

function unquote_runs :: "string \<Rightarrow> string" where
  "unquote_runs [] = []"
| "unquote_runs (c # s) =
     (if in_range 0 127 c
      then utf8_replace (unquote_to_bytes (c # takeWhile (in_range 0 127) s)) @ unquote_runs (dropWhile (in_range 0 127) s)
      else c # unquote_runs s)"
  by pat_completeness auto
termination by (relation "measure length") (auto simp: le_imp_less_Suc length_dropWhile_le)

definition unquote :: "string \<Rightarrow> string" where
  "unquote s = (if CHR ''%'' \<in> set s then unquote_runs s else s)"

definition plus_to_space :: "string \<Rightarrow> string" where
  "plus_to_space s = map (\<lambda>c. if c = CHR ''+'' then CHR '' '' else c) s"

text \<open>A field without a value, or with an empty one, is dropped.\<close>

definition qs_field :: "string \<Rightarrow> (string \<times> string) list" where
  "qs_field nv =
     (if CHR ''='' \<in> set nv \<and> after (CHR ''='') nv \<noteq> []
      then [(unquote (plus_to_space (before (CHR ''='') nv)), unquote (plus_to_space (after (CHR ''='') nv)))] else [])"

fun group_values :: "(string \<times> string) list \<Rightarrow> (string, string list) pydict \<Rightarrow> (string, string list) pydict" where
  "group_values [] d = d"
| "group_values ((k, v) # r) d = group_values r (dset k (dget d k [] @ [v]) d)"

definition parse_qs :: "string \<Rightarrow> (string, string list) pydict" where
  "parse_qs q = group_values (concat (map qs_field (split_on (CHR ''&'') q))) []"

section \<open>parse\<close>

record aerospike_uri =
  uri_scheme :: string
  uri_hosts :: "(string \<times> int) list"
  uri_namespace :: string
  uri_username :: "string option"
  uri_password :: "string option"
  uri_set_prefix :: string
  uri_tls :: bool
  uri_extras :: "(string, string) pydict"

definition DEFAULT_DB_PORT :: int where "DEFAULT_DB_PORT = 3000"
definition VALID_SCHEMES :: "string list" where "VALID_SCHEMES = [''aerospike'']"

definition host_port :: "string \<Rightarrow> (string \<times> int) exc" where
  "host_port hp =
     (let port_s = after (CHR '':'') hp
      in ebind (if port_s \<noteq> [] then int_of_str port_s else Inr DEFAULT_DB_PORT)
           (\<lambda>port. Inr (before (CHR '':'') hp, port)))"

definition parse :: "(string \<Rightarrow> bool) \<Rightarrow> string \<Rightarrow> aerospike_uri exc" where
  "parse net_ok uri = ebind (urlsplit net_ok uri) (\<lambda>parts.
     if sr_scheme parts \<notin> set VALID_SCHEMES then Inl (ValueError ''unsupported scheme'')
     else if sr_netloc parts = [] then Inl (ValueError ''missing host'')
     else let namespace = before (CHR ''/'') (dropWhile (\<lambda>c. c = CHR ''/'') (sr_path parts)) in
     if namespace = [] then Inl (ValueError ''missing namespace'')
     else let hostport_str = after_last (CHR ''@'') (sr_netloc parts) in
     ebind (emap host_port (split_on (CHR '','') hostport_str)) (\<lambda>hosts.
     let qs = map (\<lambda>(k, v). (k, hd v)) (parse_qs (sr_query parts));
         set_prefix = dget qs ''set_prefix'' ''adk_'';
         qs = ddel ''set_prefix'' qs;
         tls = lower (dget qs ''tls'' ''false'') \<in> set [''1'', ''true'', ''yes''];
         qs = ddel ''tls'' qs
     in Inr \<lparr>uri_scheme = sr_scheme parts, uri_hosts = hosts, uri_namespace = namespace,
          uri_username = sr_username parts, uri_password = sr_password parts,
          uri_set_prefix = set_prefix, uri_tls = tls, uri_extras = qs\<rparr>))"

section \<open>Queries\<close>

text \<open>Quoting as \<open>urllib.parse.quote\<close> does it, and the query string of a list of fields.\<close>

definition unreserved :: "char \<Rightarrow> bool" where
  "unreserved c \<longleftrightarrow> is_letter c \<or> is_digit c \<or> c \<in> set ''_.-~''"

definition hex_char :: "nat \<Rightarrow> char" where
  "hex_char d = char_of (if d < 10 then 48 + d else 55 + d)"

definition quote_char :: "char \<Rightarrow> string" where
  "quote_char c = (if unreserved c then [c] else [CHR ''%'', hex_char (of_char c div 16), hex_char (of_char c mod 16)])"

definition quote :: "string \<Rightarrow> string" where
  "quote s = concat (map quote_char s)"

definition field_text :: "string \<times> string \<Rightarrow> string" where
  "field_text kv = quote (fst kv) @ CHR ''='' # quote (snd kv)"

lemma unreserved_plain:
  "unreserved c \<Longrightarrow> in_range 33 126 c \<and> c \<notin> set ''%+&=#/?@:''"
proof
  assume c: "unreserved c"
  then show "in_range 33 126 c"
    by (auto simp: unreserved_def is_letter_def is_digit_def in_range_def)
  have "list_all (\<lambda>c. \<not> unreserved c) ''%+&=#/?@:''"
    by (simp add: unreserved_def is_letter_def is_digit_def)
  with c show "c \<notin> set ''%+&=#/?@:''" unfolding list_all_iff by blast
qed

lemma hex_char_cases: "d < 16 \<Longrightarrow> is_digit (hex_char d) \<or> in_range 65 70 (hex_char d)"
  by (simp add: hex_char_def is_digit_def in_range_def)

lemma hex_val_hex_char [simp]: "d < 16 \<Longrightarrow> hex_val (hex_char d) = Some d"
  by (simp add: hex_val_def hex_char_def is_digit_def digit_val_def in_range_def)

lemma hex_char_unreserved: "d < 16 \<Longrightarrow> unreserved (hex_char d)"
  using hex_char_cases[of d] by (auto simp: unreserved_def is_letter_def in_range_def)

lemma quote_char_plain:
  assumes "c \<in> set (quote_char x)"
  shows "in_range 33 126 c \<and> c \<notin> set ''+&=#/?@:''"
proof -
  have "of_char x < (256 :: nat)" by simp
  then have "of_char x div 16 < (16 :: nat)" by (simp add: less_mult_imp_div_less)
  then have "unreserved (hex_char (of_char x div 16))" "unreserved (hex_char (of_char x mod 16))"
    by (simp_all add: hex_char_unreserved)
  with assms have "unreserved c \<or> c = CHR ''%''"
    by (simp add: quote_char_def split: if_split_asm) blast
  then show ?thesis
  proof
    assume "unreserved c"
    then show ?thesis using unreserved_plain[of c] by simp
  qed (simp add: in_range_def)
qed

lemma quote_plain: "c \<in> set (quote s) \<Longrightarrow> in_range 33 126 c \<and> c \<notin> set ''+&=#/?@:''"
  using quote_char_plain by (auto simp: quote_def)

lemma quote_Cons: "quote (c # s) = quote_char c @ quote s"
  by (simp add: quote_def)

lemma quote_empty [simp]: "quote s = [] \<longleftrightarrow> s = []"
  by (cases s) (simp_all add: quote_def quote_char_def)

lemma unquote_to_bytes_plain: "c \<noteq> CHR ''%'' \<Longrightarrow> unquote_to_bytes (c # s) = c # unquote_to_bytes s"
  by (cases "c # s" rule: unquote_to_bytes.cases) simp_all

lemma unquote_to_bytes_quote: "unquote_to_bytes (quote s) = s"
proof (induction s)
  case Nil
  then show ?case by (simp add: quote_def)
next
  case (Cons c s)
  show ?case
  proof (cases "unreserved c")
    case True
    then have "c \<noteq> CHR ''%''" using unreserved_plain[of c] by auto
    with Cons True show ?thesis by (simp add: quote_Cons quote_char_def unquote_to_bytes_plain)
  next
    case False
    have "of_char c < (256 :: nat)" by simp
    then have "of_char c div 16 < (16 :: nat)" by (simp add: less_mult_imp_div_less)
    moreover have "char_of (16 * (of_char c div 16) + of_char c mod 16 :: nat) = c" by simp
    ultimately show ?thesis using Cons False by (simp add: quote_Cons quote_char_def)
  qed
qed

lemma unquote_runs_ascii:
  assumes "\<forall>c \<in> set s. in_range 0 127 c"
  shows "unquote_runs s = utf8_replace (unquote_to_bytes s)"
proof (cases s)
  case (Cons c r)
  have run: "takeWhile (in_range 0 127) r = r" "dropWhile (in_range 0 127) r = []"
    using assms Cons by (simp_all add: takeWhile_eq_all_conv dropWhile_eq_Nil_conv)
  show ?thesis using assms by (simp add: Cons run)
qed simp

lemma plus_to_space_none: "CHR ''+'' \<notin> set s \<Longrightarrow> plus_to_space s = s"
  by (induction s) (auto simp: plus_to_space_def)

lemma quote_without_escape: "CHR ''%'' \<notin> set (quote s) \<Longrightarrow> quote s = s"
  by (induction s) (auto simp: quote_def quote_char_def split: if_splits)

lemma unquote_quote:
  assumes "utf8_valid s"
  shows "unquote (plus_to_space (quote s)) = s"
proof -
  have "CHR ''+'' \<notin> set (quote s)" using quote_plain[of "CHR ''+''" s] by auto
  then have p: "plus_to_space (quote s) = quote s" by (rule plus_to_space_none)
  have "\<forall>c \<in> set (quote s). in_range 0 127 c"
    using quote_plain[of _ s] by (auto simp: in_range_def dest: quote_plain)
  then have "unquote_runs (quote s) = s"
    using assms by (simp add: unquote_runs_ascii unquote_to_bytes_quote utf8_replace_valid)
  then show ?thesis using quote_without_escape[of s] by (simp add: p unquote_def)
qed

lemma qs_field_text:
  assumes "utf8_valid k" "utf8_valid v" "v \<noteq> []"
  shows "qs_field (field_text (k, v)) = [(k, v)]"
proof -
  have "CHR ''='' \<notin> set (quote k)" using quote_plain[of "CHR ''=''" k] by auto
  then show ?thesis using assms by (simp add: qs_field_def field_text_def unquote_quote)
qed

lemma dset_new: "k \<notin> fst ` set d \<Longrightarrow> dset k v d = d @ [(k, v)]"
  by (induction d) (auto simp: dset_def)

lemma dget_none: "k \<notin> fst ` set d \<Longrightarrow> dget d k v = v"
  by (auto simp: dget_def split: option.splits dest: map_of_SomeD) (metis fst_conv image_eqI map_of_SomeD)

lemma group_values_distinct:
  "distinct (map fst (d @ map (\<lambda>(k, v). (k, [v])) r)) \<Longrightarrow>
     group_values r d = d @ map (\<lambda>(k, v). (k, [v])) r"
proof (induction r d rule: group_values.induct)
  case (2 k v r d)
  then have "k \<notin> fst ` set d" by auto
  then have "dset k (dget d k [] @ [v]) d = d @ [(k, [v])]" by (simp add: dset_new dget_none)
  with 2 show ?case by simp
qed simp

definition good_fields :: "(string \<times> string) list \<Rightarrow> bool" where
  "good_fields r \<longleftrightarrow> distinct (map fst r) \<and> (\<forall>(k, v) \<in> set r. utf8_valid k \<and> utf8_valid v \<and> v \<noteq> [])"

lemma parse_qs_fields:
  assumes "good_fields r"
  shows "map (\<lambda>(k, v). (k, hd v)) (parse_qs (join ''&'' (map field_text r))) = r"
proof (cases "r = []")
  case True
  then show ?thesis by (simp add: parse_qs_def qs_field_def)
next
  case False
  have "\<forall>x \<in> set (map field_text r). CHR ''&'' \<notin> set x"
    using quote_plain[of "CHR ''&''"] by (auto simp: field_text_def)
  then have s: "split_on (CHR ''&'') (join ''&'' (map field_text r)) = map field_text r"
    using False by (intro split_on_join) simp_all
  have "concat (map qs_field (map field_text r)) = r"
    using assms unfolding good_fields_def by (induction r) (auto simp: qs_field_text)
  moreover have "distinct (map fst (map (\<lambda>(k, v). (k, [v])) r))"
    using assms by (simp add: good_fields_def comp_def case_prod_unfold)
  ultimately show ?thesis
    using group_values_distinct[of "[]" r] by (simp add: parse_qs_def s comp_def case_prod_unfold)
qed

section \<open>Written URIs\<close>

definition free_of :: "string \<Rightarrow> nat \<Rightarrow> string \<Rightarrow> bool" where
  "free_of bad hi s \<longleftrightarrow> list_all (\<lambda>c. in_range 33 hi c \<and> c \<notin> set bad) s"

definition good_uri :: "aerospike_uri \<Rightarrow> bool" where
  "good_uri u \<longleftrightarrow> uri_scheme u = ''aerospike'' \<and> uri_hosts u \<noteq> []
     \<and> list_all (\<lambda>(h, p). h \<noteq> [] \<and> free_of ''/?#[]@:,'' 126 h \<and> 0 \<le> p) (uri_hosts u)
     \<and> uri_namespace u \<noteq> [] \<and> free_of ''/?#'' 255 (uri_namespace u)
     \<and> (case uri_username u of None \<Rightarrow> uri_password u = None
        | Some n \<Rightarrow> free_of ''/?#[]:'' 126 n \<and> (case uri_password u of None \<Rightarrow> True | Some q \<Rightarrow> free_of ''/?#[]'' 126 q))
     \<and> uri_set_prefix u \<noteq> [] \<and> utf8_valid (uri_set_prefix u)
     \<and> good_fields (uri_extras u) \<and> ''set_prefix'' \<notin> fst ` set (uri_extras u) \<and> ''tls'' \<notin> fst ` set (uri_extras u)"

definition userinfo_text :: "aerospike_uri \<Rightarrow> string" where
  "userinfo_text u = (case uri_username u of None \<Rightarrow> []
     | Some n \<Rightarrow> n @ (case uri_password u of None \<Rightarrow> [] | Some q \<Rightarrow> '':'' @ q) @ ''@'')"

definition host_text :: "string \<times> int \<Rightarrow> string" where
  "host_text hp = fst hp @ (if snd hp = DEFAULT_DB_PORT then [] else CHR '':'' # fmt_0d 1 (snd hp))"

definition netloc_text :: "aerospike_uri \<Rightarrow> string" where
  "netloc_text u = userinfo_text u @ join '','' (map host_text (uri_hosts u))"

definition fields_of :: "aerospike_uri \<Rightarrow> (string \<times> string) list" where
  "fields_of u = (if uri_set_prefix u = ''adk_'' then [] else [(''set_prefix'', uri_set_prefix u)])
     @ (if uri_tls u then [(''tls'', ''true'')] else []) @ uri_extras u"

definition query_text :: "aerospike_uri \<Rightarrow> string" where
  "query_text u = join ''&'' (map field_text (fields_of u))"

definition render :: "aerospike_uri \<Rightarrow> string" where
  "render u = ''aerospike://'' @ netloc_text u @ ''/'' @ uri_namespace u
     @ (if fields_of u = [] then [] else CHR ''?'' # query_text u)"

text \<open>What is relied on: a host part of visible ASCII characters without brackets passes.\<close>

definition accepts_plain :: "(string \<Rightarrow> bool) \<Rightarrow> bool" where
  "accepts_plain net_ok \<longleftrightarrow> (\<forall>s. free_of ''[]'' 126 s \<longrightarrow> net_ok s)"

lemma free_of_append [simp]: "free_of b h (s @ t) \<longleftrightarrow> free_of b h s \<and> free_of b h t"
  by (simp add: free_of_def)

lemma free_of_Cons [simp]: "free_of b h (c # s) \<longleftrightarrow> in_range 33 h c \<and> c \<notin> set b \<and> free_of b h s"
  by (auto simp: free_of_def)

lemma free_of_Nil [simp]: "free_of b h []"
  by (simp add: free_of_def)

lemma free_of_mono: "free_of b h s \<Longrightarrow> set b' \<subseteq> set b \<Longrightarrow> h \<le> h' \<Longrightarrow> free_of b' h' s"
  by (auto simp: free_of_def list_all_iff in_range_def)

lemma free_of_notin: "free_of b h s \<Longrightarrow> c \<in> set b \<Longrightarrow> c \<notin> set s"
  by (auto simp: free_of_def list_all_iff)

lemma free_of_join: "free_of b h sep \<Longrightarrow> \<forall>x \<in> set xs. free_of b h x \<Longrightarrow> free_of b h (join sep xs)"
  by (induction sep xs rule: join.induct) auto

lemma free_of_quote: "free_of ''+&=#/?@:'' 126 (quote s)"
  using quote_plain[of _ s] unfolding free_of_def list_all_iff by blast

lemma free_of_fmt: "0 \<le> p \<Longrightarrow> free_of ''/?#[]@:,'' 126 (fmt_0d w p)"
proof -
  assume "0 \<le> p"
  then have d: "\<forall>c \<in> set (fmt_0d w p). is_digit c" by (rule fmt_nonneg_digits)
  have "list_all (\<lambda>c. \<not> is_digit c) ''/?#[]@:,''" by (simp add: is_digit_def)
  with d show ?thesis by (fastforce simp: free_of_def list_all_iff in_range_def is_digit_def)
qed

lemma host_text_free:
  assumes "free_of ''/?#[]@:,'' 126 h" "0 \<le> p"
  shows "free_of ''/?#[]@,'' 126 (host_text (h, p))"
proof -
  have "free_of ''/?#[]@,'' 126 (fmt_0d 1 p)" using free_of_fmt[OF assms(2)] by (rule free_of_mono) auto
  moreover have "free_of ''/?#[]@,'' 126 h" using assms(1) by (rule free_of_mono) auto
  ultimately show ?thesis by (simp add: host_text_def in_range_def)
qed

lemma host_port_text:
  assumes "free_of ''/?#[]@:,'' 126 h" "0 \<le> p"
  shows "host_port (host_text (h, p)) = Inr (h, p)"
proof -
  have "CHR '':'' \<notin> set h" using assms(1) by (rule free_of_notin) simp
  moreover have "fmt_0d 1 p \<noteq> []" using assms(2) by (simp add: fmt_nonneg pad0_def)
  ultimately show ?thesis by (simp add: host_port_def host_text_def int_of_str_fmt assms(2))
qed

text \<open>The pieces that \<open>urlsplit\<close> finds in a URI written as \<open>render\<close> writes it.\<close>

lemma not_removed: "free_of b h s \<Longrightarrow> filter (\<lambda>c. \<not> removed c) s = s"
  by (auto simp: free_of_def list_all_iff removed_def in_range_def intro!: filter_True)

lemma takeWhile_free:
  assumes "free_of b h s" "set d \<subseteq> set b" "c \<in> set d"
  shows "takeWhile (\<lambda>c. c \<notin> set d) (s @ c # t) = s" "dropWhile (\<lambda>c. c \<notin> set d) (s @ c # t) = c # t"
proof -
  have "\<forall>x \<in> set s. x \<notin> set d" using assms(1,2) by (auto simp: free_of_def list_all_iff)
  then show "takeWhile (\<lambda>c. c \<notin> set d) (s @ c # t) = s" "dropWhile (\<lambda>c. c \<notin> set d) (s @ c # t) = c # t"
    using assms(3) by (induction s) auto
qed

lemma cut_scheme_text: "cut_scheme (''aerospike:'' @ t) = (''aerospike'', t)"
  using before_after_sep[of "CHR '':''" "''aerospike''" t]
  by (simp add: cut_scheme_def scheme_char_def is_letter_def lower_def lower_char_def Let_def)

lemma urlsplit_text:
  assumes n: "free_of ''/?#'' 255 n" and m: "free_of ''/?#'' 255 m" and q: "free_of ''#'' 255 q"
    and ok: "(CHR ''['' \<in> set n) = (CHR '']'' \<in> set n)" "net_ok n"
  shows "urlsplit net_ok (''aerospike://'' @ n @ ''/'' @ m @ (if q = [] then [] else CHR ''?'' # q))
    = Inr \<lparr>sr_scheme = ''aerospike'', sr_netloc = n, sr_path = ''/'' @ m, sr_query = q\<rparr>"
proof -
  let ?q = "if q = [] then [] else CHR ''?'' # q"
  let ?u = "''aerospike://'' @ n @ ''/'' @ m @ ?q"
  have "free_of ''#'' 255 m" using m by (rule free_of_mono) auto
  then have tail: "free_of ''#'' 255 (''/'' @ m @ ?q)" using q by (simp add: in_range_def)
  have "free_of [] 255 ?u"
    using free_of_mono[OF n, of "[]" 255] free_of_mono[OF tail, of "[]" 255] by (simp add: in_range_def)
  then have f: "filter (\<lambda>c. \<not> removed c) ?u = ?u" by (rule not_removed)
  have d: "dropWhile (in_range 0 32) ?u = ?u" by (simp add: in_range_def)
  have s: "cut_scheme ?u = (''aerospike'', ''//'' @ n @ ''/'' @ m @ ?q)"
    using cut_scheme_text[of "''//'' @ n @ ''/'' @ m @ ?q"] by simp
  have l: "cut_netloc (''//'' @ n @ ''/'' @ m @ ?q) = (n, ''/'' @ m @ ?q)"
    using takeWhile_free[OF n, of "''/?#''" "CHR ''/''" "m @ ?q"] by (simp add: cut_netloc_def)
  have h: "before (CHR ''#'') (''/'' @ m @ ?q) = ''/'' @ m @ ?q"
    using free_of_notin[OF tail] by (intro before_none) simp
  have mm: "CHR ''?'' \<notin> set (''/'' @ m)" using free_of_notin[OF m] by simp
  have p: "before (CHR ''?'') (''/'' @ m @ ?q) = ''/'' @ m" "after (CHR ''?'') (''/'' @ m @ ?q) = q"
    using before_after_sep[OF mm, of q] before_none[OF mm] after_none[OF mm] by simp_all
  show ?thesis
    unfolding urlsplit_def d f Let_def s l case_prod_conv h p using ok by simp
qed

lemma netloc_parts:
  assumes "good_uri u"
  shows "free_of ''/?#[]'' 126 (netloc_text u)"
    and "after_last (CHR ''@'') (netloc_text u) = join '','' (map host_text (uri_hosts u))"
    and "\<lbrakk>sr_netloc r = netloc_text u\<rbrakk> \<Longrightarrow> sr_username r = uri_username u \<and> sr_password r = uri_password u"
proof -
  let ?h = "join '','' (map host_text (uri_hosts u))"
  have hosts: "free_of ''/?#[]@'' 126 x" if m: "x \<in> set (map host_text (uri_hosts u))" for x
  proof -
    obtain h p where x: "x = host_text (h, p)" "(h, p) \<in> set (uri_hosts u)" using m by auto
    with assms have "free_of ''/?#[]@:,'' 126 h" "0 \<le> p" by (auto simp: good_uri_def list_all_iff)
    then have "free_of ''/?#[]@,'' 126 x" unfolding x(1) by (rule host_text_free)
    then show ?thesis by (rule free_of_mono) auto
  qed
  then have h: "free_of ''/?#[]@'' 126 ?h" by (intro free_of_join) (auto simp: in_range_def)
  then have at: "CHR ''@'' \<notin> set ?h" by (rule free_of_notin) simp
  have h': "free_of ''/?#[]'' 126 ?h" using h by (rule free_of_mono) auto
  show "free_of ''/?#[]'' 126 (netloc_text u)"
    using assms h' by (auto simp: good_uri_def netloc_text_def userinfo_text_def in_range_def
      split: option.splits intro: free_of_mono[of "''/?#[]:''" 126 _ "''/?#[]''"])
  show "after_last (CHR ''@'') (netloc_text u) = ?h"
  proof (cases "uri_username u")
    case None
    with at show ?thesis by (simp add: netloc_text_def userinfo_text_def)
  next
    case (Some n)
    with around_last[OF at, of "n @ (case uri_password u of None \<Rightarrow> [] | Some q \<Rightarrow> '':'' @ q)"]
    show ?thesis by (simp add: netloc_text_def userinfo_text_def)
  qed
  show "sr_username r = uri_username u \<and> sr_password r = uri_password u" if r: "sr_netloc r = netloc_text u"
  proof (cases "uri_username u")
    case None
    with at assms show ?thesis
      by (auto simp: sr_username_def sr_password_def r netloc_text_def userinfo_text_def good_uri_def)
  next
    case (Some n)
    let ?i = "n @ (case uri_password u of None \<Rightarrow> [] | Some q \<Rightarrow> '':'' @ q)"
    have net: "netloc_text u = ?i @ CHR ''@'' # ?h" using Some by (simp add: netloc_text_def userinfo_text_def)
    have "CHR '':'' \<notin> set n" using assms Some by (auto simp: good_uri_def dest: free_of_notin[of _ _ _ "CHR '':''"])
    then show ?thesis
      using around_last[OF at, of ?i] Some
      by (cases "uri_password u") (simp_all add: sr_username_def sr_password_def r net)
  qed
qed

lemma query_text_free: "free_of ''#'' 255 (query_text u)"
proof -
  have "free_of ''#'' 255 (field_text kv)" for kv
  proof -
    have "free_of ''#'' 255 (quote s)" for s using free_of_quote by (rule free_of_mono) auto
    then show ?thesis by (simp add: field_text_def in_range_def)
  qed
  then show ?thesis unfolding query_text_def by (intro free_of_join) (auto simp: in_range_def)
qed

lemma query_text_empty: "query_text u = [] \<longleftrightarrow> fields_of u = []"
proof (cases "fields_of u")
  case (Cons f r)
  then show ?thesis by (cases r) (simp_all add: query_text_def field_text_def)
qed (simp add: query_text_def)

lemma good_fields_of:
  assumes "good_uri u"
  shows "good_fields (fields_of u)"
proof -
  have "utf8_valid ''set_prefix''" "utf8_valid ''tls''" "utf8_valid ''true''"
    by (simp_all add: in_range_def)
  with assms show ?thesis by (auto simp: good_uri_def good_fields_def fields_of_def simp del: utf8_valid.simps)
qed

lemma ddel_none: "k \<notin> fst ` set d \<Longrightarrow> ddel k d = d"
  by (simp add: ddel_def delete_id)

text \<open>Taking \<open>set_prefix\<close> and \<open>tls\<close> out of the parameters.\<close>

lemma fields_popped:
  assumes "''set_prefix'' \<notin> fst ` set (uri_extras u)" "''tls'' \<notin> fst ` set (uri_extras u)"
  shows "dget (fields_of u) ''set_prefix'' ''adk_'' = uri_set_prefix u"
    and "lower (dget (ddel ''set_prefix'' (fields_of u)) ''tls'' ''false'') \<in> set [''1'', ''true'', ''yes''] \<longleftrightarrow> uri_tls u"
    and "ddel ''tls'' (ddel ''set_prefix'' (fields_of u)) = uri_extras u"
proof -
  have none: "dget (uri_extras u) ''set_prefix'' v = v" "dget (uri_extras u) ''tls'' v = v" for v
    using assms by (simp_all add: dget_none)
  have old: "ddel ''set_prefix'' (uri_extras u) = uri_extras u" "ddel ''tls'' (uri_extras u) = uri_extras u"
    using assms by (simp_all add: ddel_none)
  have cons: "dget ((k, w) # d) k' v = (if k = k' then w else dget d k' v)" for k k' w v and d :: "(string, string) pydict"
    by (simp add: dget_def)
  have dcons: "ddel k' ((k, w) # d) = (if k = k' then ddel k' d else (k, w) # ddel k' d)"
    for k k' w and d :: "(string, string) pydict"
    by (simp add: ddel_def)
  show "dget (fields_of u) ''set_prefix'' ''adk_'' = uri_set_prefix u"
    by (simp add: fields_of_def none cons)
  show "ddel ''tls'' (ddel ''set_prefix'' (fields_of u)) = uri_extras u"
    by (simp add: fields_of_def dcons old)
  show "lower (dget (ddel ''set_prefix'' (fields_of u)) ''tls'' ''false'') \<in> set [''1'', ''true'', ''yes''] \<longleftrightarrow> uri_tls u"
    by (simp add: fields_of_def dcons old none cons lower_def lower_char_def)
qed

lemma urlsplit_render:
  assumes "good_uri u" "accepts_plain net_ok"
  shows "urlsplit net_ok (render u) = Inr \<lparr>sr_scheme = ''aerospike'', sr_netloc = netloc_text u,
    sr_path = ''/'' @ uri_namespace u, sr_query = query_text u\<rparr>"
proof -
  note n = netloc_parts(1)[OF assms(1)]
  have "net_ok (netloc_text u)"
    using assms(2) free_of_mono[OF n, of "''[]''" 126] by (simp add: accepts_plain_def)
  moreover have "(CHR ''['' \<in> set (netloc_text u)) = (CHR '']'' \<in> set (netloc_text u))"
    using free_of_notin[OF n] by simp
  moreover have "free_of ''/?#'' 255 (netloc_text u)" using n by (rule free_of_mono) auto
  moreover have "free_of ''/?#'' 255 (uri_namespace u)" using assms(1) by (simp add: good_uri_def)
  ultimately show ?thesis
    using urlsplit_text[of "netloc_text u" "uri_namespace u" "query_text u" net_ok] query_text_free
    by (simp add: render_def query_text_empty)
qed

lemma hosts_parsed:
  assumes "good_uri u"
  shows "emap host_port (split_on (CHR '','') (join '','' (map host_text (uri_hosts u)))) = Inr (uri_hosts u)"
    and "netloc_text u \<noteq> []"
proof -
  have hs: "\<forall>(h, p) \<in> set (uri_hosts u). free_of ''/?#[]@:,'' 126 h \<and> h \<noteq> [] \<and> 0 \<le> p" "uri_hosts u \<noteq> []"
    using assms by (auto simp: good_uri_def list_all_iff)
  have "\<forall>x \<in> set (map host_text (uri_hosts u)). CHR '','' \<notin> set x"
    using hs(1) host_text_free free_of_notin[of "''/?#[]@,''" 126 _ "CHR '',''"] by fastforce
  then have "split_on (CHR '','') (join '','' (map host_text (uri_hosts u))) = map host_text (uri_hosts u)"
    using hs(2) by (intro split_on_join) simp_all
  moreover have "emap host_port (map host_text (uri_hosts u)) = Inr (map id (uri_hosts u))"
    using hs(1) by (intro emap_ok) (auto simp: host_port_text)
  ultimately show "emap host_port (split_on (CHR '','') (join '','' (map host_text (uri_hosts u)))) = Inr (uri_hosts u)"
    by simp
  obtain h p hs' where "uri_hosts u = (h, p) # hs'" using hs(2) by (cases "uri_hosts u") auto
  then show "netloc_text u \<noteq> []" using hs(1) by (cases hs') (auto simp: netloc_text_def host_text_def)
qed

section \<open>Properties\<close>

text \<open>
  C36. Everything that can be written into a URI is read back: the seeds with their ports (3000
  where none is written), the namespace, user name and password as they stand, and the query
  parameters, percent-encoded, in any UTF-8 text. The prefix of the sets and the TLS flag are
  taken out of the parameters; the others are kept in order. (An empty value cannot be
  written: \<open>parse_qs\<close> drops it.)
\<close>

theorem uri_roundtrip:
  assumes "good_uri u" "accepts_plain net_ok"
  shows "parse net_ok (render u) = Inr u"
proof -
  let ?r = "\<lparr>sr_scheme = ''aerospike'', sr_netloc = netloc_text u, sr_path = ''/'' @ uri_namespace u,
    sr_query = query_text u\<rparr>"
  have u: "uri_scheme u = ''aerospike''" "''set_prefix'' \<notin> fst ` set (uri_extras u)"
    "''tls'' \<notin> fst ` set (uri_extras u)" "uri_namespace u \<noteq> []" "CHR ''/'' \<notin> set (uri_namespace u)"
    using assms(1) by (auto simp: good_uri_def dest: free_of_notin[of _ _ _ "CHR ''/''"])
  then have "before (CHR ''/'') (dropWhile (\<lambda>c. c = CHR ''/'') (uri_namespace u)) = uri_namespace u"
    by (cases "uri_namespace u") auto
  moreover have "map (\<lambda>(k, v). (k, hd v)) (parse_qs (query_text u)) = fields_of u"
    using parse_qs_fields[OF good_fields_of[OF assms(1)]] by (simp add: query_text_def)
  moreover have "sr_username ?r = uri_username u" "sr_password ?r = uri_password u"
    using netloc_parts(3)[OF assms(1), of ?r] by simp_all
  moreover note fields_popped(2)[OF u(2,3), simplified]
  ultimately show ?thesis
    using netloc_parts(2)[OF assms(1)] u(1,4)
    by (simp add: parse_def urlsplit_render[OF assms] hosts_parsed[OF assms(1)] VALID_SCHEMES_def
        fields_popped(1,3)[OF u(2,3)] Let_def aerospike_uri.equality)
qed

theorem uri_roundtrip_witness:
  "parse (\<lambda>_. True) ''aerospike://me:s@host:3100,b/ns?set_prefix=p%26_&tls=true&x=%2B''
     = Inr \<lparr>uri_scheme = ''aerospike'', uri_hosts = [(''host'', 3100), (''b'', 3000)], uri_namespace = ''ns'',
         uri_username = Some ''me'', uri_password = Some ''s'', uri_set_prefix = ''p&_'', uri_tls = True,
         uri_extras = [(''x'', ''+'')]\<rparr>"
proof -
  let ?u = "\<lparr>uri_scheme = ''aerospike'', uri_hosts = [(''host'', 3100), (''b'', 3000)], uri_namespace = ''ns'',
         uri_username = Some ''me'', uri_password = Some ''s'', uri_set_prefix = ''p&_'', uri_tls = True,
         uri_extras = [(''x'', ''+'')]\<rparr>"
  have "good_uri ?u" by (simp add: good_uri_def in_range_def good_fields_def)
  moreover have "accepts_plain (\<lambda>_. True)" by (simp add: accepts_plain_def)
  moreover have "render ?u = ''aerospike://me:s@host:3100,b/ns?set_prefix=p%26_&tls=true&x=%2B''" by code_simp
  ultimately show ?thesis using uri_roundtrip[of ?u "\<lambda>_. True"] by simp
qed

lemma split_on_free: "x \<in> set (split_on c s) \<Longrightarrow> c \<notin> set x \<and> set x \<subseteq> set s"
proof (induction s arbitrary: x)
  case (Cons a s)
  show ?case
  proof (cases "a = c")
    case True
    with Cons.prems have "x = [] \<or> x \<in> set (split_on c s)" by simp
    with Cons.IH[of x] show ?thesis by auto
  next
    case False
    obtain y ys where y: "split_on c s = y # ys" by (cases "split_on c s") auto
    with Cons.prems False have "x = a # y \<or> x \<in> set ys" by simp
    with Cons.IH[of y] Cons.IH[of x] False y show ?thesis by auto
  qed
qed simp

lemma before_free: "c \<notin> set (before c s)" "set (before c s) \<subseteq> set s"
  by (induction s) (auto simp: before_def)

lemma after_last_free: "c \<notin> set (after_last c s)" "set (after_last c s) \<subseteq> set s"
  using before_free[of c "rev s"] by (auto simp: after_last_def)

lemma int_of_str_error: "int_of_str s = Inl e \<Longrightarrow> e = ValueError ''invalid literal for int()''"
  by (auto simp: int_of_str_def Let_def split: option.splits if_splits)

lemma host_port_cases:
  "host_port hp = Inl (ValueError ''invalid literal for int()'') \<or> (\<exists>p. host_port hp = Inr (before (CHR '':'') hp, p))"
proof (cases "int_of_str (after (CHR '':'') hp)")
  case (Inl e)
  with int_of_str_error[OF this] show ?thesis by (auto simp: host_port_def Let_def)
qed (auto simp: host_port_def Let_def)

lemma emap_host_port_error: "emap host_port xs = Inl e \<Longrightarrow> e = ValueError ''invalid literal for int()''"
proof (induction xs)
  case (Cons x xs)
  with host_port_cases[of x] show ?case by (cases "emap host_port xs") auto
qed simp

lemma emap_host_port_names: "emap host_port xs = Inr hs \<Longrightarrow> map fst hs = map (before (CHR '':'')) xs"
proof (induction xs arbitrary: hs)
  case (Cons x xs)
  with host_port_cases[of x] show ?case by (cases "emap host_port xs") auto
qed simp

lemma int_digits_chars: "int_digits a s \<noteq> None \<Longrightarrow> c \<in> set s \<Longrightarrow> is_digit c \<or> c = CHR ''_''"
  by (induction a s rule: int_digits.induct) (auto split: if_splits)

lemma strip_chars: "c \<in> set s \<Longrightarrow> \<not> is_space c \<Longrightarrow> c \<in> set (strip s)"
proof -
  have d: "c \<in> set (dropWhile is_space t)" if "c \<in> set t" "\<not> is_space c" for t
    using that by (induction t) auto
  show "c \<in> set s \<Longrightarrow> \<not> is_space c \<Longrightarrow> c \<in> set (strip s)" by (simp add: strip_def d)
qed

text \<open>A second colon, as in an IPv6 address, is never part of a port number.\<close>

lemma int_of_str_colon: "CHR '':'' \<in> set s \<Longrightarrow> int_of_str s = Inl (ValueError ''invalid literal for int()'')"
proof -
  assume "CHR '':'' \<in> set s"
  then have c: "CHR '':'' \<in> set (strip s)" by (rule strip_chars) (simp add: is_space_def)
  let ?u = "if strip s \<noteq> [] \<and> (hd (strip s) = CHR ''-'' \<or> hd (strip s) = CHR ''+'') then tl (strip s) else strip s"
  have "CHR '':'' \<in> set ?u" using c by (cases "strip s") auto
  then have "int_digits 0 ?u = None"
    using int_digits_chars[of 0 ?u "CHR '':''"] by (cases "int_digits 0 ?u") (simp_all add: is_digit_def)
  then show ?thesis by (simp add: int_of_str_def Let_def cong: if_cong)
qed

lemma group_values_keys:
  "distinct (map fst d) \<Longrightarrow> distinct (map fst (group_values r d))"
  by (induction r d rule: group_values.induct) simp_all

lemma parse_scheme: "parse net_ok uri = Inr u \<Longrightarrow> uri_scheme u = ''aerospike''"
  by (auto simp: parse_def Let_def ebind_def VALID_SCHEMES_def split: if_splits sum.splits)

definition well_shaped :: "aerospike_uri \<Rightarrow> bool" where
  "well_shaped u \<longleftrightarrow> uri_scheme u = ''aerospike'' \<and> uri_hosts u \<noteq> []
     \<and> list_all (\<lambda>(h, p). set h \<inter> set ''/?#@:,'' = {}) (uri_hosts u)
     \<and> uri_namespace u \<noteq> [] \<and> set (uri_namespace u) \<inter> set ''/?#'' = {}
     \<and> (uri_username u = None \<longrightarrow> uri_password u = None)
     \<and> distinct (map fst (uri_extras u)) \<and> ''set_prefix'' \<notin> fst ` set (uri_extras u) \<and> ''tls'' \<notin> fst ` set (uri_extras u)"

lemma dom_ddel: "fst ` set (ddel k d) = fst ` set d - {k}"
  using arg_cong[OF delete_keys[of k d], of set] by (simp add: ddel_def)

lemma cut_netloc_free: "cut_netloc url = (n, r) \<Longrightarrow> set n \<inter> set ''/?#'' = {}"
  by (auto simp: cut_netloc_def split: if_splits dest: set_takeWhileD)

lemma urlsplit_free:
  assumes "urlsplit net_ok uri = Inr r"
  shows "set (sr_netloc r) \<inter> set ''/?#'' = {}" "set (sr_path r) \<inter> set ''?#'' = {}"
proof -
  let ?url = "filter (\<lambda>c. \<not> removed c) (dropWhile (in_range 0 32) uri)"
  obtain s u where s: "cut_scheme ?url = (s, u)" by (cases "cut_scheme ?url")
  obtain n v where n: "cut_netloc u = (n, v)" by (cases "cut_netloc u")
  have r: "sr_netloc r = n" "sr_path r = before (CHR ''?'') (before (CHR ''#'') v)"
    using assms by (auto simp: urlsplit_def s n Let_def split: if_splits)
  show "set (sr_netloc r) \<inter> set ''/?#'' = {}" using cut_netloc_free[OF n] by (simp add: r)
  show "set (sr_path r) \<inter> set ''?#'' = {}"
    using before_free[of "CHR ''?''" "before (CHR ''#'') v"] before_free[of "CHR ''#''" v] by (auto simp: r)
qed

lemma urlsplit_error: "urlsplit net_ok uri = Inl e \<Longrightarrow> \<exists>m. e = ValueError m"
  by (auto simp: urlsplit_def Let_def split: prod.splits if_splits)

lemma host_names_free:
  assumes "urlsplit net_ok uri = Inr r" "emap host_port (split_on (CHR '','') (after_last (CHR ''@'') (sr_netloc r))) = Inr hs"
    "(h, p) \<in> set hs"
  shows "set h \<inter> set ''/?#@:,'' = {}"
proof -
  let ?hp = "after_last (CHR ''@'') (sr_netloc r)"
  have "h \<in> set (map fst hs)" using assms(3) by force
  then obtain x where x: "h = before (CHR '':'') x" "x \<in> set (split_on (CHR '','') ?hp)"
    by (auto simp: emap_host_port_names[OF assms(2)])
  have "set h \<subseteq> set x" "CHR '':'' \<notin> set h" using before_free[of "CHR '':''" x] by (simp_all add: x(1))
  moreover have "set x \<subseteq> set ?hp" "CHR '','' \<notin> set x" using split_on_free[OF x(2)] by simp_all
  moreover have "set ?hp \<subseteq> set (sr_netloc r)" "CHR ''@'' \<notin> set ?hp"
    using after_last_free[of "CHR ''@''" "sr_netloc r"] by simp_all
  moreover note urlsplit_free(1)[OF assms(1)]
  ultimately show ?thesis by auto
qed

lemma parse_well_shaped:
  assumes u: "parse net_ok uri = Inr u"
  shows "well_shaped u"
proof -
  obtain r where r: "urlsplit net_ok uri = Inr r" using u by (cases "urlsplit net_ok uri") (simp_all add: parse_def)
  let ?ns = "before (CHR ''/'') (dropWhile (\<lambda>c. c = CHR ''/'') (sr_path r))"
  let ?hp = "after_last (CHR ''@'') (sr_netloc r)"
  let ?qs = "map (\<lambda>(k, v). (k, hd v)) (parse_qs (sr_query r))"
  obtain hs where hs: "emap host_port (split_on (CHR '','') ?hp) = Inr hs"
    using u r by (cases "emap host_port (split_on (CHR '','') ?hp)") (auto simp: parse_def Let_def split: if_splits)
  have u': "uri_scheme u = ''aerospike''" "uri_hosts u = hs" "uri_namespace u = ?ns" "?ns \<noteq> []"
    "uri_username u = sr_username r" "uri_password u = sr_password r"
    "uri_extras u = ddel ''tls'' (ddel ''set_prefix'' ?qs)"
    using u r hs by (auto simp: parse_def Let_def VALID_SCHEMES_def split: if_splits)
  have "list_all (\<lambda>(h, p). set h \<inter> set ''/?#@:,'' = {}) hs"
    using host_names_free[OF r hs] by (auto simp: list_all_iff)
  moreover have "hs \<noteq> []" using emap_host_port_names[OF hs] by auto
  moreover have "set ?ns \<inter> set ''/?#'' = {}"
    using before_free[of "CHR ''/''" "dropWhile (\<lambda>c. c = CHR ''/'') (sr_path r)"] urlsplit_free(2)[OF r]
      set_dropWhileD[of _ "\<lambda>c. c = CHR ''/''" "sr_path r"]
    by auto
  moreover have "sr_username r = None \<longrightarrow> sr_password r = None"
    by (simp add: sr_username_def sr_password_def Let_def)
  moreover have "distinct (map fst ?qs)"
    using group_values_keys[of "[]"] by (simp add: parse_qs_def comp_def case_prod_unfold)
  ultimately show ?thesis
    unfolding well_shaped_def u' dom_ddel using u'(4)
    by (simp add: ddel_def distinct_delete)
qed

text \<open>
  C37. Whatever text it is given, \<open>parse\<close> raises nothing but \<open>ValueError\<close>, and what it accepts is
  well shaped: the scheme is \<open>aerospike\<close>, there is a seed, the namespace is a non-empty path
  component, no host name holds a separator, and the extra parameters are a dictionary without
  the two keys that were taken out. A seed with a second colon, which every IPv6 address has,
  bracketed or not, is refused.
\<close>

theorem uri_accepted:
  "(\<forall>e. parse net_ok uri = Inl e \<longrightarrow> (\<exists>m. e = ValueError m))
   \<and> (\<forall>u. parse net_ok uri = Inr u \<longrightarrow> well_shaped u)
   \<and> (CHR '':'' \<in> set (after (CHR '':'') seed)
        \<longrightarrow> host_port seed = Inl (ValueError ''invalid literal for int()''))"
proof (intro conjI allI impI)
  fix e
  assume "parse net_ok uri = Inl e"
  then show "\<exists>m. e = ValueError m"
    by (cases "urlsplit net_ok uri")
      (auto simp: parse_def Let_def ebind_def split: if_splits sum.splits
        dest: urlsplit_error emap_host_port_error)
next
  fix u
  assume "parse net_ok uri = Inr u"
  then show "well_shaped u" by (rule parse_well_shaped)
next
  assume "CHR '':'' \<in> set (after (CHR '':'') seed)"
  then show "host_port seed = Inl (ValueError ''invalid literal for int()'')"
    using int_of_str_colon[of "after (CHR '':'') seed"] by (auto simp: host_port_def Let_def)
qed

theorem uri_accepted_witness:
  "host_port ''[::1]:3000'' = Inl (ValueError ''invalid literal for int()'')
   \<and> (\<exists>u. parse (\<lambda>_. True) ''aerospike://h/n'' = Inr u \<and> well_shaped u)"
proof -
  have "CHR '':'' \<in> set (after (CHR '':'') ''[::1]:3000'')" by (simp add: after_def)
  moreover have "isl (parse (\<lambda>_. True) ''aerospike://h/n'') = False" by code_simp
  then have "\<exists>u. parse (\<lambda>_. True) ''aerospike://h/n'' = Inr u" by (cases "parse (\<lambda>_. True) ''aerospike://h/n''") simp_all
  ultimately show ?thesis
    using uri_accepted[of "\<lambda>_. True" "''aerospike://h/n''" "''[::1]:3000''"] by blast
qed

end
