(* ===== verification/Client.thy ===== *)
theory Client
  imports Uri Py_Effects
begin

text \<open>
  \<^verbatim>\<open>_internal/client.py\<close>: the configuration of the client, how it connects and how it is
  closed. The \<open>aerospike\<close> module is the argument \<open>D\<close>: two policy constants, two index kinds,
  and the calls on a client, over an arbitrary state. A tuple in the configuration is written
  as a list. A policy override is a map of maps, as its annotation and docstring say; log
  lines are left out.
\<close>

record ('c, 's) driver =
  POLICY_KEY_SEND :: pyval
  POLICY_COMMIT_LEVEL_ALL :: pyval
  INDEX_STRING :: pyval
  INDEX_NUMERIC :: pyval
  new_client :: "dict \<Rightarrow> 's \<Rightarrow> 'c exc \<times> 's"
  connect :: "'c \<Rightarrow> (string \<times> string) option \<Rightarrow> 's \<Rightarrow> unit exc \<times> 's"
  close :: "'c \<Rightarrow> 's \<Rightarrow> unit exc \<times> 's"
  index_single_value_create :: "'c \<Rightarrow> string \<Rightarrow> string \<Rightarrow> string \<Rightarrow> pyval \<Rightarrow> string \<Rightarrow> 's \<Rightarrow> unit exc \<times> 's"

type_synonym policies = "(string, dict) pydict"

definition default_policies :: "('c, 's) driver \<Rightarrow> policies" where
  "default_policies D =
     [(''read'', [(''total_timeout'', PInt 1000), (''max_retries'', PInt 2), (''key'', POLICY_KEY_SEND D)]),
      (''write'', [(''total_timeout'', PInt 1000), (''max_retries'', PInt 0), (''key'', POLICY_KEY_SEND D),
                   (''commit_level'', POLICY_COMMIT_LEVEL_ALL D)]),
      (''operate'', [(''total_timeout'', PInt 1000), (''max_retries'', PInt 0), (''key'', POLICY_KEY_SEND D),
                     (''commit_level'', POLICY_COMMIT_LEVEL_ALL D)]),
      (''remove'', [(''total_timeout'', PInt 1000), (''max_retries'', PInt 0), (''key'', POLICY_KEY_SEND D),
                    (''commit_level'', POLICY_COMMIT_LEVEL_ALL D)]),
      (''query'', [(''total_timeout'', PInt 10000), (''max_retries'', PInt 2)]),
      (''batch'', [(''total_timeout'', PInt 1000), (''max_retries'', PInt 2)])]"

text \<open>\<open>merged.setdefault(key, {}).update(overrides)\<close> for every class of the override.\<close>

fun merge_loop :: "policies \<Rightarrow> policies \<Rightarrow> policies" where
  "merge_loop merged [] = merged"
| "merge_loop merged ((key, overrides) # r) =
     merge_loop (dset key (dupdate (dget merged key []) overrides) merged) r"

definition merge_policies :: "policies \<Rightarrow> policies \<Rightarrow> policies" where
  "merge_policies base override = merge_loop (map (\<lambda>(k, v). (k, v)) base) override"

definition hosts_val :: "(string \<times> int) list \<Rightarrow> pyval" where
  "hosts_val hs = PList (map (\<lambda>(h, p). PList [PStr h, PInt p]) hs)"

definition policies_val :: "policies \<Rightarrow> pyval" where
  "policies_val ps = PDict (map (\<lambda>(k, d). (k, PDict d)) ps)"

definition or_empty :: "('k, 'v) pydict option \<Rightarrow> ('k, 'v) pydict" where
  "or_empty x = (case x of None \<Rightarrow> [] | Some d \<Rightarrow> d)"

definition client_config ::
  "('c, 's) driver \<Rightarrow> aerospike_uri \<Rightarrow> policies option \<Rightarrow> dict option \<Rightarrow> int option \<Rightarrow> dict option \<Rightarrow> dict" where
  "client_config D uri policies tls_config auth_mode extra_config =
     (let config =
        [(''hosts'', hosts_val (uri_hosts uri)),
         (''policies'', policies_val (merge_policies (default_policies D) (or_empty policies))),
         (''max_error_rate'', PInt 100), (''error_rate_window'', PInt 1)];
          tls_config = or_empty tls_config;
          config = (if uri_tls uri \<or> tls_config \<noteq> []
            then dset ''tls'' (PDict (if tls_config \<noteq> [] then tls_config else [(''enable'', PBool True)])) config else config);
          config = (case auth_mode of None \<Rightarrow> config | Some m \<Rightarrow> dset ''auth_mode'' (PInt m) config)
      in if or_empty extra_config \<noteq> [] then dupdate config (or_empty extra_config) else config)"

definition credentials :: "aerospike_uri \<Rightarrow> (string \<times> string) option" where
  "credentials uri = (case (uri_username uri, uri_password uri) of
       (Some u, Some p) \<Rightarrow> if u \<noteq> [] \<and> p \<noteq> [] then Some (u, p) else None
     | _ \<Rightarrow> None)"

definition make_client ::
  "('c, 's) driver \<Rightarrow> aerospike_uri \<Rightarrow> policies option \<Rightarrow> dict option \<Rightarrow> int option \<Rightarrow> dict option
     \<Rightarrow> 's \<Rightarrow> 'c exc \<times> 's" where
  "make_client D uri policies tls_config auth_mode extra_config =
     bindE (new_client D (client_config D uri policies tls_config auth_mode extra_config)) (\<lambda>client.
     thenE (connect D client (credentials uri))
     (retE client))"

definition close_client :: "('c, 's) driver \<Rightarrow> 'c \<Rightarrow> 's \<Rightarrow> unit exc \<times> 's" where
  "close_client D client = catchE (close D client) (\<lambda>_. True) (\<lambda>_. retE ())"

section \<open>Lemmas\<close>

lemma map_of_dict_rev: "distinct (map fst d) \<Longrightarrow> map_of (rev d) k = map_of d k"
  by (simp add: map_of_rev_distinct)

lemma dget_Cons: "dget ((k, d) # r) c v = (if k = c then d else dget r c v)"
  by (simp add: dget_def)

text \<open>A class that is overridden twice does not occur in a dictionary; each option of it comes
  from the override where that has it, and from the base otherwise.\<close>

definition wf_policies :: "policies \<Rightarrow> bool" where
  "wf_policies ps \<longleftrightarrow> distinct (map fst ps) \<and> (\<forall>(k, d) \<in> set ps. distinct (map fst d))"

lemma merge_loop_other: "c \<notin> fst ` set ov \<Longrightarrow> dget (merge_loop m ov) c [] = dget m c []"
  by (induction m ov rule: merge_loop.induct) auto

lemma merge_loop_lookup:
  assumes "wf_policies ov"
  shows "map_of (dget (merge_loop m ov) c []) opt =
    (case map_of (dget ov c []) opt of Some v \<Rightarrow> Some v | None \<Rightarrow> map_of (dget m c []) opt)"
  using assms
proof (induction m ov rule: merge_loop.induct)
  case (1 m)
  then show ?case by (simp add: dget_def)
next
  case (2 m k d r)
  then have k: "k \<notin> fst ` set r" "distinct (map fst d)" "wf_policies r" by (auto simp: wf_policies_def)
  show ?case
  proof (cases "k = c")
    case True
    with k merge_loop_other[of k r] show ?thesis
      by (simp add: dget_Cons map_of_dict_rev map_add_def)
  next
    case False
    with 2 k show ?thesis by (simp add: dget_Cons split: option.split)
  qed
qed

text \<open>The entries of the configuration, before \<open>extra_config\<close>.\<close>

definition documented_entry ::
  "('c, 's) driver \<Rightarrow> aerospike_uri \<Rightarrow> policies \<Rightarrow> dict \<Rightarrow> int option \<Rightarrow> string \<Rightarrow> pyval option" where
  "documented_entry D uri ps tls_config auth_mode key =
     (if key = ''hosts'' then Some (hosts_val (uri_hosts uri))
      else if key = ''policies'' then Some (policies_val (merge_policies (default_policies D) ps))
      else if key = ''max_error_rate'' then Some (PInt 100)
      else if key = ''error_rate_window'' then Some (PInt 1)
      else if key = ''tls'' then
        (if tls_config \<noteq> [] then Some (PDict tls_config)
         else if uri_tls uri then Some (PDict [(''enable'', PBool True)]) else None)
      else if key = ''auth_mode'' then map_option PInt auth_mode
      else None)"

lemma client_config_lookup:
  assumes "distinct (map fst (or_empty extra))"
  shows "map_of (client_config D uri ps tls auth extra) key =
    (case map_of (or_empty extra) key of Some v \<Rightarrow> Some v
     | None \<Rightarrow> documented_entry D uri (or_empty ps) (or_empty tls) auth key)"
proof -
  have extra: "map_of (if e \<noteq> [] then dupdate c e else c) key =
      (case map_of e key of Some v \<Rightarrow> Some v | None \<Rightarrow> map_of c key)"
    if "distinct (map fst e)" for c e :: dict
    using that by (auto simp: map_add_def map_of_rev_distinct split: option.splits)
  show ?thesis
    unfolding client_config_def Let_def extra[OF assms]
    by (intro option.case_cong refl) (cases auth; simp add: documented_entry_def del: map_of_eq_Some_iff)
qed

lemma credentials_cases:
  "credentials uri = (if uri_username uri \<in> {None, Some []} \<or> uri_password uri \<in> {None, Some []} then None
     else Some (the (uri_username uri), the (uri_password uri)))"
  by (auto simp: credentials_def split: option.splits)

lemma make_client_run:
  "make_client D uri ps tls auth extra s =
     (case new_client D (client_config D uri ps tls auth extra) s of
        (Inl e, s1) \<Rightarrow> (Inl e, s1)
      | (Inr c, s1) \<Rightarrow>
          (case connect D c (credentials uri) s1 of
             (Inl e, s2) \<Rightarrow> (Inl e, s2)
           | (Inr _, s2) \<Rightarrow> (Inr c, s2)))"
  by (simp add: make_client_def bindE_def thenE_def retE_def split: prod.split sum.split)

section \<open>Properties\<close>

text \<open>
  C38. The client is configured and connected as documented. A policy option comes from the
  caller's override where it has one and from the defaults otherwise, so one timeout can be
  changed without repeating the rest. Every entry of \<open>extra_config\<close> wins; below it stand the
  seeds of the URI, the merged policies, the error-rate window, the TLS settings (the caller's,
  or the minimal ones when only the URI asks for TLS, or none) and the authentication mode. The
  credentials are passed only if user name and password are both non-empty, a client is
  connected once, the exception of a failed construction or connection escapes, and closing
  never raises.
\<close>

theorem client_connection:
  fixes D :: "('c, 's) driver"
  assumes "wf_policies (or_empty ps)" "distinct (map fst (or_empty extra))"
  shows "map_of (dget (merge_policies (default_policies D) (or_empty ps)) cls []) opt =
      (case map_of (dget (or_empty ps) cls []) opt of
         Some v \<Rightarrow> Some v | None \<Rightarrow> map_of (dget (default_policies D) cls []) opt)
    \<and> map_of (client_config D uri ps tls auth extra) key =
      (case map_of (or_empty extra) key of Some v \<Rightarrow> Some v
       | None \<Rightarrow> documented_entry D uri (or_empty ps) (or_empty tls) auth key)
    \<and> make_client D uri ps tls auth extra s =
      (case new_client D (client_config D uri ps tls auth extra) s of
         (Inl e, s1) \<Rightarrow> (Inl e, s1)
       | (Inr c, s1) \<Rightarrow>
           (case connect D c
              (if uri_username uri \<in> {None, Some []} \<or> uri_password uri \<in> {None, Some []} then None
               else Some (the (uri_username uri), the (uri_password uri))) s1 of
              (Inl e, s2) \<Rightarrow> (Inl e, s2)
            | (Inr _, s2) \<Rightarrow> (Inr c, s2)))
    \<and> fst (close_client D client s) = Inr ()"
proof (intro conjI)
  show "map_of (dget (merge_policies (default_policies D) (or_empty ps)) cls []) opt =
      (case map_of (dget (or_empty ps) cls []) opt of
         Some v \<Rightarrow> Some v | None \<Rightarrow> map_of (dget (default_policies D) cls []) opt)"
    by (simp add: merge_policies_def merge_loop_lookup[OF assms(1)])
  show "fst (close_client D client s) = Inr ()"
    by (simp add: close_client_def catchE_def retE_def split: prod.split sum.split)
qed (rule client_config_lookup[OF assms(2)], rule make_client_run[unfolded credentials_cases])

text \<open>A client that records how it was connected, for the witness.\<close>

definition recording_driver :: "(dict, (string \<times> string) option list) driver" where
  "recording_driver =
     \<lparr>POLICY_KEY_SEND = PInt 1, POLICY_COMMIT_LEVEL_ALL = PInt 0, INDEX_STRING = PInt 0, INDEX_NUMERIC = PInt 1,
      new_client = (\<lambda>cfg s. (Inr cfg, s)), connect = (\<lambda>c cred s. (Inr (), cred # s)),
      close = (\<lambda>c s. (Inl (AE TimeoutError), s)),
      index_single_value_create = (\<lambda>c ns st b k n s. (Inr (), s))\<rparr>"

definition sample_uri :: aerospike_uri where
  "sample_uri = \<lparr>uri_scheme = ''aerospike'', uri_hosts = [(''h'', 3000)], uri_namespace = ''n'',
     uri_username = Some ''me'', uri_password = Some [], uri_set_prefix = ''adk_'', uri_tls = True, uri_extras = []\<rparr>"

theorem client_connection_witness:
  "\<exists>cfg. make_client recording_driver sample_uri (Some [(''read'', [(''total_timeout'', PInt 50)])]) None None
        (Some [(''max_error_rate'', PInt 7)]) [] = (Inr cfg, [None])
     \<and> map_of cfg ''tls'' = Some (PDict [(''enable'', PBool True)]) \<and> map_of cfg ''max_error_rate'' = Some (PInt 7)
     \<and> map_of cfg ''auth_mode'' = None"
proof -
  let ?ps = "Some [(''read'', [(''total_timeout'', PInt 50)])]" and ?ex = "Some [(''max_error_rate'', PInt 7)]"
  have "wf_policies (or_empty ?ps)" "distinct (map fst (or_empty ?ex))"
    by (simp_all add: wf_policies_def or_empty_def)
  note c = client_connection[OF this, THEN conjunct2, THEN conjunct1, of recording_driver sample_uri None None]
    and m = client_connection[OF this, THEN conjunct2, THEN conjunct2, THEN conjunct1, of recording_driver sample_uri None None]
  show ?thesis
    using c[of "''tls''"] c[of "''max_error_rate''"] c[of "''auth_mode''"] m[of "[]"]
    by (simp add: recording_driver_def sample_uri_def or_empty_def documented_entry_def)
qed

end
