(* ===== verification/Service_Setup.thy ===== *)
theory Service_Setup
  imports Client Schema
begin

text \<open>
  \<^verbatim>\<open>_internal/indexes.py\<close>, the constructors and \<open>from_uri\<close> of the three services, and
  \<^verbatim>\<open>registry.py\<close>. A service object is a record of its attributes. What the index commands
  of the client promise is the locale \<open>index_admin\<close>; \<open>ready_cluster\<close> adds that nothing
  fails. ADK's registry is an argument: its three \<open>register\<close> methods over some state.
\<close>

section \<open>Secondary indexes\<close>

definition index_kind :: "('c, 's) driver \<Rightarrow> string \<Rightarrow> pyval exc" where
  "index_kind D kind =
     (if kind = ''string'' then Inr (INDEX_STRING D)
      else if kind = ''integer'' then Inr (INDEX_NUMERIC D)
      else Inl (ValueError ''unsupported index kind''))"

text \<open>One step of the loops: the kind is looked up inside the \<open>try\<close>, and only
  \<open>IndexFoundError\<close> is swallowed.\<close>

definition create_index ::
  "('c, 's) driver \<Rightarrow> 'c \<Rightarrow> schema \<Rightarrow> string \<times> bin_name \<times> string \<times> string \<Rightarrow> 's \<Rightarrow> unit exc \<times> 's" where
  "create_index D client S spec =
     (case spec of (set_name, bin_name, kind, idx_name) \<Rightarrow>
        catchE
          (bindE (liftE (index_kind D kind)) (\<lambda>k.
           index_single_value_create D client (namespace S) set_name (bin_wire bin_name) k idx_name))
          (is_ae IndexFoundError) (\<lambda>_. retE ()))"

definition session_indexes :: "schema \<Rightarrow> (string \<times> bin_name \<times> string \<times> string) list" where
  "session_indexes S =
     [(sessions_set S, USER_ID, ''string'', ''idx_'' @ set_prefix S @ ''sess_uid''),
      (sessions_set S, APP_NAME, ''string'', ''idx_'' @ set_prefix S @ ''sess_app'')]"

definition ensure_session_indexes :: "('c, 's) driver \<Rightarrow> 'c \<Rightarrow> schema \<Rightarrow> 's \<Rightarrow> unit exc \<times> 's" where
  "ensure_session_indexes D client S = forE (create_index D client S) (session_indexes S)"

definition artifact_indexes :: "schema \<Rightarrow> (string \<times> bin_name \<times> string \<times> string) list" where
  "artifact_indexes S =
     [(artifacts_set S, SCOPE_TUPLE, ''string'', ''idx_'' @ set_prefix S @ ''art_aus''),
      (artifacts_set S, FILENAME, ''string'', ''idx_'' @ set_prefix S @ ''art_fname'')]"

definition ensure_artifact_indexes :: "('c, 's) driver \<Rightarrow> 'c \<Rightarrow> schema \<Rightarrow> 's \<Rightarrow> unit exc \<times> 's" where
  "ensure_artifact_indexes D client S = forE (create_index D client S) (artifact_indexes S)"

definition ensure_memory_indexes :: "('c, 's) driver \<Rightarrow> 'c \<Rightarrow> schema \<Rightarrow> 's \<Rightarrow> unit exc \<times> 's" where
  "ensure_memory_indexes D client S =
     catchE
       (index_single_value_create D client (namespace S) (memory_set S) (bin_wire SCOPE_TUPLE) (INDEX_STRING D)
          (''idx_'' @ set_prefix S @ ''mem_aus''))
       (is_ae IndexFoundError) (\<lambda>_. retE ())"

section \<open>Constructors\<close>

record 'c service =
  sv_client :: 'c
  sv_schema :: schema

record 'c session_service = "'c service" +
  sv_cur_cache :: "string \<Rightarrow> int option"

record 'c memory_service = "'c service" +
  sv_top_k :: int

definition session_init ::
  "('c, 's) driver \<Rightarrow> 'c \<Rightarrow> string \<Rightarrow> string \<Rightarrow> bool \<Rightarrow> 's \<Rightarrow> 'c session_service exc \<times> 's" where
  "session_init D client ns sp ensure_indexes =
     (let S = \<lparr>namespace = ns, set_prefix = sp\<rparr>
      in thenE (whenE ensure_indexes (ensure_session_indexes D client S))
           (retE \<lparr>sv_client = client, sv_schema = S, sv_cur_cache = Map.empty\<rparr>))"

definition artifact_init ::
  "('c, 's) driver \<Rightarrow> 'c \<Rightarrow> string \<Rightarrow> string \<Rightarrow> bool \<Rightarrow> 's \<Rightarrow> 'c service exc \<times> 's" where
  "artifact_init D client ns sp ensure_indexes =
     (let S = \<lparr>namespace = ns, set_prefix = sp\<rparr>
      in thenE (whenE ensure_indexes (ensure_artifact_indexes D client S))
           (retE \<lparr>sv_client = client, sv_schema = S\<rparr>))"

definition memory_init ::
  "('c, 's) driver \<Rightarrow> 'c \<Rightarrow> string \<Rightarrow> string \<Rightarrow> int \<Rightarrow> bool \<Rightarrow> 's \<Rightarrow> 'c memory_service exc \<times> 's" where
  "memory_init D client ns sp top_k ensure_indexes =
     (let S = \<lparr>namespace = ns, set_prefix = sp\<rparr>
      in thenE (whenE ensure_indexes (ensure_memory_indexes D client S))
           (retE \<lparr>sv_client = client, sv_schema = S, sv_top_k = top_k\<rparr>))"

definition session_from_uri ::
  "('c, 's) driver \<Rightarrow> (string \<Rightarrow> bool) \<Rightarrow> string \<Rightarrow> 's \<Rightarrow> 'c session_service exc \<times> 's" where
  "session_from_uri D net_ok uri =
     bindE (liftE (parse net_ok uri)) (\<lambda>parsed.
     bindE (make_client D parsed None None None None) (\<lambda>client.
     session_init D client (uri_namespace parsed) (uri_set_prefix parsed) True))"

definition artifact_from_uri ::
  "('c, 's) driver \<Rightarrow> (string \<Rightarrow> bool) \<Rightarrow> string \<Rightarrow> 's \<Rightarrow> 'c service exc \<times> 's" where
  "artifact_from_uri D net_ok uri =
     bindE (liftE (parse net_ok uri)) (\<lambda>parsed.
     bindE (make_client D parsed None None None None) (\<lambda>client.
     artifact_init D client (uri_namespace parsed) (uri_set_prefix parsed) True))"

definition memory_from_uri ::
  "('c, 's) driver \<Rightarrow> (string \<Rightarrow> bool) \<Rightarrow> string \<Rightarrow> int \<Rightarrow> 's \<Rightarrow> 'c memory_service exc \<times> 's" where
  "memory_from_uri D net_ok uri top_k =
     bindE (liftE (parse net_ok uri)) (\<lambda>parsed.
     if uri_scheme parsed \<noteq> ''aerospike''
     then raiseE (ValueError ''AerospikeMemoryService requires aerospike:// scheme'')
     else bindE (make_client D parsed None None None None) (\<lambda>client.
     memory_init D client (uri_namespace parsed) (uri_set_prefix parsed) top_k True))"

definition service_close :: "('c, 's) driver \<Rightarrow> ('c, 'm) service_scheme \<Rightarrow> 's \<Rightarrow> unit exc \<times> 's" where
  "service_close D self = close_client D (sv_client self)"

section \<open>Registration\<close>

type_synonym ('a, 's) factory = "string \<Rightarrow> 's \<Rightarrow> 'a exc \<times> 's"

record ('c, 's, 'r) service_registry =
  register_session_service :: "string \<Rightarrow> ('c session_service, 's) factory \<Rightarrow> 'r \<Rightarrow> unit exc \<times> 'r"
  register_artifact_service :: "string \<Rightarrow> ('c service, 's) factory \<Rightarrow> 'r \<Rightarrow> unit exc \<times> 'r"
  register_memory_service :: "string \<Rightarrow> ('c memory_service, 's) factory \<Rightarrow> 'r \<Rightarrow> unit exc \<times> 'r"

record 'r module_state =
  registered :: bool
  adk_registry :: 'r

definition on_registry :: "('r \<Rightarrow> unit exc \<times> 'r) \<Rightarrow> 'r module_state \<Rightarrow> unit exc \<times> 'r module_state" where
  "on_registry m w = (case m (adk_registry w) of (r, g) \<Rightarrow> (r, w\<lparr>adk_registry := g\<rparr>))"

definition register ::
  "('c, 's) driver \<Rightarrow> (string \<Rightarrow> bool) \<Rightarrow> ('c, 's, 'r) service_registry \<Rightarrow> int
     \<Rightarrow> 'r module_state \<Rightarrow> unit exc \<times> 'r module_state" where
  "register D net_ok G memory_top_k =
     bindE (getsE registered) (\<lambda>done_before.
     if done_before then retE ()
     else thenE (on_registry (register_session_service G ''aerospike'' (session_from_uri D net_ok)))
         (thenE (on_registry (register_artifact_service G ''aerospike'' (artifact_from_uri D net_ok)))
         (thenE (on_registry (register_memory_service G ''aerospike'' (\<lambda>uri. memory_from_uri D net_ok uri memory_top_k)))
         (modifyE (\<lambda>w. w\<lparr>registered := True\<rparr>)))))"

section \<open>The contract of the index commands\<close>

type_synonym index = "string \<times> string \<times> string \<times> pyval \<times> string"

locale index_admin =
  fixes D :: "('c, 's) driver" and indexes :: "'s \<Rightarrow> index set"
  assumes create_law:
      "index_single_value_create D c ns st b k n s = (r, s') \<Longrightarrow>
       (indexes s' = indexes s \<or> indexes s' = insert (ns, st, b, k, n) (indexes s))
       \<and> (r = Inr () \<or> r = Inl (AE IndexFoundError) \<longrightarrow> (ns, st, b, k, n) \<in> indexes s')"
    and client_law: "new_client D cfg s = (rc, s') \<Longrightarrow> indexes s' = indexes s"
    and connect_law: "connect D c cred s = (r, s') \<Longrightarrow> indexes s' = indexes s"

locale ready_cluster = index_admin +
  assumes create_ready:
      "index_single_value_create D c ns st b k n s = (r, s') \<Longrightarrow> r = Inr () \<or> r = Inl (AE IndexFoundError)"
    and client_ready: "new_client D cfg s = (rc, s') \<Longrightarrow> \<exists>c. rc = Inr c"
    and connect_ready: "connect D c cred s = (r, s') \<Longrightarrow> r = Inr ()"

text \<open>The indexes that a list of the code stands for.\<close>

definition resolved :: "('c, 's) driver \<Rightarrow> schema \<Rightarrow> (string \<times> bin_name \<times> string \<times> string) list \<Rightarrow> index set" where
  "resolved D S specs = {(namespace S, st, bin_wire b, INDEX_STRING D, n) | st b kd n. (st, b, kd, n) \<in> set specs}"

context index_admin
begin

lemma wp_create_index:
  assumes "kd = ''string''"
  shows "wp (create_index D c S (st, b, kd, n))
     (\<lambda>r s'. (indexes s' = indexes s \<or> indexes s' = insert (namespace S, st, bin_wire b, INDEX_STRING D, n) (indexes s))
       \<and> (r = Inr () \<longrightarrow> (namespace S, st, bin_wire b, INDEX_STRING D, n) \<in> indexes s')) s"
proof -
  obtain r s' where run: "index_single_value_create D c (namespace S) st (bin_wire b) (INDEX_STRING D) n s = (r, s')"
    by fastforce
  have "wp (index_single_value_create D c (namespace S) st (bin_wire b) (INDEX_STRING D) n) Q s = Q r s'" for Q
    by (simp add: wp_def run)
  with create_law[OF run] show ?thesis
    by (cases r) (auto simp: create_index_def index_kind_def assms wp_simps is_ae_def)
qed

text \<open>A loop over a list of index descriptions creates some of them, and all when it returns.\<close>

lemma wp_create_indexes:
  assumes "\<forall>(st, b, kd, n) \<in> set specs. kd = ''string''"
  shows "wp (forE (create_index D c S) specs)
     (\<lambda>r s'. indexes s \<subseteq> indexes s' \<and> indexes s' \<subseteq> indexes s \<union> resolved D S specs
       \<and> (r = Inr () \<longrightarrow> resolved D S specs \<subseteq> indexes s')) s"
  using assms
proof (induction specs arbitrary: s)
  case Nil
  then show ?case by (simp add: wp_simps resolved_def)
next
  case (Cons x specs)
  obtain st b kd n where x: "x = (st, b, kd, n)" by (cases x)
  let ?i = "(namespace S, st, bin_wire b, INDEX_STRING D, n)"
  have r: "resolved D S (x # specs) = insert ?i (resolved D S specs)" by (auto simp: resolved_def x)
  have kd: "kd = ''string''" using Cons.prems x by simp
  show ?case
    unfolding wp_forE_Cons x[symmetric] r
  proof (rule wp_mono[OF wp_create_index[OF kd, of c S st b n s, folded x]], goal_cases)
    case (1 r1 s1)
    show ?case
    proof (cases r1)
      case (Inl e)
      with 1 show ?thesis by auto
    next
      case (Inr u)
      with 1 have i: "?i \<in> indexes s1" "indexes s \<subseteq> indexes s1" "indexes s1 \<subseteq> insert ?i (indexes s)" by auto
      have "wp (forE (create_index D c S) specs)
        (\<lambda>r s'. indexes s1 \<subseteq> indexes s' \<and> indexes s' \<subseteq> indexes s1 \<union> resolved D S specs
         \<and> (r = Inr () \<longrightarrow> resolved D S specs \<subseteq> indexes s')) s1"
        using Cons by simp
      then have "wp (forE (create_index D c S) specs)
        (\<lambda>r s'. indexes s \<subseteq> indexes s' \<and> indexes s' \<subseteq> indexes s \<union> insert ?i (resolved D S specs)
         \<and> (r = Inr () \<longrightarrow> insert ?i (resolved D S specs) \<subseteq> indexes s')) s1"
        by (rule wp_mono) (use i in auto)
      with Inr show ?thesis by simp
    qed
  qed
qed

lemma wp_make_client:
  "wp (make_client D u ps tls auth extra) (\<lambda>r s'. indexes s' = indexes s) s"
proof -
  obtain r1 s1 where n: "new_client D (client_config D u ps tls auth extra) s = (r1, s1)" by fastforce
  show ?thesis
  proof (cases r1)
    case (Inl e)
    with n client_law[OF n] show ?thesis by (simp add: wp_def make_client_run)
  next
    case (Inr c)
    obtain r2 s2 where k: "connect D c (credentials u) s1 = (r2, s2)" by fastforce
    with n Inr client_law[OF n] connect_law[OF k] show ?thesis
      by (simp add: wp_def make_client_run split: sum.split)
  qed
qed

end

context ready_cluster
begin

lemma wp_create_index_ready: "wp (create_index D c S (st, b, ''string'', n)) (\<lambda>r s'. r = Inr ()) s"
proof -
  obtain r s' where run: "index_single_value_create D c (namespace S) st (bin_wire b) (INDEX_STRING D) n s = (r, s')"
    by fastforce
  have "wp (index_single_value_create D c (namespace S) st (bin_wire b) (INDEX_STRING D) n) Q s = Q r s'" for Q
    by (simp add: wp_def run)
  with create_ready[OF run] show ?thesis
    by (cases r) (auto simp: create_index_def index_kind_def wp_simps is_ae_def)
qed

text \<open>When nothing else fails, exactly the listed indexes are added, however often this is done.\<close>

lemma wp_create_indexes_ready:
  assumes "\<forall>(st, b, kd, n) \<in> set specs. kd = ''string''"
  shows "wp (forE (create_index D c S) specs)
     (\<lambda>r s'. r = Inr () \<and> indexes s' = indexes s \<union> resolved D S specs) s"
proof -
  have "wp (forE (create_index D c S) specs) (\<lambda>r s'. r = Inr () \<and> True) s"
  proof (rule wp_forE_invariant)
    fix x w
    assume "x \<in> set specs"
    then obtain st b n where x: "x = (st, b, ''string'', n)" using assms by fastforce
    show "wp (create_index D c S x) (\<lambda>r w'. r = Inr () \<and> True) w"
      unfolding x by (rule wp_mono[OF wp_create_index_ready]) (rule conjI, assumption, rule TrueI)
  qed (rule TrueI)
  from wp_conjI[OF this wp_create_indexes[OF assms, of c S s]] show ?thesis
    by (rule wp_mono) (simp add: set_eq_subset)
qed

lemma wp_memory_indexes:
  "wp (ensure_memory_indexes D c S)
     (\<lambda>r s'. r = Inr () \<and> indexes s' = indexes s
       \<union> resolved D S [(memory_set S, SCOPE_TUPLE, ''string'', ''idx_'' @ set_prefix S @ ''mem_aus'')]) s"
proof -
  have "ensure_memory_indexes D c S =
      forE (create_index D c S) [(memory_set S, SCOPE_TUPLE, ''string'', ''idx_'' @ set_prefix S @ ''mem_aus'')]"
    by (simp add: ensure_memory_indexes_def create_index_def index_kind_def fun_eq_iff
        thenE_def bindE_def catchE_def liftE_def retE_def split: prod.split sum.split)
  then show ?thesis by (simp only:) (rule wp_create_indexes_ready, simp)
qed

lemma wp_make_client_ready:
  "wp (make_client D u ps tls auth extra) (\<lambda>r s'. (\<exists>c. r = Inr c) \<and> indexes s' = indexes s) s"
proof -
  obtain r1 s1 where n: "new_client D (client_config D u ps tls auth extra) s = (r1, s1)" by fastforce
  obtain c where c: "r1 = Inr c" using client_ready[OF n] by blast
  obtain r2 s2 where k: "connect D c (credentials u) s1 = (r2, s2)" by fastforce
  have "wp (make_client D u ps tls auth extra) (\<lambda>r s'. \<exists>c. r = Inr c) s"
    using n c k connect_ready[OF k] by (simp add: wp_def make_client_run)
  from wp_conjI[OF this wp_make_client] show ?thesis .
qed

text \<open>The three constructors behind a URI that was accepted.\<close>

lemma wp_session_from_uri:
  assumes "parse net_ok uri = Inr u"
    and S: "S = \<lparr>namespace = uri_namespace u, set_prefix = uri_set_prefix u\<rparr>"
  shows "wp (session_from_uri D net_ok uri)
    (\<lambda>r s'. (\<exists>c. r = Inr \<lparr>sv_client = c, sv_schema = S, sv_cur_cache = Map.empty\<rparr>)
       \<and> indexes s' = indexes s \<union> resolved D S (session_indexes S)) s"
  unfolding session_from_uri_def assms(1) wp_bindE wp_liftE sum.case
proof (rule wp_mono[OF wp_make_client_ready], elim conjE exE, goal_cases)
  case (1 r s1 c)
  show ?case
    unfolding 1(2) sum.case session_init_def Let_def ensure_session_indexes_def wp_thenE wp_whenE if_True S[symmetric]
    by (rule wp_mono[OF wp_create_indexes_ready]) (simp_all add: session_indexes_def wp_retE 1(1))
qed

lemma wp_artifact_from_uri:
  assumes "parse net_ok uri = Inr u"
    and S: "S = \<lparr>namespace = uri_namespace u, set_prefix = uri_set_prefix u\<rparr>"
  shows "wp (artifact_from_uri D net_ok uri)
    (\<lambda>r s'. (\<exists>c. r = Inr \<lparr>sv_client = c, sv_schema = S\<rparr>)
       \<and> indexes s' = indexes s \<union> resolved D S (artifact_indexes S)) s"
  unfolding artifact_from_uri_def assms(1) wp_bindE wp_liftE sum.case
proof (rule wp_mono[OF wp_make_client_ready], elim conjE exE, goal_cases)
  case (1 r s1 c)
  show ?case
    unfolding 1(2) sum.case artifact_init_def Let_def ensure_artifact_indexes_def wp_thenE wp_whenE if_True S[symmetric]
    by (rule wp_mono[OF wp_create_indexes_ready]) (simp_all add: artifact_indexes_def wp_retE 1(1))
qed

lemma wp_memory_from_uri:
  assumes "parse net_ok uri = Inr u"
    and S: "S = \<lparr>namespace = uri_namespace u, set_prefix = uri_set_prefix u\<rparr>"
  shows "wp (memory_from_uri D net_ok uri top_k)
    (\<lambda>r s'. (\<exists>c. r = Inr \<lparr>sv_client = c, sv_schema = S, sv_top_k = top_k\<rparr>)
       \<and> indexes s' = indexes s
           \<union> resolved D S [(memory_set S, SCOPE_TUPLE, ''string'', ''idx_'' @ set_prefix S @ ''mem_aus'')]) s"
  unfolding memory_from_uri_def assms(1) wp_bindE wp_liftE sum.case parse_scheme[OF assms(1)] simp_thms if_False
proof (rule wp_mono[OF wp_make_client_ready], elim conjE exE, goal_cases)
  case (1 r s1 c)
  show ?case
    unfolding 1(2) sum.case memory_init_def Let_def wp_thenE wp_whenE if_True S[symmetric]
    by (rule wp_mono[OF wp_memory_indexes]) (simp add: wp_retE 1(1))
qed

end

text \<open>A second registration finds the flag set.\<close>

lemma register_once:
  assumes "register D net_ok G k w = (Inr (), w')"
  shows "registered w' \<and> register D net_ok G k' w' = (Inr (), w')"
proof -
  have "registered w'"
    using assms by (auto simp: register_def bindE_def getsE_def thenE_def modifyE_def retE_def on_registry_def
        split: if_splits prod.splits sum.splits)
  then show ?thesis by (simp add: register_def bindE_def getsE_def retE_def)
qed

section \<open>A reference cluster\<close>

definition demo_create ::
  "dict \<Rightarrow> string \<Rightarrow> string \<Rightarrow> string \<Rightarrow> pyval \<Rightarrow> string \<Rightarrow> index list \<Rightarrow> unit exc \<times> index list" where
  "demo_create c ns st b k n s =
     (if (ns, st, b, k, n) \<in> set s then (Inl (AE IndexFoundError), s) else (Inr (), (ns, st, b, k, n) # s))"

definition demo_driver :: "(dict, index list) driver" where
  "demo_driver =
     \<lparr>POLICY_KEY_SEND = PInt 1, POLICY_COMMIT_LEVEL_ALL = PInt 0, INDEX_STRING = PInt 0, INDEX_NUMERIC = PInt 1,
      new_client = (\<lambda>cfg s. (Inr cfg, s)), connect = (\<lambda>c cred s. (Inr (), s)), close = (\<lambda>c s. (Inr (), s)),
      index_single_value_create = demo_create\<rparr>"

interpretation demo: ready_cluster demo_driver set
  by unfold_locales (auto simp: demo_driver_def demo_create_def split: if_splits)

definition demo_registry :: "(dict, index list, string list) service_registry" where
  "demo_registry =
     \<lparr>register_session_service = (\<lambda>scheme f g. (Inr (), (''session '' @ scheme) # g)),
      register_artifact_service = (\<lambda>scheme f g. (Inr (), (''artifact '' @ scheme) # g)),
      register_memory_service = (\<lambda>scheme f g. (Inr (), (''memory '' @ scheme) # g))\<rparr>"

section \<open>Properties\<close>

text \<open>
  C39. A URI opens a service. On a cluster that fails no command, every accepted URI gives each
  of the three services a connected client and the schema of the URI's namespace and prefix
  (an empty segment cache, the given \<open>top_k\<close>), and the service's own secondary indexes exist
  afterwards and no others were added, so doing it again, or in a second process, adds none and
  does not fail. A URI that \<open>parse\<close> refuses raises the parser's exception before anything is
  sent. And registering with ADK's registry a second time does nothing.
\<close>

theorem services_from_uri:
  fixes D :: "('c, 's) driver"
  assumes "ready_cluster D indexes" "parse net_ok uri = Inr u"
    and S: "S = \<lparr>namespace = uri_namespace u, set_prefix = uri_set_prefix u\<rparr>"
    and bad: "parse net_ok bad = Inl e" and "register D net_ok G k w = (Inr (), w')"
  shows "(\<exists>c s'. session_from_uri D net_ok uri s
          = (Inr \<lparr>sv_client = c, sv_schema = S, sv_cur_cache = Map.empty\<rparr>, s')
        \<and> indexes s' = indexes s \<union> resolved D S (session_indexes S))
    \<and> (\<exists>c s'. artifact_from_uri D net_ok uri s = (Inr \<lparr>sv_client = c, sv_schema = S\<rparr>, s')
        \<and> indexes s' = indexes s \<union> resolved D S (artifact_indexes S))
    \<and> (\<exists>c s'. memory_from_uri D net_ok uri top_k s = (Inr \<lparr>sv_client = c, sv_schema = S, sv_top_k = top_k\<rparr>, s')
        \<and> indexes s' = indexes s
            \<union> resolved D S [(memory_set S, SCOPE_TUPLE, ''string'', ''idx_'' @ set_prefix S @ ''mem_aus'')])
    \<and> session_from_uri D net_ok bad s = (Inl e, s) \<and> artifact_from_uri D net_ok bad s = (Inl e, s)
    \<and> memory_from_uri D net_ok bad top_k s = (Inl e, s)
    \<and> registered w' \<and> register D net_ok G k' w' = (Inr (), w')"
proof (intro conjI)
  show "\<exists>c s'. session_from_uri D net_ok uri s = (Inr \<lparr>sv_client = c, sv_schema = S, sv_cur_cache = Map.empty\<rparr>, s')
      \<and> indexes s' = indexes s \<union> resolved D S (session_indexes S)"
    using wp_exI[OF ready_cluster.wp_session_from_uri[OF assms(1-3)]] by blast
  show "\<exists>c s'. artifact_from_uri D net_ok uri s = (Inr \<lparr>sv_client = c, sv_schema = S\<rparr>, s')
      \<and> indexes s' = indexes s \<union> resolved D S (artifact_indexes S)"
    using wp_exI[OF ready_cluster.wp_artifact_from_uri[OF assms(1-3)]] by blast
  show "\<exists>c s'. memory_from_uri D net_ok uri top_k s = (Inr \<lparr>sv_client = c, sv_schema = S, sv_top_k = top_k\<rparr>, s')
      \<and> indexes s' = indexes s
          \<union> resolved D S [(memory_set S, SCOPE_TUPLE, ''string'', ''idx_'' @ set_prefix S @ ''mem_aus'')]"
    using wp_exI[OF ready_cluster.wp_memory_from_uri[OF assms(1-3)]] by blast
  show "session_from_uri D net_ok bad s = (Inl e, s)" "artifact_from_uri D net_ok bad s = (Inl e, s)"
    "memory_from_uri D net_ok bad top_k s = (Inl e, s)"
    by (simp_all add: session_from_uri_def artifact_from_uri_def memory_from_uri_def bindE_def liftE_def bad)
qed (use register_once[OF assms(5)] in auto)

theorem services_from_uri_witness:
  "\<exists>c s'. session_from_uri demo_driver (\<lambda>_. True) ''aerospike://h/n?set_prefix=p_'' []
      = (Inr \<lparr>sv_client = c, sv_schema = \<lparr>namespace = ''n'', set_prefix = ''p_''\<rparr>, sv_cur_cache = Map.empty\<rparr>, s')
    \<and> set s' = {(''n'', ''p_sessions'', ''uid'', PInt 0, ''idx_p_sess_uid''), (''n'', ''p_sessions'', ''app'', PInt 0, ''idx_p_sess_app'')}"
proof -
  let ?u = "\<lparr>uri_scheme = ''aerospike'', uri_hosts = [(''h'', 3000)], uri_namespace = ''n'',
         uri_username = None, uri_password = None, uri_set_prefix = ''p_'', uri_tls = False, uri_extras = []\<rparr>"
  let ?S = "\<lparr>namespace = uri_namespace ?u, set_prefix = uri_set_prefix ?u\<rparr>"
  have u: "parse (\<lambda>_. True) ''aerospike://h/n?set_prefix=p_'' = Inr ?u" by code_simp
  have e: "parse (\<lambda>_. True) ''redis://h/n'' = Inl (ValueError ''unsupported scheme'')" by code_simp
  have g: "register demo_driver (\<lambda>_. True) demo_registry 10 \<lparr>registered = False, adk_registry = []\<rparr>
     = (Inr (), \<lparr>registered = True, adk_registry = [''memory aerospike'', ''artifact aerospike'', ''session aerospike'']\<rparr>)"
    by (simp add: register_def demo_registry_def bindE_def thenE_def getsE_def on_registry_def modifyE_def)
  have i: "resolved demo_driver ?S (session_indexes ?S)
      = {(''n'', ''p_sessions'', ''uid'', PInt 0, ''idx_p_sess_uid''), (''n'', ''p_sessions'', ''app'', PInt 0, ''idx_p_sess_app'')}"
    by (auto simp: resolved_def session_indexes_def demo_driver_def sessions_set_def)
  show ?thesis
    using services_from_uri[OF demo.ready_cluster_axioms u refl e g, of "[]", THEN conjunct1, unfolded i] by simp
qed

end
