(* ===== verification/Concurrent_Appends.thy ===== *)
theory Concurrent_Appends
  imports Placement
begin

text \<open>
  Several processes append to one session at the same time. Between two requests of one
  writer any number of requests of others may run, so the writer is cut into its requests:
  \<open>writer_step\<close> is \<open>place_event\<close> with its helpers \<open>segment_size\<close> and \<open>roll_over\<close> as a step
  relation over the store, one rule per outcome of a request, under the same faults as the
  sequential model. \<open>race_step\<close> lets any writer move. The invariant says that a rollover skips
  no segment and that no interleaving loses, duplicates or invents an event.
\<close>

section \<open>The writer as a state machine\<close>

text \<open>The segment it works on and the attempts it has left after this one.\<close>

datatype pc =
    Putting int nat
  | Sizing int nat
  | Bumping int nat
  | Reading int nat
  | Stored int
  | Gave_up exn

definition put_req :: "(bins \<Rightarrow> bool) \<Rightarrow> schema \<Rightarrow> string \<Rightarrow> string \<Rightarrow> string \<Rightarrow> string \<Rightarrow> pyval \<Rightarrow> int
    \<Rightarrow> db \<Rightarrow> (ae_error + bins) \<times> db" where
  "put_req fits S a u i k v c = operate_db fits (segment_pk S a u i c) [MapPut EVENTS k v] None"

definition size_req :: "(bins \<Rightarrow> bool) \<Rightarrow> schema \<Rightarrow> string \<Rightarrow> string \<Rightarrow> string \<Rightarrow> int
    \<Rightarrow> db \<Rightarrow> (ae_error + bins) \<times> db" where
  "size_req fits S a u i c = operate_db fits (segment_pk S a u i c) [MapSize EVENTS] None"

definition bump_req :: "(bins \<Rightarrow> bool) \<Rightarrow> schema \<Rightarrow> string \<Rightarrow> string \<Rightarrow> string \<Rightarrow> int
    \<Rightarrow> db \<Rightarrow> (ae_error + bins) \<times> db" where
  "bump_req fits S a u i c = operate_db fits (session_pk S a u i) bump_ops (Some (CUR_SEGMENT, c))"

definition read_req :: "schema \<Rightarrow> string \<Rightarrow> string \<Rightarrow> string \<Rightarrow> db \<Rightarrow> (ae_error + bins) \<times> db" where
  "read_req S a u i d =
     (case d (session_pk S a u i) of None \<Rightarrow> (Inl RecordNotFound, d)
      | Some bs \<Rightarrow> (Inr (filter (\<lambda>(b, _). b \<in> set [CUR_SEGMENT]) bs), d))"

text \<open>\<open>_segment_size\<close> on the answer, and the end of \<open>_roll_over\<close> with the loop's next round.\<close>

definition size_of :: "bins exc \<Rightarrow> int exc" where
  "size_of r = (case r of
       Inl e \<Rightarrow> if e = AE RecordNotFound then Inr 0 else Inl e
     | Inr res \<Rightarrow> py_int (dget res EVENTS (PInt 0)))"

definition new_cur :: "int \<Rightarrow> bins exc \<Rightarrow> int exc" where
  "new_cur c r = ebind r (\<lambda>res. py_int (dget res CUR_SEGMENT (PInt (c + 1))))"

fun next_round :: "int exc \<Rightarrow> nat \<Rightarrow> pc" where
  "next_round (Inl e) n = Gave_up e"
| "next_round (Inr c) 0 = Gave_up (RuntimeError ''append did not converge after rollover retries'')"
| "next_round (Inr c) (Suc n) = Putting c n"

text \<open>A repeated request is a step that stays where it is.\<close>

inductive writer_step ::
  "(bins \<Rightarrow> bool) \<Rightarrow> schema \<Rightarrow> string \<Rightarrow> string \<Rightarrow> string \<Rightarrow> string \<Rightarrow> pyval \<Rightarrow> pc \<times> db \<Rightarrow> pc \<times> db \<Rightarrow> bool"
  for fits S a u i k v
where
  put_done: "attempt_ok (put_req fits S a u i k v c) d (Inr out) d' \<Longrightarrow>
    writer_step fits S a u i k v (Putting c n, d) (Stored c, d')"
| put_full: "attempt_ok (put_req fits S a u i k v c) d (Inl (AE RecordTooBig)) d' \<Longrightarrow>
    writer_step fits S a u i k v (Putting c n, d) (Sizing c n, d')"
| put_again: "attempt_ok (put_req fits S a u i k v c) d (Inl e) d' \<Longrightarrow> swallowed True 0 e \<Longrightarrow>
    writer_step fits S a u i k v (Putting c n, d) (Putting c n, d')"
| put_fails: "attempt_ok (put_req fits S a u i k v c) d (Inl e) d' \<Longrightarrow> e \<noteq> AE RecordTooBig \<Longrightarrow>
    writer_step fits S a u i k v (Putting c n, d) (Gave_up e, d')"
| size_some: "attempt_ok (size_req fits S a u i c) d r d' \<Longrightarrow> size_of r = Inr z \<Longrightarrow> z \<noteq> 0 \<Longrightarrow>
    writer_step fits S a u i k v (Sizing c n, d) (Bumping c n, d')"
| size_none: "attempt_ok (size_req fits S a u i c) d r d' \<Longrightarrow> size_of r = Inr 0 \<Longrightarrow>
    writer_step fits S a u i k v (Sizing c n, d) (Gave_up (AE RecordTooBig), d')"
| size_fails: "attempt_ok (size_req fits S a u i c) d r d' \<Longrightarrow> size_of r = Inl e \<Longrightarrow>
    writer_step fits S a u i k v (Sizing c n, d) (Gave_up e, d')"
| bump_done: "attempt_ok (bump_req fits S a u i c) d (Inr out) d' \<Longrightarrow>
    writer_step fits S a u i k v (Bumping c n, d) (next_round (new_cur c (Inr out)) n, d')"
| bump_lost: "attempt_ok (bump_req fits S a u i c) d (Inl (AE FilteredOut)) d' \<Longrightarrow>
    writer_step fits S a u i k v (Bumping c n, d) (Reading c n, d')"
| bump_again: "attempt_ok (bump_req fits S a u i c) d (Inl e) d' \<Longrightarrow> swallowed True 0 e \<Longrightarrow>
    writer_step fits S a u i k v (Bumping c n, d) (Bumping c n, d')"
| bump_fails: "attempt_ok (bump_req fits S a u i c) d (Inl e) d' \<Longrightarrow> e \<noteq> AE FilteredOut \<Longrightarrow>
    writer_step fits S a u i k v (Bumping c n, d) (Gave_up e, d')"
| read_cur: "attempt_ok (read_req S a u i) d r d' \<Longrightarrow>
    writer_step fits S a u i k v (Reading c n, d) (next_round (new_cur c r) n, d')"

text \<open>Any number of writers, each with the key and the value of its own event.\<close>

type_synonym job = "nat \<Rightarrow> string \<times> pyval"

inductive race_step ::
  "(bins \<Rightarrow> bool) \<Rightarrow> schema \<Rightarrow> string \<Rightarrow> string \<Rightarrow> string \<Rightarrow> job \<Rightarrow> (nat \<Rightarrow> pc) \<times> db \<Rightarrow> (nat \<Rightarrow> pc) \<times> db \<Rightarrow> bool"
  for fits S a u i job
where
  move: "writer_step fits S a u i (fst (job j)) (snd (job j)) (pcs j, d) (p, d') \<Longrightarrow>
    race_step fits S a u i job (pcs, d) (pcs(j := p), d')"

inductive reachable ::
  "(bins \<Rightarrow> bool) \<Rightarrow> schema \<Rightarrow> string \<Rightarrow> string \<Rightarrow> string \<Rightarrow> job \<Rightarrow> (nat \<Rightarrow> pc) \<times> db \<Rightarrow> (nat \<Rightarrow> pc) \<times> db \<Rightarrow> bool"
  for fits S a u i job s0
where
  start: "reachable fits S a u i job s0 s0"
| step: "reachable fits S a u i job s0 s \<Longrightarrow> race_step fits S a u i job s s' \<Longrightarrow>
    reachable fits S a u i job s0 s'"

inductive_cases race_stepE: "race_step fits S a u i job (pcs, d) (pcs', d')"
inductive_cases from_putting: "writer_step fits S a u i k v (Putting c n, d) (p, d')"
inductive_cases from_sizing: "writer_step fits S a u i k v (Sizing c n, d) (p, d')"
inductive_cases from_bumping: "writer_step fits S a u i k v (Bumping c n, d) (p, d')"
inductive_cases from_reading: "writer_step fits S a u i k v (Reading c n, d) (p, d')"
inductive_simps from_end [simp]:
  "writer_step fits S a u i k v (Stored c, d) y"
  "writer_step fits S a u i k v (Gave_up e, d) y"

section \<open>What a request does\<close>

lemma req_errors: "errors_pure (put_req fits S a u i k v c)" "errors_pure (bump_req fits S a u i c)"
  by (simp_all add: errors_pure_def put_req_def bump_req_def operate_error_unchanged)

definition cur_at :: "db \<Rightarrow> schema \<Rightarrow> string \<Rightarrow> string \<Rightarrow> string \<Rightarrow> int option" where
  "cur_at d S a u i = (case d (session_pk S a u i) of None \<Rightarrow> None
     | Some bs \<Rightarrow> (case map_of bs CUR_SEGMENT of Some (PInt n) \<Rightarrow> Some n | _ \<Rightarrow> None))"

lemma cur_atE:
  assumes "cur_at d S a u i = Some n"
  obtains bs where "d (session_pk S a u i) = Some bs" "map_of bs CUR_SEGMENT = Some (PInt n)"
  using assms by (auto simp: cur_at_def split: option.splits pyval.splits)

text \<open>The guarded bump: it happens exactly when \<open>cur\<close> is still the expected index.\<close>

lemma bump_result:
  assumes "cur_at d S a u i = Some n" "bump_req fits S a u i c d = (Inr out, d')"
  shows "c = n" "cur_at d' S a u i = Some (n + 1)" "only_cur S a u i d d'" "new_cur c (Inr out) = Inr (n + 1)"
proof -
  obtain bs where bs: "d (session_pk S a u i) = Some bs" "map_of bs CUR_SEGMENT = Some (PInt n)"
    using assms(1) by (rule cur_atE)
  with assms(2) show c: "c = n"
    by (auto simp: bump_req_def operate_db_def split: if_splits)
  from assms(2) bs c have "out = [(CUR_SEGMENT, PInt (n + 1))]" "d' = d(session_pk S a u i \<mapsto> dset CUR_SEGMENT (PInt (n + 1)) bs)"
    by (auto simp: bump_req_def operate_db_def run_ops_def bump_ops_def dset_def[of _ _ "[]"] split: if_splits)
  with bs show "cur_at d' S a u i = Some (n + 1)" "only_cur S a u i d d'" "new_cur c (Inr out) = Inr (n + 1)"
    by (auto simp: cur_at_def only_cur_def new_cur_def dget_def)
qed

lemma bump_misses:
  assumes "cur_at d S a u i = Some n" "fst (bump_req fits S a u i c d) = Inl FilteredOut"
  shows "c \<noteq> n"
proof -
  obtain bs where bs: "d (session_pk S a u i) = Some bs" "map_of bs CUR_SEGMENT = Some (PInt n)"
    using assms(1) by (rule cur_atE)
  with assms(2) show ?thesis
    by (auto simp: bump_req_def operate_db_def run_ops_def bump_ops_def split: if_splits)
qed

lemma read_result:
  assumes "cur_at d S a u i = Some n" "attempt_ok (read_req S a u i) d r d'"
  shows "d' = d" "new_cur c r = Inr n \<or> (\<exists>e. new_cur c r = Inl e)"
proof -
  obtain bs where bs: "d (session_pk S a u i) = Some bs" "map_of bs CUR_SEGMENT = Some (PInt n)"
    using assms(1) by (rule cur_atE)
  have "map_of (filter (\<lambda>(b, _). b \<in> set [CUR_SEGMENT]) bs) CUR_SEGMENT = Some (PInt n)"
    using bs(2) by (induction bs) auto
  with assms(2) bs(1) show "d' = d" "new_cur c r = Inr n \<or> (\<exists>e. new_cur c r = Inl e)"
    by (auto simp: attempt_ok_def read_req_def new_cur_def dget_def)
qed

text \<open>A put into a segment that fits, on the segments as maps.\<close>

lemma put_result:
  assumes "pure_segs d S a u i" "put_req fits S a u i k v c d = (Inr out, d')"
  shows "d' = seg_upd d S a u i k v c" "seg_fits fits d S a u i k v c"
  using assms(2) by (auto simp: put_req_def operate_pure[OF assms(1)] split: if_splits)

lemma seg_seg_upd [simp]: "seg (seg_upd d S a u i k v c) S a u i g = (if g = c then kput k v (seg d S a u i c) else seg d S a u i g)"
  by (simp add: seg_upd_def seg_def events_of_def)

lemma cur_seg_upd [simp]: "cur_at (seg_upd d S a u i k v c) S a u i = cur_at d S a u i"
  by (simp add: seg_upd_def cur_at_def)

lemma pure_put: "pure_segs d S a u i \<Longrightarrow> pure_segs (seg_upd d S a u i k v c) S a u i"
  by (cases rule: pure_segE[of d S a u i c]) (auto simp: pure_segs_def seg_upd_def ordered_kput)

lemma pure_only_cur: "pure_segs d S a u i \<Longrightarrow> only_cur S a u i d d' \<Longrightarrow> pure_segs d' S a u i"
  by (simp add: pure_segs_def only_curD)

lemma pure_ordered: "pure_segs d S a u i \<Longrightarrow> ordered (seg d S a u i g)"
  by (cases rule: pure_segE[of d S a u i g]) auto

lemma size_result:
  assumes "pure_segs d S a u i" "attempt_ok (size_req fits S a u i c) d r d'"
  shows "d' = d" "size_of r = Inr z \<Longrightarrow> z \<noteq> 0 \<Longrightarrow> seg d S a u i c \<noteq> []"
proof -
  have e: "size_req fits S a u i c d = (case d (segment_pk S a u i c) of
      None \<Rightarrow> (Inl RecordNotFound, d) | Some bs \<Rightarrow> (Inr [(EVENTS, PInt (int (length (seg d S a u i c))))], d))"
    by (cases rule: pure_segE[OF assms(1), of c])
      (simp_all add: size_req_def operate_db_def run_ops_def dset_def)
  show "d' = d" using assms(2) by (auto simp: attempt_ok_def e split: option.splits)
  assume "size_of r = Inr z" "z \<noteq> 0"
  then show "seg d S a u i c \<noteq> []"
    using assms(2) by (auto simp: attempt_ok_def e size_of_def dget_def transient_def split: option.splits if_splits)
qed

section \<open>The invariant\<close>

text \<open>An event is in no segment other than \<open>c\<close>; in no segment at all.\<close>

definition only_in :: "schema \<Rightarrow> string \<Rightarrow> string \<Rightarrow> string \<Rightarrow> string \<Rightarrow> int \<Rightarrow> db \<Rightarrow> bool" where
  "only_in S a u i k c d \<longleftrightarrow> (\<forall>g. g \<noteq> c \<longrightarrow> map_of (seg d S a u i g) k = None)"

definition absent :: "schema \<Rightarrow> string \<Rightarrow> string \<Rightarrow> string \<Rightarrow> string \<Rightarrow> db \<Rightarrow> bool" where
  "absent S a u i k d \<longleftrightarrow> (\<forall>g. map_of (seg d S a u i g) k = None)"

fun pc_ok :: "schema \<Rightarrow> string \<Rightarrow> string \<Rightarrow> string \<Rightarrow> string \<times> pyval \<Rightarrow> int \<Rightarrow> db \<Rightarrow> pc \<Rightarrow> bool" where
  "pc_ok S a u i kv cur d (Putting c n) = (c \<le> cur \<and> only_in S a u i (fst kv) c d)"
| "pc_ok S a u i kv cur d (Sizing c n) = (c \<le> cur \<and> absent S a u i (fst kv) d)"
| "pc_ok S a u i kv cur d (Bumping c n) = (c \<le> cur \<and> absent S a u i (fst kv) d \<and> seg d S a u i c \<noteq> [])"
| "pc_ok S a u i kv cur d (Reading c n) = (c \<le> cur \<and> absent S a u i (fst kv) d)"
| "pc_ok S a u i kv cur d (Stored c) =
     (c \<le> cur \<and> only_in S a u i (fst kv) c d \<and> map_of (seg d S a u i c) (fst kv) = Some (snd kv))"
| "pc_ok S a u i kv cur d (Gave_up e) = (\<exists>c. only_in S a u i (fst kv) c d)"

text \<open>The segments hold what they held and events of the writers, and every segment that holds
  a writer's event fits its record.\<close>

definition segs_ok :: "(bins \<Rightarrow> bool) \<Rightarrow> schema \<Rightarrow> string \<Rightarrow> string \<Rightarrow> string \<Rightarrow> job \<Rightarrow> db \<Rightarrow> db \<Rightarrow> bool" where
  "segs_ok fits S a u i job d0 d \<longleftrightarrow> pure_segs d S a u i \<and> (\<forall>g.
     map_of (seg d0 S a u i g) \<subseteq>\<^sub>m map_of (seg d S a u i g)
     \<and> (\<forall>k v. map_of (seg d S a u i g) k = Some v \<longrightarrow>
          map_of (seg d0 S a u i g) k = Some v
          \<or> (\<exists>j. job j = (k, v)) \<and> fits [(EVENTS, PDict (seg d S a u i g))]))"

text \<open>No segment between the first and the present value of \<open>cur\<close> was skipped.\<close>

definition none_skipped :: "schema \<Rightarrow> string \<Rightarrow> string \<Rightarrow> string \<Rightarrow> int \<Rightarrow> int \<Rightarrow> db \<Rightarrow> bool" where
  "none_skipped S a u i cur0 cur d \<longleftrightarrow> (\<forall>g. cur0 \<le> g \<and> g < cur \<longrightarrow> seg d S a u i g \<noteq> [])"

text \<open>Outside the segments nothing but the bin \<open>cur\<close> changes.\<close>

definition outside_same :: "schema \<Rightarrow> string \<Rightarrow> string \<Rightarrow> string \<Rightarrow> db \<Rightarrow> db \<Rightarrow> bool" where
  "outside_same S a u i d d' \<longleftrightarrow>
     (\<forall>k. k \<noteq> session_pk S a u i \<longrightarrow> (\<forall>g. k \<noteq> segment_pk S a u i g) \<longrightarrow> d' k = d k)
     \<and> (\<exists>bs bs'. d (session_pk S a u i) = Some bs \<and> d' (session_pk S a u i) = Some bs'
          \<and> (\<forall>b. b \<noteq> CUR_SEGMENT \<longrightarrow> map_of bs' b = map_of bs b))"

definition race_inv :: "(bins \<Rightarrow> bool) \<Rightarrow> schema \<Rightarrow> string \<Rightarrow> string \<Rightarrow> string \<Rightarrow> job \<Rightarrow> int \<Rightarrow> db
    \<Rightarrow> (nat \<Rightarrow> pc) \<Rightarrow> db \<Rightarrow> bool" where
  "race_inv fits S a u i job cur0 d0 pcs d \<longleftrightarrow> segs_ok fits S a u i job d0 d \<and> outside_same S a u i d0 d
     \<and> (\<exists>cur. cur_at d S a u i = Some cur \<and> cur0 \<le> cur \<and> none_skipped S a u i cur0 cur d
          \<and> (\<forall>j. pc_ok S a u i (job j) cur d (pcs j)))"

section \<open>Every step keeps it\<close>

lemma only_in_segs: "(\<And>g. seg d' S a u i g = seg d S a u i g) \<Longrightarrow> only_in S a u i k c d' = only_in S a u i k c d"
  by (simp add: only_in_def)

lemma absent_only_in: "absent S a u i k d \<Longrightarrow> only_in S a u i k c d"
  by (simp add: absent_def only_in_def)

lemma pc_ok_only_in: "pc_ok S a u i kv cur d p \<Longrightarrow> \<exists>c. only_in S a u i (fst kv) c d"
  by (cases p) (auto intro: absent_only_in)

lemma pc_ok_bump:
  assumes "only_cur S a u i d d'" "cur \<le> cur'" "pc_ok S a u i kv cur d p"
  shows "pc_ok S a u i kv cur' d' p"
  using assms(2,3) only_cur_seg[OF assms(1)] by (cases p) (auto simp: only_in_def absent_def)

lemma map_of_seg_upd:
  assumes "pure_segs d S a u i"
  shows "map_of (seg (seg_upd d S a u i k v c) S a u i g) =
    (if g = c then (map_of (seg d S a u i g))(k \<mapsto> v) else map_of (seg d S a u i g))"
  by (simp add: map_of_kput[OF pure_ordered[OF assms]])

lemma pc_ok_put_other:
  assumes "pure_segs d S a u i" "fst kv \<noteq> k" "pc_ok S a u i kv cur d p"
  shows "pc_ok S a u i kv cur (seg_upd d S a u i k v c) p"
proof -
  have k: "map_of (seg (seg_upd d S a u i k v c) S a u i g) (fst kv) = map_of (seg d S a u i g) (fst kv)" for g
    using assms(2) by (simp add: map_of_seg_upd[OF assms(1)] del: seg_seg_upd)
  then have "only_in S a u i (fst kv) c' (seg_upd d S a u i k v c) = only_in S a u i (fst kv) c' d"
    "absent S a u i (fst kv) (seg_upd d S a u i k v c) = absent S a u i (fst kv) d" for c'
    by (simp_all add: only_in_def absent_def del: seg_seg_upd)
  moreover have "seg d S a u i g \<noteq> [] \<Longrightarrow> seg (seg_upd d S a u i k v c) S a u i g \<noteq> []" for g by simp
  ultimately show ?thesis using assms(3) k by (cases p) (auto simp del: seg_seg_upd)
qed

lemma only_in_put:
  assumes "pure_segs d S a u i" "only_in S a u i k c d"
  shows "only_in S a u i k c (seg_upd d S a u i k v c)"
    and "map_of (seg (seg_upd d S a u i k v c) S a u i c) k = Some v"
  using assms(2) by (simp_all add: only_in_def map_of_seg_upd[OF assms(1)] del: seg_seg_upd)

lemma segs_ok_put:
  assumes "segs_ok fits S a u i job d0 d" "seg_fits fits d S a u i k v c" "job j = (k, v)"
    and fresh: "\<And>g. map_of (seg d0 S a u i g) k = None"
  shows "segs_ok fits S a u i job d0 (seg_upd d S a u i k v c)"
proof -
  have p: "pure_segs d S a u i" using assms(1) by (simp add: segs_ok_def)
  have "map_of (seg d0 S a u i g) \<subseteq>\<^sub>m map_of (seg (seg_upd d S a u i k v c) S a u i g)" for g
    using assms(1) fresh[of g]
    by (auto simp: segs_ok_def map_of_seg_upd[OF p] map_le_def simp del: seg_seg_upd)
  moreover have "map_of (seg d0 S a u i g) k1 = Some v1
      \<or> (\<exists>j. job j = (k1, v1)) \<and> fits [(EVENTS, PDict (seg (seg_upd d S a u i k v c) S a u i g))]"
    if "map_of (seg (seg_upd d S a u i k v c) S a u i g) k1 = Some v1" for g k1 v1
  proof (cases "g = c")
    case True
    with assms(2) have "fits [(EVENTS, PDict (seg (seg_upd d S a u i k v c) S a u i g))]"
      by (simp add: seg_fits_def)
    moreover have "map_of (seg d0 S a u i g) k1 = Some v1 \<or> (\<exists>j. job j = (k1, v1))"
      using that assms(1,3) True
      by (auto simp: map_of_seg_upd[OF p] segs_ok_def simp del: seg_seg_upd split: if_splits)
    ultimately show ?thesis by blast
  next
    case False
    with that assms(1) show ?thesis by (auto simp: segs_ok_def)
  qed
  ultimately show ?thesis using pure_put[OF p] unfolding segs_ok_def by blast
qed

lemma segs_ok_bump:
  "segs_ok fits S a u i job d0 d \<Longrightarrow> only_cur S a u i d d' \<Longrightarrow> segs_ok fits S a u i job d0 d'"
  using pure_only_cur[of d S a u i d'] by (simp add: segs_ok_def only_cur_seg)

lemma outside_put: "outside_same S a u i d0 d \<Longrightarrow> outside_same S a u i d0 (seg_upd d S a u i k v c)"
  by (simp add: outside_same_def seg_upd_def)

lemma outside_bump: "outside_same S a u i d0 d \<Longrightarrow> only_cur S a u i d d' \<Longrightarrow> outside_same S a u i d0 d'"
  unfolding outside_same_def only_cur_def by fastforce

lemma none_skipped_put: "none_skipped S a u i cur0 cur d \<Longrightarrow> none_skipped S a u i cur0 cur (seg_upd d S a u i k v c)"
  by (auto simp: none_skipped_def)

lemma none_skipped_bump:
  "none_skipped S a u i cur0 cur d \<Longrightarrow> seg d S a u i cur \<noteq> [] \<Longrightarrow> only_cur S a u i d d' \<Longrightarrow>
   none_skipped S a u i cur0 (cur + 1) d'"
  unfolding none_skipped_def by (simp add: only_cur_seg) (metis order_le_less)

text \<open>An event that is in its segment already still fits there.\<close>

lemma too_big_absent:
  assumes "segs_ok fits S a u i job d0 d" "job j = (k, v)" "inj (fst \<circ> job)"
    and fresh: "\<And>g. map_of (seg d0 S a u i g) k = None"
    and "only_in S a u i k c d" "fst (put_req fits S a u i k v c d) = Inl RecordTooBig"
  shows "absent S a u i k d"
proof (rule ccontr)
  assume "\<not> absent S a u i k d"
  then obtain v1 where v1: "map_of (seg d S a u i c) k = Some v1"
    using assms(5) unfolding absent_def only_in_def by (metis option.exhaust)
  with assms(1) fresh[of c] obtain j1 where j1: "job j1 = (k, v1)" "fits [(EVENTS, PDict (seg d S a u i c))]"
    unfolding segs_ok_def by force
  have "j1 = j" using j1(1) assms(2) injD[OF assms(3), of j1 j] by simp
  then have "v1 = v" using j1(1) assms(2) by simp
  have p: "pure_segs d S a u i" using assms(1) by (simp add: segs_ok_def)
  have "kput k v (seg d S a u i c) = seg d S a u i c"
    using v1 \<open>v1 = v\<close> pure_ordered[OF p] by (intro events.put_again) simp_all
  then have "seg_fits fits d S a u i k v c" using j1(2) by (simp add: seg_fits_def)
  with assms(6) show False by (simp add: put_req_def operate_pure[OF p])
qed

definition fresh_jobs :: "schema \<Rightarrow> string \<Rightarrow> string \<Rightarrow> string \<Rightarrow> job \<Rightarrow> db \<Rightarrow> bool" where
  "fresh_jobs S a u i job d0 \<longleftrightarrow> inj (fst \<circ> job) \<and> (\<forall>j. absent S a u i (fst (job j)) d0)"

text \<open>The outcome of one step of writer \<open>j\<close>: nothing, its event in its segment, or one bump.\<close>

lemma step_effect:
  assumes "writer_step fits S a u i (fst (job j)) (snd (job j)) (p, d) (p', d')"
    and so: "segs_ok fits S a u i job d0 d" and cur: "cur_at d S a u i = Some cur"
    and fresh: "fresh_jobs S a u i job d0" and ok: "pc_ok S a u i (job j) cur d p"
  obtains (same) "d' = d" "pc_ok S a u i (job j) cur d p'"
    | (put) c where "d' = seg_upd d S a u i (fst (job j)) (snd (job j)) c" "seg_fits fits d S a u i (fst (job j)) (snd (job j)) c"
        "pc_ok S a u i (job j) cur d' p'"
    | (bump) "only_cur S a u i d d'" "cur_at d' S a u i = Some (cur + 1)" "seg d S a u i cur \<noteq> []"
        "pc_ok S a u i (job j) (cur + 1) d' p'"
proof -
  obtain k v where kv: "job j = (k, v)" by fastforce
  have p: "pure_segs d S a u i" using so by (simp add: segs_ok_def)
  have inj: "inj (fst \<circ> job)" and fr: "\<And>g. map_of (seg d0 S a u i g) k = None"
    using fresh kv by (auto simp: fresh_jobs_def absent_def dest: spec[of _ j])
  have gave: "pc_ok S a u i (job j) cur d (Gave_up e)" for e
    using pc_ok_only_in[OF ok] by simp
  show ?thesis
  proof (cases p)
    case (Putting c n)
    have c: "c \<le> cur" "only_in S a u i k c d" using ok Putting kv by simp_all
    have put: "d' = seg_upd d S a u i k v c \<Longrightarrow> seg_fits fits d S a u i k v c \<Longrightarrow> 
        (\<And>e. p' = Stored c \<or> p' = Putting c n \<or> p' = Gave_up e \<Longrightarrow> pc_ok S a u i (job j) cur d' p')"
      using only_in_put[OF p c(2), of v] c(1) kv by (auto simp del: seg_seg_upd)
    obtain r where r: "attempt_ok (put_req fits S a u i k v c) d r d'"
      and cases: "(\<exists>out. r = Inr out) \<and> p' = Stored c \<or> r = Inl (AE RecordTooBig) \<and> p' = Sizing c n
        \<or> (\<exists>e. r = Inl e \<and> e \<noteq> AE RecordTooBig) \<and> (p' = Putting c n \<or> (\<exists>e. p' = Gave_up e))"
      using assms(1) unfolding Putting kv by (auto elim!: from_putting simp: swallowed_def)
    from r req_errors(1) show ?thesis
    proof (cases rule: attemptE)
      case same
      have "pc_ok S a u i (job j) cur d p'"
        using cases
      proof (elim disjE conjE exE)
        fix out assume r: "r = Inr out" and p': "p' = Stored c"
        from put_result[OF p same(2)[OF r]] put p' show ?thesis by (simp add: same(1))
      next
        assume "r = Inl (AE RecordTooBig)" "p' = Sizing c n"
        with same too_big_absent[OF so kv inj fr c(2)] c kv show ?thesis by (simp add: transient_def)
      next
        fix e e' assume "p' = Gave_up e'"
        then show ?thesis using gave by simp
      qed (use ok Putting in simp)
      with same(1) that(1) show ?thesis by blast
    next
      case (did out)
      note d' = put_result[OF p did(1)]
      have "\<not> transient RecordTooBig" by (simp add: transient_def)
      with did(3)[of "AE RecordTooBig"] cases have "p' = Stored c \<or> p' = Putting c n \<or> (\<exists>e. p' = Gave_up e)" by auto
      with put[OF d'] d' that(2)[of c] kv show ?thesis by auto
    qed
  next
    case (Sizing c n)
    obtain r where r: "attempt_ok (size_req fits S a u i c) d r d'"
      and cases: "(\<exists>z. size_of r = Inr z \<and> z \<noteq> 0) \<and> p' = Bumping c n \<or> (\<exists>e. p' = Gave_up e)"
      using assms(1) unfolding Sizing by (auto elim!: from_sizing)
    have "pc_ok S a u i (job j) cur d p'"
      using cases size_result(2)[OF p r] ok Sizing gave by auto
    with size_result(1)[OF p r] that(1) show ?thesis by blast
  next
    case (Bumping c n)
    have c: "c \<le> cur" "absent S a u i k d" "seg d S a u i c \<noteq> []" using ok Bumping kv by simp_all
    obtain r where r: "attempt_ok (bump_req fits S a u i c) d r d'"
      and cases: "(\<exists>out. r = Inr out \<and> p' = next_round (new_cur c (Inr out)) n) \<or> p' = Reading c n \<or> p' = Bumping c n \<or> (\<exists>e. p' = Gave_up e)"
      using assms(1) unfolding Bumping by (auto elim!: from_bumping)
    have stay: "only_cur S a u i d d'' \<Longrightarrow> p' = Reading c n \<or> p' = Bumping c n \<or> (\<exists>e. p' = Gave_up e) \<Longrightarrow>
        cur \<le> cur' \<Longrightarrow> pc_ok S a u i (job j) cur' d'' p'" for d'' cur'
      by (rule pc_ok_bump) (use c kv gave in auto)
    have next_ok: "pc_ok S a u i (job j) cur' d'' (next_round (Inr cur') n)" if "only_cur S a u i d d''" for d'' cur'
      using c(2) only_cur_seg[OF that] kv by (cases n) (auto simp: only_in_def absent_def)
    from r req_errors(2) show ?thesis
    proof (cases rule: attemptE)
      case same
      have "only_cur S a u i d d" using cur by (auto simp: only_cur_def elim: cur_atE)
      moreover have "\<nexists>out. r = Inr out"
      proof
        assume "\<exists>out. r = Inr out"
        then obtain out where "bump_req fits S a u i c d = (Inr out, d)" using same by auto
        from bump_result(2)[OF cur this] cur show False by simp
      qed
      ultimately show ?thesis using cases stay[of d cur] same(1) that(1) by auto
    next
      case (did out)
      note b = bump_result[OF cur did(1)]
      have "pc_ok S a u i (job j) (cur + 1) d' p'"
        using cases stay[OF b(3), of "cur + 1"] next_ok[OF b(3), of "cur + 1"] b(4) did(2) by auto
      with b c(3) that(3) show ?thesis by simp
    qed
  next
    case (Reading c n)
    obtain r where r: "attempt_ok (read_req S a u i) d r d'" "p' = next_round (new_cur c r) n"
      using assms(1) unfolding Reading by (auto elim!: from_reading)
    have "pc_ok S a u i (job j) cur d p'"
      using read_result(2)[OF cur r(1), of c] ok Reading gave absent_only_in[of S a u i k d] kv
      by (cases n) (auto simp: r(2))
    with read_result(1)[OF cur r(1)] that(1) show ?thesis by blast
  qed (use assms(1) in simp_all)
qed

lemma race_step_inv:
  assumes "race_step fits S a u i job (pcs, d) (pcs', d')" "fresh_jobs S a u i job d0"
    and inv: "race_inv fits S a u i job cur0 d0 pcs d"
  shows "race_inv fits S a u i job cur0 d0 pcs' d'"
proof -
  from assms(1) obtain j p' where j: "writer_step fits S a u i (fst (job j)) (snd (job j)) (pcs j, d) (p', d')"
    "pcs' = pcs(j := p')" by (rule race_stepE)
  from inv obtain cur where so: "segs_ok fits S a u i job d0 d" and os: "outside_same S a u i d0 d"
    and cur: "cur_at d S a u i = Some cur" and le: "cur0 \<le> cur" and ns: "none_skipped S a u i cur0 cur d"
    and pcs: "\<And>j. pc_ok S a u i (job j) cur d (pcs j)"
    unfolding race_inv_def by blast
  have inj: "fst (job j') \<noteq> fst (job j)" if "j' \<noteq> j" for j'
    using assms(2) that by (auto simp: fresh_jobs_def dest: injD[of "fst \<circ> job" j' j])
  have fr: "map_of (seg d0 S a u i g) (fst (job j)) = None" for g
    using assms(2) by (simp add: fresh_jobs_def absent_def)
  from j(1) so cur assms(2) pcs[of j] show ?thesis
  proof (cases rule: step_effect)
    case same
    with so os cur le ns pcs j(2) show ?thesis unfolding race_inv_def by auto
  next
    case (put c)
    have p: "pure_segs d S a u i" using so by (simp add: segs_ok_def)
    have "pc_ok S a u i (job j') cur d' (pcs' j')" for j'
      using put(3) pc_ok_put_other[OF p inj pcs, of j'] by (cases "j' = j") (simp_all add: j(2) put(1))
    moreover have "segs_ok fits S a u i job d0 d'"
      unfolding put(1) by (rule segs_ok_put[OF so put(2) _ fr]) simp
    moreover have "outside_same S a u i d0 d'" "none_skipped S a u i cur0 cur d'" "cur_at d' S a u i = Some cur"
      unfolding put(1) using outside_put[OF os] none_skipped_put[OF ns] cur by simp_all
    ultimately show ?thesis using le unfolding race_inv_def by blast
  next
    case bump
    have "pc_ok S a u i (job j') (cur + 1) d' (pcs' j')" for j'
      using bump(4) pc_ok_bump[OF bump(1) _ pcs, of "cur + 1" j'] by (cases "j' = j") (simp_all add: j(2))
    moreover have "segs_ok fits S a u i job d0 d'" by (rule segs_ok_bump[OF so bump(1)])
    moreover have "outside_same S a u i d0 d'" by (rule outside_bump[OF os bump(1)])
    moreover have "none_skipped S a u i cur0 (cur + 1) d'" by (rule none_skipped_bump[OF ns bump(3,1)])
    moreover have "cur0 \<le> cur + 1" using le by simp
    ultimately show ?thesis using bump(2) unfolding race_inv_def by blast
  qed
qed

lemma reachable_inv:
  assumes "reachable fits S a u i job (pcs0, d0) s" "fresh_jobs S a u i job d0"
    and "race_inv fits S a u i job cur0 d0 pcs0 d0"
  shows "race_inv fits S a u i job cur0 d0 (fst s) (snd s)"
  using assms(1)
proof induction
  case start
  then show ?case using assms(3) by simp
next
  case (step s s')
  from step.hyps(2) step.IH assms(2) show ?case
    by (cases s; cases s') (simp add: race_step_inv)
qed

lemma race_inv_start:
  assumes "pure_segs d0 S a u i" "cur_at d0 S a u i = Some cur0" "fresh_jobs S a u i job d0"
    and "\<And>j. \<exists>c n. pcs0 j = Putting c n \<and> c \<le> cur0"
  shows "race_inv fits S a u i job cur0 d0 pcs0 d0"
proof -
  have "pc_ok S a u i (job j) cur0 d0 (pcs0 j)" for j
    using assms(4)[of j] assms(3) absent_only_in by (fastforce simp: fresh_jobs_def)
  moreover have "outside_same S a u i d0 d0"
    using assms(2) by (auto simp: outside_same_def elim: cur_atE)
  ultimately show ?thesis
    using assms(1,2) by (auto simp: race_inv_def segs_ok_def none_skipped_def)
qed

section \<open>The sequential code runs the machine\<close>

abbreviation writer_run where
  "writer_run fits S a u i k v \<equiv> (writer_step fits S a u i k v)\<^sup>*\<^sup>*"

lemma swallowed_first: "swallowed True a e \<Longrightarrow> swallowed True 0 e"
  by (auto simp: swallowed_def OVERLOAD_MAX_RETRIES_def)

context aerospike_client begin

text \<open>A retry loop is some number of steps that stay, and then one attempt.\<close>

lemma wp_retry_steps:
  assumes call: "\<And>w. P (view (srv w)) \<Longrightarrow> wp m (\<lambda>r w'. attempt_ok f (view (srv w)) r (view (srv w'))) w"
    and keep: "\<And>d r d'. P d \<Longrightarrow> attempt_ok f d r d' \<Longrightarrow> P d'"
    and again: "\<And>d e d'. attempt_ok f d (Inl e) d' \<Longrightarrow> swallowed True 0 e \<Longrightarrow> step (p, d) (p, d')"
    and start: "P (view (srv w))" "0 \<le> delay" "as \<noteq> []" "last as = OVERLOAD_MAX_RETRIES"
  shows "wp (retry_loop X m True as delay)
    (\<lambda>r w'. \<exists>d1. step\<^sup>*\<^sup>* (p, view (srv w)) (p, d1) \<and> P d1 \<and> attempt_ok f d1 r (view (srv w'))) w"
  using start
proof (induction as arbitrary: w delay)
  case (Cons a as)
  let ?Q = "\<lambda>w r w'. \<exists>d1. step\<^sup>*\<^sup>* (p, view (srv w)) (p, d1) \<and> P d1 \<and> attempt_ok f d1 r (view (srv w'))"
  have more: "wp (thenE (back_off X delay) (retry_loop X m True as (next_delay delay))) (?Q w) w1"
    if st: "step (p, view (srv w)) (p, view (srv w1))" and P: "P (view (srv w1))" and ne: "as \<noteq> []" for w1
    unfolding back_off_def wp_simps
  proof (rule wp_uniform)
    show "0 \<le> delay" by fact
    fix s' j assume j: "view s' = view (srv w1)" "0 \<le> j" "j \<le> delay"
    let ?w = "w1\<lparr>srv := s', slept := slept w1 @ [fadd delay j]\<rparr>"
    have "wp (retry_loop X m True as (next_delay delay)) (?Q ?w) ?w"
      using Cons.prems ne next_delay_bounds[OF Cons.prems(2)] P j(1) by (intro Cons.IH) auto
    then have "wp (retry_loop X m True as (next_delay delay)) (?Q w) ?w"
      by (rule wp_mono) (use st j(1) in \<open>auto intro: converse_rtranclp_into_rtranclp\<close>)
    then show "case Inr j of Inl e \<Rightarrow> case (Inl e :: unit exc) of Inl e \<Rightarrow> ?Q w (Inl e) (w1\<lparr>srv := s'\<rparr>)
        | Inr _ \<Rightarrow> wp (retry_loop X m True as (next_delay delay)) (?Q w) (w1\<lparr>srv := s'\<rparr>)
      | Inr j \<Rightarrow> case (Inr () :: unit exc) of
          Inl e \<Rightarrow> ?Q w (Inl e) (w1\<lparr>srv := s', slept := slept (w1\<lparr>srv := s'\<rparr>) @ [fadd delay j]\<rparr>)
        | Inr _ \<Rightarrow> wp (retry_loop X m True as (next_delay delay)) (?Q w)
            (w1\<lparr>srv := s', slept := slept (w1\<lparr>srv := s'\<rparr>) @ [fadd delay j]\<rparr>)" by simp
  qed
  have ne: "as \<noteq> []" if "swallowed True a e" for e
    using that Cons.prems(4) by (auto simp: swallowed_def)
  show ?case
    unfolding retry_loop.simps wp_catchE
  proof (rule wp_mono[OF call[OF Cons.prems(1)]], goal_cases)
    case (1 r w1)
    show ?case
    proof (cases "\<exists>e. r = Inl e \<and> swallowed True a e")
      case True
      then obtain e where e: "r = Inl e" "swallowed True a e" by blast
      have "step (p, view (srv w)) (p, view (srv w1))"
        using again[OF 1[unfolded e(1)] swallowed_first[OF e(2)]] .
      from more[OF this keep[OF Cons.prems(1) 1] ne[OF e(2)]] e show ?thesis by simp
    next
      case False
      with 1 Cons.prems(1) show ?thesis by (auto split: sum.split)
    qed
  qed
qed simp

lemma wp_writing_steps:
  assumes "\<And>w. P (view (srv w)) \<Longrightarrow> wp m (\<lambda>r w'. attempt_ok f (view (srv w)) r (view (srv w'))) w"
    and "\<And>d r d'. P d \<Longrightarrow> attempt_ok f d r d' \<Longrightarrow> P d'"
    and "\<And>d e d'. attempt_ok f d (Inl e) d' \<Longrightarrow> swallowed True 0 e \<Longrightarrow> step (p, d) (p, d')"
    and "P (view (srv w))"
  shows "wp (write_retrying_overload X m True)
    (\<lambda>r w'. \<exists>d1. step\<^sup>*\<^sup>* (p, view (srv w)) (p, d1) \<and> P d1 \<and> attempt_ok f d1 r (view (srv w'))) w"
  unfolding write_retrying_overload_def
  by (rule wp_retry_steps[where P = P and m = m and f = f and step = step and p = p, OF assms])
    (simp_all add: delay_bounds)

lemma wp_select_attempt:
  "wp (client_select X (session_pk S a u i) [CUR_SEGMENT])
     (\<lambda>r w'. attempt_ok (read_req S a u i) (view (srv w)) r (view (srv w'))) w"
  unfolding client_select_def wp_simps
proof (rule wp_call_faulty)
  fix f fs s'
  let ?d = "view (srv w)" and ?r = "RSelect (session_pk S a u i) [CUR_SEGMENT]"
  assume f: "fault_ok f" and v: "view s' = snd (with_fault f ?d (serve fits (x_code X) fs ?r ?d))"
  show "case lift_ae (fst (with_fault f ?d (serve fits (x_code X) fs ?r ?d))) of
      Inl e \<Rightarrow> attempt_ok (read_req S a u i) ?d (Inl e) (view (srv (w\<lparr>srv := s'\<rparr>)))
    | Inr r \<Rightarrow> attempt_ok (read_req S a u i) ?d (as_rec r) (view (srv (w\<lparr>srv := s'\<rparr>)))"
    using f v by (cases f; cases "?d (session_pk S a u i)") (simp_all add: attempt_ok_def read_req_def)
qed simp

end

text \<open>No request of a writer removes the session record.\<close>

definition has_session :: "schema \<Rightarrow> string \<Rightarrow> string \<Rightarrow> string \<Rightarrow> db \<Rightarrow> bool" where
  "has_session S a u i d \<longleftrightarrow> d (session_pk S a u i) \<noteq> None"

lemma has_session_attempt:
  assumes "has_session S a u i d"
  shows "attempt_ok (put_req fits S a u i k v c) d r d' \<Longrightarrow> has_session S a u i d'"
    and "attempt_ok (size_req fits S a u i c) d r d' \<Longrightarrow> has_session S a u i d'"
    and "attempt_ok (bump_req fits S a u i c) d r d' \<Longrightarrow> has_session S a u i d'"
  using assms guarded_bump_exists[of d "session_pk S a u i" fits bump_ops "Some (CUR_SEGMENT, c)"]
    operate_db_frame[of "session_pk S a u i" "segment_pk S a u i c" fits]
  by (auto simp: attempt_ok_def has_session_def put_req_def size_req_def bump_req_def)

lemma int_of_str_not_ae: "int_of_str s \<noteq> Inl (AE e)"
  by (simp add: int_of_str_def Let_def split: option.split)

lemma py_int_not_ae: "py_int v \<noteq> Inl (AE e)"
  by (cases v) (simp_all add: int_of_str_not_ae)

text \<open>How the run of a writer ended.\<close>

definition ended :: "unit exc \<Rightarrow> pc \<Rightarrow> bool" where
  "ended r p \<longleftrightarrow> (case r of Inl e \<Rightarrow> p = Gave_up e | Inr _ \<Rightarrow> \<exists>c. p = Stored c)"

context aerospike_client begin

lemma wp_roll_run:
  assumes "has_session S a u i (view (srv w))"
  shows "wp (roll_over X S a u i c)
    (\<lambda>r w'. writer_run fits S a u i k v (Bumping c n, view (srv w)) (next_round r n, view (srv w'))
       \<and> has_session S a u i (view (srv w'))) w"
proof -
  let ?run = "writer_run fits S a u i k v (Bumping c n, view (srv w))"
  have retry: "wp (write_retrying_overload X (client_operate X (session_pk S a u i) bump_ops (Some (CUR_SEGMENT, c))) True)
    (\<lambda>r w'. \<exists>d1. ?run (Bumping c n, d1) \<and> has_session S a u i d1 \<and> attempt_ok (bump_req fits S a u i c) d1 r (view (srv w'))) w"
  proof (rule wp_writing_steps[where P = "has_session S a u i"])
    show "wp (client_operate X (session_pk S a u i) bump_ops (Some (CUR_SEGMENT, c)))
        (\<lambda>r w'. attempt_ok (bump_req fits S a u i c) (view (srv w)) r (view (srv w'))) w"
      if "has_session S a u i (view (srv w))" for w
      using wp_operate_attempt[of "Some (CUR_SEGMENT, c)" w "session_pk S a u i" bump_ops] that
      unfolding bump_req_def has_session_def by (auto elim: wp_mono)
  qed (use assms in \<open>auto intro: bump_again has_session_attempt(3)\<close>)
  show ?thesis
    unfolding roll_over_def Let_def wp_bindE[of "catchE _ _ _"] wp_catchE wp_bindE[of "write_retrying_overload _ _ _"]
  proof (rule wp_mono[OF retry], elim exE conjE, goal_cases)
    case (1 r w1 d1)
    have s: "has_session S a u i (view (srv w1))" using has_session_attempt(3)[OF 1(2,3)] .
    note to = rtranclp.rtrancl_into_rtrancl[OF 1(1)]
    show ?case
    proof (cases r)
      case (Inr res)
      have bump: "?run (next_round (new_cur c (Inr res)) n, view (srv w1))"
        using to[OF bump_done] 1(3) unfolding Inr by blast
      show ?thesis
      proof (cases "py_int (dget res CUR_SEGMENT (PInt (c + 1)))")
        case (Inl e)
        have "e \<noteq> AE FilteredOut" using Inl py_int_not_ae[of "dget res CUR_SEGMENT (PInt (c + 1))"] by auto
        moreover have "new_cur c (Inr res) = Inl e" using Inl by (simp add: new_cur_def)
        ultimately show ?thesis using bump s \<open>r = Inr res\<close> Inl by (simp add: wp_simps is_ae_def)
      next
        case (Inr c')
        moreover from this have "new_cur c (Inr res) = Inr c'" by (simp add: new_cur_def)
        ultimately show ?thesis using bump s \<open>r = Inr res\<close> by (simp add: wp_simps)
      qed
    next
      case (Inl e)
      show ?thesis
      proof (cases "e = AE FilteredOut")
        case True
        have lost: "?run (Reading c n, view (srv w1))" using to[OF bump_lost] 1(3) Inl True by simp
        show ?thesis
          unfolding Inl sum.case True is_ae_def if_True wp_bindE wp_liftE simp_thms
        proof (rule wp_mono[OF wp_select_attempt], goal_cases)
          case (1 r2 w2)
          have "has_session S a u i (view (srv w2))"
            using s 1 by (auto simp: attempt_ok_def read_req_def split: option.splits)
          with rtranclp.rtrancl_into_rtrancl[OF lost read_cur[OF 1]] show ?case
            by (auto simp: wp_simps new_cur_def split: sum.split)
        qed
      next
        case False
        with to[OF bump_fails] 1(3) Inl s show ?thesis by (simp add: is_ae_def)
      qed
    qed
  qed
qed

lemma wp_place_run:
  assumes "has_session S a u i (view (srv w))"
  shows "wp (place_loop X S a u i (MapPut EVENTS k v) n c)
    (\<lambda>r w'. \<exists>p. writer_run fits S a u i k v (next_round (Inr c) n, view (srv w)) (p, view (srv w')) \<and> ended r p) w"
  using assms
proof (induction n arbitrary: c w)
  case 0
  then show ?case by (auto simp: wp_simps ended_def)
next
  case (Suc n)
  let ?run = "writer_run fits S a u i k v (Putting c n, view (srv w))"
  let ?Q = "\<lambda>r w'. \<exists>p. ?run (p, view (srv w')) \<and> ended r p"
  have retry: "wp (write_retrying_overload X (client_operate X (segment_pk S a u i c) [MapPut EVENTS k v] None) True)
    (\<lambda>r w'. \<exists>d1. ?run (Putting c n, d1) \<and> has_session S a u i d1 \<and> attempt_ok (put_req fits S a u i k v c) d1 r (view (srv w'))) w"
  proof (rule wp_writing_steps[where P = "has_session S a u i"])
    show "wp (client_operate X (segment_pk S a u i c) [MapPut EVENTS k v] None)
        (\<lambda>r w'. attempt_ok (put_req fits S a u i k v c) (view (srv w)) r (view (srv w'))) w" for w
      using wp_operate_attempt[of None w "segment_pk S a u i c" "[MapPut EVENTS k v]"]
      unfolding put_req_def by (auto elim: wp_mono)
  qed (use Suc.prems in \<open>auto intro: put_again has_session_attempt(1)\<close>)
  have size: "wp (segment_size X (segment_pk S a u i c))
     (\<lambda>r w'. \<exists>r0. attempt_ok (size_req fits S a u i c) (view (srv w1)) r0 (view (srv w')) \<and> size_of r0 = r) w1" for w1
    unfolding segment_size_def wp_bindE wp_or_not_found
  proof (rule wp_mono[OF wp_operate_attempt], simp, elim conjE, goal_cases)
    case (1 r w2)
    then show ?case by (cases r) (auto simp: wp_simps size_req_def size_of_def intro!: exI[of _ r])
  qed
  let ?rest = "\<lambda>r w'. case r of Inl e \<Rightarrow> ?Q (Inl e) w'
     | Inr (x :: int option) \<Rightarrow> wp (case x of Some c \<Rightarrow> place_loop X S a u i (MapPut EVENTS k v) n c
          | None \<Rightarrow> cache_cur (session_key a u i) c) ?Q w'"
  have handler: "wp (bindE (segment_size X (segment_pk S a u i c)) (\<lambda>size.
       if size = 0 then raiseE (AE RecordTooBig)
       else bindE (roll_over X S a u i c) (\<lambda>c. retE (Some c)))) ?rest w1"
    if at: "?run (Sizing c n, view (srv w1))" and s: "has_session S a u i (view (srv w1))" for w1
    unfolding wp_bindE[of "segment_size _ _"]
  proof (rule wp_mono[OF size], elim exE conjE, goal_cases)
    case (1 z w2 r0)
    note to = rtranclp.rtrancl_into_rtrancl[OF at]
    have s2: "has_session S a u i (view (srv w2))" using has_session_attempt(2)[OF s 1(1)] .
    show ?case
    proof (cases z)
      case (Inl e)
      with to[OF size_fails[OF 1(1)]] 1(2) show ?thesis by (auto simp: ended_def)
    next
      case (Inr m)
      show ?thesis
      proof (cases "m = 0")
        case True
        with Inr to[OF size_none[OF 1(1)]] 1(2) show ?thesis by (auto simp: wp_simps ended_def)
      next
        case False
        have bumping: "?run (Bumping c n, view (srv w2))" using to[OF size_some[OF 1(1)]] 1(2) Inr False by blast
        have "wp (roll_over X S a u i c) (\<lambda>r w'. case r of Inl e \<Rightarrow> ?Q (Inl e) w'
            | Inr c' \<Rightarrow> wp (place_loop X S a u i (MapPut EVENTS k v) n c') ?Q w') w2"
        proof (rule wp_mono[OF wp_roll_run[OF s2, of c k v n]], elim conjE, goal_cases)
          case (1 r w3)
          have run: "?run (next_round r n, view (srv w3))" using bumping 1(1) by (rule rtranclp_trans)
          show ?case
          proof (cases r)
            case (Inl e)
            with run show ?thesis by (auto simp: ended_def)
          next
            case (Inr c')
            from Suc.IH[OF 1(2), of c'] have "wp (place_loop X S a u i (MapPut EVENTS k v) n c') ?Q w3"
              by (rule wp_mono) (use run Inr in \<open>auto intro: rtranclp_trans\<close>)
            with Inr show ?thesis by simp
          qed
        qed
        then show ?thesis using Inr False by (simp add: wp_bindE wp_retE cong: sum.case_cong)
      qed
    qed
  qed
  show ?case
    unfolding place_loop.simps next_round.simps Let_def wp_bindE[of "catchE _ _ _"] wp_catchE wp_thenE wp_retE
  proof (rule wp_mono[OF retry], elim exE conjE, goal_cases)
    case (1 r w1 d1)
    have s: "has_session S a u i (view (srv w1))" using has_session_attempt(1)[OF 1(2,3)] .
    note to = rtranclp.rtrancl_into_rtrancl[OF 1(1)]
    show ?case
    proof (cases r)
      case (Inr out)
      with to[OF put_done] 1(3) show ?thesis by (auto simp: wp_simps ended_def)
    next
      case (Inl e)
      show ?thesis
      proof (cases "e = AE RecordTooBig")
        case True
        have "?run (Sizing c n, view (srv w1))" using to[OF put_full] 1(3) Inl True by simp
        from handler[OF this s] Inl True show ?thesis by (simp add: is_ae_def)
      next
        case False
        with to[OF put_fails] 1(3) Inl show ?thesis by (auto simp: is_ae_def ended_def)
      qed
    qed
  qed
qed

lemma wp_place_event_run:
  assumes "has_session S a u i (view (srv w))"
  shows "wp (place_event X S a u i c (MapPut EVENTS k v) overflow)
    (\<lambda>r w'. \<exists>p. writer_run fits S a u i k v
        (if overflow then Bumping c max_attempts else Putting c (max_attempts - 1), view (srv w)) (p, view (srv w'))
      \<and> ended r p) w"
proof (cases overflow)
  case False
  from wp_place_run[OF assms, of k v max_attempts c] False show ?thesis
    by (simp add: place_event_def wp_simps max_attempts_def numeral_eq_Suc)
next
  case True
  let ?Q = "\<lambda>r w'. \<exists>p. writer_run fits S a u i k v (Bumping c max_attempts, view (srv w)) (p, view (srv w')) \<and> ended r p"
  have "wp (roll_over X S a u i c) (\<lambda>r w'. case r of Inl e \<Rightarrow> ?Q (Inl e) w'
      | Inr c' \<Rightarrow> wp (place_loop X S a u i (MapPut EVENTS k v) max_attempts c') ?Q w') w"
  proof (rule wp_mono[OF wp_roll_run[OF assms, of c k v max_attempts]], elim conjE, goal_cases)
    case (1 r w1)
    show ?case
    proof (cases r)
      case (Inl e)
      with 1 show ?thesis by (auto simp: ended_def)
    next
      case (Inr c')
      from wp_place_run[OF 1(2), of k v max_attempts c']
      have "wp (place_loop X S a u i (MapPut EVENTS k v) max_attempts c') ?Q w1"
        by (rule wp_mono) (use 1(1) Inr in \<open>auto intro: rtranclp_trans\<close>)
      with Inr show ?thesis by simp
    qed
  qed
  with True show ?thesis by (simp add: place_event_def wp_bindE)
qed

end

section \<open>Properties\<close>

text \<open>
  C4. \<open>place_event\<close> is a run of the state machine: whatever faults occur, the requests that a
  sequential execution sends and the store it leaves are those of some run of \<open>writer_step\<close>, from
  the first put (or from the rollover, after an overflow) to \<open>Stored\<close> if the call returned and to
  \<open>Gave_up\<close> with the same exception if it raised. What is proved of all interleavings of the
  machine is therefore proved of the code.
\<close>

theorem place_event_runs_machine:
  assumes "aerospike_client X view fits" "view (srv w) (session_pk S a u i) \<noteq> None"
    "place_event X S a u i c (MapPut EVENTS k v) overflow w = (r, w')"
  shows "\<exists>p. (writer_step fits S a u i k v)\<^sup>*\<^sup>*
        (if overflow then Bumping c max_attempts else Putting c (max_attempts - 1), view (srv w)) (p, view (srv w'))
     \<and> (case r of Inl e \<Rightarrow> p = Gave_up e | Inr _ \<Rightarrow> \<exists>g. p = Stored g)"
  using wpD[OF aerospike_client.wp_place_event_run[OF assms(1)] assms(3)] assms(2)
  by (simp add: has_session_def ended_def)

text \<open>
  C3. Any number of processes may append different events to one session at the same time, in
  any interleaving of their requests and under any faults. The index \<open>cur\<close> never goes back, and
  every segment it passes holds an event, so no rollover skips a segment or happens twice for one
  full segment. Every event is in at most one segment, an event whose append returned is in one,
  with its value, and stays there. Nothing that was stored is lost or changed, nothing else gets
  into a segment, and outside the segments only the bin \<open>cur\<close> changes. The writers start with an
  index that is not beyond \<open>cur\<close>, as a cached or a freshly read one is.
\<close>

theorem concurrent_appends:
  assumes "reachable fits S a u i job (pcs0, d0) (pcs, d)"
    and "pure_segs d0 S a u i" "cur_at d0 S a u i = Some cur0" "fresh_jobs S a u i job d0"
    and "\<And>j. \<exists>c n. pcs0 j = Putting c n \<and> c \<le> cur0"
  shows "(\<exists>cur \<ge> cur0. cur_at d S a u i = Some cur \<and> (\<forall>g. cur0 \<le> g \<and> g < cur \<longrightarrow> seg d S a u i g \<noteq> []))
    \<and> (\<forall>j. \<exists>c. \<forall>g. g \<noteq> c \<longrightarrow> map_of (seg d S a u i g) (fst (job j)) = None)
    \<and> (\<forall>j c. pcs j = Stored c \<longrightarrow> map_of (seg d S a u i c) (fst (job j)) = Some (snd (job j)))
    \<and> (\<forall>g k v. map_of (seg d0 S a u i g) k = Some v \<longrightarrow> map_of (seg d S a u i g) k = Some v)
    \<and> (\<forall>g k v. map_of (seg d S a u i g) k = Some v \<longrightarrow>
         map_of (seg d0 S a u i g) k = Some v \<or> (\<exists>j. job j = (k, v)))
    \<and> outside_same S a u i d0 d"
proof -
  have "race_inv fits S a u i job cur0 d0 pcs d"
    using reachable_inv[OF assms(1,4) race_inv_start[OF assms(2-5)]] by simp
  then obtain cur where inv: "segs_ok fits S a u i job d0 d" "outside_same S a u i d0 d" "cur_at d S a u i = Some cur"
    "cur0 \<le> cur" "none_skipped S a u i cur0 cur d" and pcs: "\<And>j. pc_ok S a u i (job j) cur d (pcs j)"
    unfolding race_inv_def by blast
  have "\<exists>c. \<forall>g. g \<noteq> c \<longrightarrow> map_of (seg d S a u i g) (fst (job j)) = None" for j
    using pc_ok_only_in[OF pcs] unfolding only_in_def .
  moreover have "map_of (seg d S a u i c) (fst (job j)) = Some (snd (job j))" if "pcs j = Stored c" for j c
    using pcs[of j] that by simp
  moreover have "map_of (seg d0 S a u i g) k = Some v \<Longrightarrow> map_of (seg d S a u i g) k = Some v" for g k v
    using inv(1) by (fastforce simp: segs_ok_def map_le_def dom_def)
  moreover have "map_of (seg d S a u i g) k = Some v \<Longrightarrow>
      map_of (seg d0 S a u i g) k = Some v \<or> (\<exists>j. job j = (k, v))" for g k v
    using inv(1) unfolding segs_ok_def by blast
  ultimately show ?thesis using inv unfolding none_skipped_def by blast
qed

section \<open>Witnesses\<close>

theorem place_event_runs_machine_witness:
  "\<exists>r w' p. place_event (scripted_ext 1000) demo_schema ''app'' ''ann'' ''s1'' 0 (MapPut EVENTS ''k'' (PDict [])) False
       (demo_world demo_records [(Applied TimeoutError, [])]) = (r, w')
     \<and> (writer_step (size_limit 1000) demo_schema ''app'' ''ann'' ''s1'' ''k'' (PDict []))\<^sup>*\<^sup>*
         (Putting 0 63, map_of demo_records) (p, mem_view (srv w'))"
proof -
  let ?w = "demo_world demo_records [(Applied TimeoutError, [])]"
  have v: "mem_view (srv ?w) = map_of demo_records" by simp
  have s: "mem_view (srv ?w) (session_pk demo_schema ''app'' ''ann'' ''s1'') \<noteq> None"
    unfolding v by code_simp
  obtain r w' where run: "place_event (scripted_ext 1000) demo_schema ''app'' ''ann'' ''s1'' 0
      (MapPut EVENTS ''k'' (PDict [])) False ?w = (r, w')" by fastforce
  from place_event_runs_machine[OF scripted.aerospike_client_axioms s run] run show ?thesis
    unfolding v by (auto simp: max_attempts_def)
qed

text \<open>Segments that hold one event: the first writer fills segment 0, the second rolls over.\<close>

definition one_event :: "bins \<Rightarrow> bool" where
  "one_event bs \<longleftrightarrow> length (events_of bs) \<le> 1"

definition race_job :: job where
  "race_job j = (replicate j (CHR ''x''), PDict [])"

definition race_store :: db where
  "race_store = [session_pk demo_schema ''app'' ''ann'' ''s1'' \<mapsto> [(CUR_SEGMENT, PInt 0)]]"

lemma operate_read_unchanged:
  "fst (operate_db fits pk ops g d) = Inr out \<Longrightarrow> \<not> list_ex modifies ops \<Longrightarrow> \<not> list_ex creates ops \<Longrightarrow>
   snd (operate_db fits pk ops g d) = d"
  by (auto simp: operate_db_def run_ops_def split: option.splits sum.splits prod.splits if_splits)

lemma fine: "f d = (Inr out, d') \<Longrightarrow> attempt_ok f d (Inr out) d'" "f d = (Inl e, d') \<Longrightarrow> attempt_ok f d (Inl (AE e)) d'"
  by (simp_all add: attempt_ok_def)

lemma race_move:
  "reachable fits S a u i job s0 (pcs, d) \<Longrightarrow> pcs j = p \<Longrightarrow>
   writer_step fits S a u i (fst (job j)) (snd (job j)) (p, d) (p', d') \<Longrightarrow>
   reachable fits S a u i job s0 (pcs(j := p'), d')"
  using reachable.step race_step.move by blast

lemma race_runs:
  "\<exists>pcs d. reachable one_event demo_schema ''app'' ''ann'' ''s1'' race_job (\<lambda>_. Putting 0 63, race_store) (pcs, d)
     \<and> pcs 0 = Stored 0 \<and> pcs 1 = Stored 1"
proof -
  let ?put = "\<lambda>j c. put_req one_event demo_schema ''app'' ''ann'' ''s1'' (fst (race_job j)) (snd (race_job j)) c"
  let ?size = "size_req one_event demo_schema ''app'' ''ann'' ''s1'' 0"
  let ?bump = "bump_req one_event demo_schema ''app'' ''ann'' ''s1'' 0"
  let ?R = "reachable one_event demo_schema ''app'' ''ann'' ''s1'' race_job (\<lambda>_. Putting 0 63, race_store)"
  have ans: "fst (?put 0 0 race_store) = Inr [(EVENTS, PInt 1)]"
    "fst (?put 1 0 (snd (?put 0 0 race_store))) = Inl RecordTooBig"
    "fst (?size (snd (?put 0 0 race_store))) = Inr [(EVENTS, PInt 1)]"
    "fst (?bump (snd (?put 0 0 race_store))) = Inr [(CUR_SEGMENT, PInt 1)]"
    "fst (?put 1 1 (snd (?bump (snd (?put 0 0 race_store))))) = Inr [(EVENTS, PInt 1)]"
    by code_simp+
  obtain d1 where d1: "?put 0 0 race_store = (Inr [(EVENTS, PInt 1)], d1)" using ans(1) by (metis prod.collapse)
  obtain d2 where d2: "?bump d1 = (Inr [(CUR_SEGMENT, PInt 1)], d2)" using ans(4) d1 by (metis prod.collapse snd_conv)
  obtain d3 where d3: "?put 1 1 d2 = (Inr [(EVENTS, PInt 1)], d3)" using ans(5) d1 d2 by (metis prod.collapse snd_conv)
  have full: "?put 1 0 d1 = (Inl RecordTooBig, d1)"
    using ans(2) d1 req_errors(1) unfolding errors_pure_def by (metis prod.collapse snd_conv)
  have "snd (?size d1) = d1"
    unfolding size_req_def
    by (rule operate_read_unchanged[where out = "[(EVENTS, PInt 1)]"]) (use ans(3) d1 in \<open>simp_all add: size_req_def\<close>)
  then have size: "?size d1 = (Inr [(EVENTS, PInt 1)], d1)" using ans(3) d1 by (metis prod.collapse snd_conv)
  have mv: "?R (pcs, d) \<Longrightarrow> pcs j = p \<Longrightarrow>
      writer_step one_event demo_schema ''app'' ''ann'' ''s1'' (fst (race_job j)) (snd (race_job j)) (p, d) (p', d') \<Longrightarrow>
      ?R (pcs(j := p'), d')" for pcs d j p p' d' by (rule race_move)
  have next_ok: "next_round (new_cur 0 (Inr [(CUR_SEGMENT, PInt 1)])) 63 = Putting 1 62"
    by (simp add: new_cur_def dget_def numeral_eq_Suc)
  have sz: "size_of (Inr [(EVENTS, PInt 1)]) = Inr 1" by (simp add: size_of_def dget_def)
  let ?p0 = "\<lambda>_ :: nat. Putting 0 63"
  have "?R (?p0(0 := Stored 0), d1)" by (rule mv[OF reachable.start refl put_done[OF fine(1)[where f = "?put 0 0", OF d1]]])
  then have "?R (?p0(0 := Stored 0, 1 := Sizing 0 63), d1)"
    by (rule mv[OF _ _ put_full[OF fine(2)[where f = "?put 1 0", OF full]]]) simp
  then have "?R (?p0(0 := Stored 0, 1 := Sizing 0 63, 1 := Bumping 0 63), d1)"
    by (rule mv[OF _ _ size_some[OF fine(1)[where f = ?size, OF size] sz]]) simp_all
  then have "?R (?p0(0 := Stored 0, 1 := Sizing 0 63, 1 := Bumping 0 63, 1 := Putting 1 62), d2)"
    by (rule mv[OF _ _ bump_done[OF fine(1)[where f = ?bump, OF d2], where n = 63, unfolded next_ok]]) simp
  then have "?R (?p0(0 := Stored 0, 1 := Sizing 0 63, 1 := Bumping 0 63, 1 := Putting 1 62, 1 := Stored 1), d3)"
    by (rule mv[OF _ _ put_done[OF fine(1)[where f = "?put 1 1", OF d3]]]) simp
  then show ?thesis by (intro exI conjI) (assumption, simp_all)
qed

theorem concurrent_appends_witness:
  "\<exists>d. map_of (seg d demo_schema ''app'' ''ann'' ''s1'' 0) [] = Some (PDict [])
     \<and> map_of (seg d demo_schema ''app'' ''ann'' ''s1'' 1) ''x'' = Some (PDict [])
     \<and> (\<exists>cur \<ge> 0. cur_at d demo_schema ''app'' ''ann'' ''s1'' = Some cur)"
proof -
  obtain pcs d where d: "reachable one_event demo_schema ''app'' ''ann'' ''s1'' race_job (\<lambda>_. Putting 0 63, race_store) (pcs, d)"
    and pcs: "pcs 0 = Stored 0" "pcs 1 = Stored 1" using race_runs by blast
  have none: "race_store (segment_pk demo_schema ''app'' ''ann'' ''s1'' g) = None" for g
    by (simp add: race_store_def)
  have "pure_segs race_store demo_schema ''app'' ''ann'' ''s1''" by (simp add: pure_segs_def none)
  moreover have "cur_at race_store demo_schema ''app'' ''ann'' ''s1'' = Some 0"
    by (simp add: cur_at_def race_store_def)
  moreover have "fresh_jobs demo_schema ''app'' ''ann'' ''s1'' race_job race_store"
    by (simp add: fresh_jobs_def absent_def seg_def none race_job_def inj_def)
  ultimately have c: "(\<exists>cur \<ge> 0. cur_at d demo_schema ''app'' ''ann'' ''s1'' = Some cur)"
    "\<And>j c. pcs j = Stored c \<Longrightarrow>
       map_of (seg d demo_schema ''app'' ''ann'' ''s1'' c) (fst (race_job j)) = Some (snd (race_job j))"
    using concurrent_appends[OF d, of 0] by (blast, blast)
  from c(1) c(2)[OF pcs(1)] c(2)[OF pcs(2)] show ?thesis by (auto simp: race_job_def)
qed

end
