(* ===== verification/Concurrent_Saves.thy ===== *)
theory Concurrent_Saves
  imports Artifact_Proofs
begin

text \<open>
  Several processes save to one artifact file at the same time. \<open>save_artifact\<close> sends two requests,
  the atomic step of the version counter and the create-only put of the version, and between them
  any number of requests of others may run. \<open>saver_step\<close> is the method cut at its requests, with the
  faults of the sequential model; \<open>saves_step\<close> lets any process move.
\<close>

section \<open>The method as a state machine\<close>

datatype save_pc =
    Allocating
  | Storing int
  | Saved int
  | Save_failed exn

definition alloc_req :: "(bins \<Rightarrow> bool) \<Rightarrow> schema \<Rightarrow> string \<Rightarrow> string \<Rightarrow> string \<Rightarrow> string
    \<Rightarrow> db \<Rightarrow> (ae_error + bins) \<times> db" where
  "alloc_req fits S a u s f = operate_db fits (head_pk S a u s f) allocate_ops None"

definition store_req :: "(bins \<Rightarrow> bool) \<Rightarrow> schema \<Rightarrow> string \<Rightarrow> string \<Rightarrow> string \<Rightarrow> string \<Rightarrow> int \<Rightarrow> bins
    \<Rightarrow> db \<Rightarrow> (ae_error + response) \<times> db" where
  "store_req fits S a u s f v bs = put_db fits (version_pk S a u s f v) bs True"

text \<open>\<open>_allocate_version\<close> on the answer.\<close>

definition version_of :: "bins exc \<Rightarrow> int exc" where
  "version_of r = ebind r (\<lambda>result.
     let current = pget result VERSION in if current = PNone then Inr 0 else py_int current)"

inductive saver_step ::
  "(bins \<Rightarrow> bool) \<Rightarrow> schema \<Rightarrow> string \<Rightarrow> string \<Rightarrow> string \<Rightarrow> string \<Rightarrow> part \<Rightarrow> dict option
   \<Rightarrow> save_pc \<times> db \<Rightarrow> save_pc \<times> db \<Rightarrow> bool"
  for fits S a u s f p meta
where
  alloc_done: "attempt_ok (alloc_req fits S a u s f) d r d' \<Longrightarrow> version_of r = Inr v \<Longrightarrow>
    mime_for_part p = Inr mime \<Longrightarrow>
    saver_step fits S a u s f p meta (Allocating, d) (Storing v, d')"
| unsupported: "attempt_ok (alloc_req fits S a u s f) d r d' \<Longrightarrow> version_of r = Inr v \<Longrightarrow>
    mime_for_part p = Inl e \<Longrightarrow>
    saver_step fits S a u s f p meta (Allocating, d) (Save_failed e, d')"
| alloc_fails: "attempt_ok (alloc_req fits S a u s f) d r d' \<Longrightarrow> version_of r = Inl e \<Longrightarrow>
    saver_step fits S a u s f p meta (Allocating, d) (Save_failed e, d')"
| store_done: "mime_for_part p = Inr mime \<Longrightarrow> bytes_for_part p = Inr data \<Longrightarrow>
    attempt_ok (store_req fits S a u s f v (artifact_bins a u s f v mime data now meta)) d (Inr out) d' \<Longrightarrow>
    saver_step fits S a u s f p meta (Storing v, d) (Saved v, d')"
| store_fails: "mime_for_part p = Inr mime \<Longrightarrow> bytes_for_part p = Inr data \<Longrightarrow>
    attempt_ok (store_req fits S a u s f v (artifact_bins a u s f v mime data now meta)) d (Inl e) d' \<Longrightarrow>
    saver_step fits S a u s f p meta (Storing v, d) (Save_failed e, d')"

text \<open>Any number of processes, each with the part and the metadata of its own call.\<close>

type_synonym save_job = "nat \<Rightarrow> part \<times> dict option"

inductive saves_step ::
  "(bins \<Rightarrow> bool) \<Rightarrow> schema \<Rightarrow> string \<Rightarrow> string \<Rightarrow> string \<Rightarrow> string \<Rightarrow> save_job
   \<Rightarrow> (nat \<Rightarrow> save_pc) \<times> db \<Rightarrow> (nat \<Rightarrow> save_pc) \<times> db \<Rightarrow> bool"
  for fits S a u s f job
where
  saves: "saver_step fits S a u s f (fst (job j)) (snd (job j)) (pcs j, d) (p, d') \<Longrightarrow>
    saves_step fits S a u s f job (pcs, d) (pcs(j := p), d')"

inductive_cases saves_stepE: "saves_step fits S a u s f job (pcs, d) (pcs', d')"
inductive_cases from_allocating: "saver_step fits S a u s f p meta (Allocating, d) (q, d')"
inductive_cases from_storing: "saver_step fits S a u s f p meta (Storing v, d) (q, d')"
inductive_simps from_saved [simp]:
  "saver_step fits S a u s f p meta (Saved v, d) y"
  "saver_step fits S a u s f p meta (Save_failed e, d) y"

section \<open>What a request does\<close>

lemma alloc_result:
  assumes rep: "file_rep S d a u s f n m" and at: "attempt_ok (alloc_req fits S a u s f) d r d'"
  shows "d' = d \<or> d' = counted d (head_pk S a u s f) (n + 1)"
    and "version_of r = Inr v \<Longrightarrow> v = n \<and> d' = counted d (head_pk S a u s f) (n + 1)"
    and "version_of r \<noteq> Inl (AE RecordExistsError)"
proof -
  let ?k = "head_pk S a u s f"
  have n: "head_count d ?k = Some n" by (rule file_rep_count[OF rep])
  have "(\<exists>out. alloc_req fits S a u s f d = (Inr out, counted d ?k (n + 1)) \<and> version_of (Inr out) = Inr n)
      \<or> alloc_req fits S a u s f d = (Inl RecordTooBig, d)"
  proof (cases "d ?k")
    case None
    with n show ?thesis
      by (auto simp: alloc_req_def head_count_def counted_def rec_at_def operate_db_def run_ops_def
          allocate_ops_def dget_def version_of_def)
  next
    case (Some bs)
    with n have "map_of bs VERSION = Some (PInt n)"
      by (simp add: head_count_def split: option.splits pyval.splits)
    with Some show ?thesis
      by (auto simp: alloc_req_def counted_def rec_at_def operate_db_def run_ops_def allocate_ops_def version_of_def)
  qed
  with at show "d' = d \<or> d' = counted d ?k (n + 1)"
    "version_of r = Inr v \<Longrightarrow> v = n \<and> d' = counted d ?k (n + 1)"
    "version_of r \<noteq> Inl (AE RecordExistsError)"
    by (auto simp: attempt_ok_def version_of_def transient_def)
qed

lemma store_result:
  assumes "d (version_pk S a u s f v) = None"
    and "attempt_ok (store_req fits S a u s f v (artifact_bins a u s f v mime data now meta)) d r d'"
  shows "d' = d \<or> d' = d(version_pk S a u s f v \<mapsto> stored_row a u s f v mime data now meta)"
    and "r = Inr out \<Longrightarrow> d' = d(version_pk S a u s f v \<mapsto> stored_row a u s f v mime data now meta)"
    and "r \<noteq> Inl (AE RecordExistsError)"
  using assms by (auto simp: attempt_ok_def store_req_def put_db_def stored_row_def transient_def Let_def split: if_splits)

section \<open>The invariant\<close>

fun holds :: "save_pc \<Rightarrow> int option" where
  "holds (Storing v) = Some v"
| "holds (Saved v) = Some v"
| "holds _ = None"

text \<open>The row that a process writes under a version, at some time.\<close>

definition job_row :: "string \<Rightarrow> string \<Rightarrow> string \<Rightarrow> string \<Rightarrow> part \<times> dict option \<Rightarrow> int \<Rightarrow> bins \<Rightarrow> bool" where
  "job_row a u s f j v bs \<longleftrightarrow> (\<exists>mime data now. mime_for_part (fst j) = Inr mime \<and> bytes_for_part (fst j) = Inr data
     \<and> bs = stored_row a u s f v mime data now (snd j))"

definition saves_ok ::
  "schema \<Rightarrow> string \<Rightarrow> string \<Rightarrow> string \<Rightarrow> string \<Rightarrow> save_job \<Rightarrow> int \<Rightarrow> (int \<Rightarrow> bins option) \<Rightarrow> db
   \<Rightarrow> int \<Rightarrow> (int \<Rightarrow> bins option) \<Rightarrow> (nat \<Rightarrow> save_pc) \<Rightarrow> db \<Rightarrow> bool" where
  "saves_ok S a u s f job n0 m0 d0 n m pcs d \<longleftrightarrow>
     file_rep S d a u s f n m \<and> 0 \<le> n0 \<and> n0 \<le> n \<and> m0 \<subseteq>\<^sub>m m
     \<and> (\<forall>j v. holds (pcs j) = Some v \<longrightarrow> n0 \<le> v \<and> v < n)
     \<and> (\<forall>j k v. holds (pcs j) = Some v \<longrightarrow> holds (pcs k) = Some v \<longrightarrow> j = k)
     \<and> (\<forall>j v. pcs j = Storing v \<longrightarrow> m v = None)
     \<and> (\<forall>j v. pcs j = Saved v \<longrightarrow> (\<exists>bs. m v = Some bs \<and> job_row a u s f (job j) v bs))
     \<and> (\<forall>v bs. m v = Some bs \<longrightarrow> m0 v = Some bs \<or> n0 \<le> v \<and> (\<exists>j. job_row a u s f (job j) v bs))
     \<and> (\<forall>j. pcs j \<noteq> Save_failed (AE RecordExistsError))
     \<and> (\<forall>k. k \<noteq> head_pk S a u s f \<longrightarrow> k \<notin> range (version_pk S a u s f) \<longrightarrow> d k = d0 k)"

lemma job_row_is_row: "job_row a u s f j v bs \<Longrightarrow> is_row (scope_tuple a u s) f bs \<and> map_of bs VERSION = Some (PInt v)"
  by (auto simp: job_row_def)

text \<open>A process that ends without holding a version changes nothing that the invariant says.\<close>

lemma saves_ok_failed:
  assumes "saves_ok S a u s f job n0 m0 d0 n m pcs d" "e \<noteq> AE RecordExistsError"
  shows "saves_ok S a u s f job n0 m0 d0 n m (pcs(j := Save_failed e)) d"
  using assms unfolding saves_ok_def by auto

text \<open>The counter is stepped, with or without an answer.\<close>

lemma saves_ok_counted:
  assumes "saves_ok S a u s f job n0 m0 d0 n m pcs d"
  shows "saves_ok S a u s f job n0 m0 d0 (n + 1) m pcs (counted d (head_pk S a u s f) (n + 1))"
  using assms file_rep_counted[of S d a u s f n m] unfolding saves_ok_def
  by (auto simp: less_le_trans) (meson le_less_trans less_imp_le zless_add1_eq)+

lemma saves_ok_stored:
  assumes ok: "saves_ok S a u s f job n0 m0 d0 n m pcs d" and v: "pcs j = Storing v" and row: "job_row a u s f (job j) v bs"
  shows "saves_ok S a u s f job n0 m0 d0 n (m(v \<mapsto> bs)) (pcs(j := Saved v)) (d(version_pk S a u s f v \<mapsto> bs))"
    and "e \<noteq> AE RecordExistsError \<Longrightarrow>
      saves_ok S a u s f job n0 m0 d0 n (m(v \<mapsto> bs)) (pcs(j := Save_failed e)) (d(version_pk S a u s f v \<mapsto> bs))"
proof -
  have rep: "file_rep S d a u s f n m" and at: "0 \<le> n0" "n0 \<le> v" "v < n" "m v = None"
    and other: "k \<noteq> j \<Longrightarrow> holds (pcs k) \<noteq> Some v" for k
    using ok v unfolding saves_ok_def by (blast, blast, metis holds.simps(1), metis holds.simps(1), blast, metis holds.simps(1))
  have new: "file_rep S (d(version_pk S a u s f v \<mapsto> bs)) a u s f n (m(v \<mapsto> bs))"
    using job_row_is_row[OF row] at by (intro file_rep_stored[OF rep]) simp_all
  have sub: "m0 \<subseteq>\<^sub>m m(v \<mapsto> bs)"
    using ok at(4) unfolding saves_ok_def map_le_def by (metis domIff fun_upd_apply)
  have others: "pcs k \<noteq> Storing v" "pcs k \<noteq> Saved v" if "k \<noteq> j" for k
    using other[OF that] by auto
  show "saves_ok S a u s f job n0 m0 d0 n (m(v \<mapsto> bs)) (pcs(j := Saved v)) (d(version_pk S a u s f v \<mapsto> bs))"
    using ok new sub row at others v other unfolding saves_ok_def by (auto split: if_splits)
  show "e \<noteq> AE RecordExistsError \<Longrightarrow>
      saves_ok S a u s f job n0 m0 d0 n (m(v \<mapsto> bs)) (pcs(j := Save_failed e)) (d(version_pk S a u s f v \<mapsto> bs))"
    using ok new sub row at others unfolding saves_ok_def by (auto split: if_splits)
qed

lemma saves_ok_allocated:
  assumes ok: "saves_ok S a u s f job n0 m0 d0 n m pcs d"
  shows "saves_ok S a u s f job n0 m0 d0 (n + 1) m (pcs(j := Storing n)) (counted d (head_pk S a u s f) (n + 1))"
proof -
  have c: "saves_ok S a u s f job n0 m0 d0 (n + 1) m pcs (counted d (head_pk S a u s f) (n + 1))"
    by (rule saves_ok_counted[OF ok])
  have "file_rep S d a u s f n m" using ok unfolding saves_ok_def by blast
  then have free: "m n = None" using file_rep_dom by fastforce
  have new: "holds (pcs k) \<noteq> Some n" for k using ok unfolding saves_ok_def by blast
  have "n0 \<le> n" using ok unfolding saves_ok_def by blast
  let ?pcs = "pcs(j := Storing n)"
  have "\<forall>i v. holds (?pcs i) = Some v \<longrightarrow> n0 \<le> v \<and> v < n + 1"
    using c \<open>n0 \<le> n\<close> unfolding saves_ok_def by simp
  moreover have "\<forall>i k v. holds (?pcs i) = Some v \<longrightarrow> holds (?pcs k) = Some v \<longrightarrow> i = k"
    using c new unfolding saves_ok_def by (auto split: if_splits)
  moreover have "\<forall>i v. ?pcs i = Storing v \<longrightarrow> m v = None"
    using c free unfolding saves_ok_def by simp
  moreover have "\<forall>i v. ?pcs i = Saved v \<longrightarrow> (\<exists>bs. m v = Some bs \<and> job_row a u s f (job i) v bs)"
    using c unfolding saves_ok_def by simp
  moreover have "\<forall>i. ?pcs i \<noteq> Save_failed (AE RecordExistsError)"
    using c unfolding saves_ok_def by simp
  ultimately show ?thesis using c unfolding saves_ok_def by (elim conjE, intro conjI) assumption+
qed

lemma unsupported_error: "mime_for_part p = Inl e \<Longrightarrow> e \<noteq> AE x"
  by (auto simp: mime_for_part_def split: option.splits if_splits)

lemma saves_ok_step:
  assumes ok: "saves_ok S a u s f job n0 m0 d0 n m pcs d"
    and step: "saves_step fits S a u s f job (pcs, d) (pcs', d')"
  shows "\<exists>n m. saves_ok S a u s f job n0 m0 d0 n m pcs' d'"
proof -
  have rep: "file_rep S d a u s f n m" using ok unfolding saves_ok_def by blast
  from step obtain j q where q: "saver_step fits S a u s f (fst (job j)) (snd (job j)) (pcs j, d) (q, d')" "pcs' = pcs(j := q)"
    by (rule saves_stepE)
  show ?thesis
  proof (cases "pcs j")
    case Allocating
    with q(1) have "saver_step fits S a u s f (fst (job j)) (snd (job j)) (Allocating, d) (q, d')" by simp
    then show ?thesis
    proof (rule from_allocating, goal_cases)
      case (1 r v mime)
      with alloc_result(2)[OF rep 1(2,3)] saves_ok_allocated[OF ok] q(2) show ?thesis by auto
    next
      case (2 r v e)
      have "d' = counted d (head_pk S a u s f) (n + 1)" using alloc_result(2)[OF rep 2(2,3)] by blast
      with saves_ok_failed[OF saves_ok_counted[OF ok]] unsupported_error[OF 2(4)] q(2) 2(1) show ?thesis by blast
    next
      case (3 r e)
      have "e \<noteq> AE RecordExistsError" using alloc_result(3)[OF rep 3(2)] 3(3) by auto
      with alloc_result(1)[OF rep 3(2)] saves_ok_failed[OF saves_ok_counted[OF ok]] saves_ok_failed[OF ok] q(2) 3(1)
      show ?thesis by blast
    qed
  next
    case (Storing v)
    with q(1) have st: "saver_step fits S a u s f (fst (job j)) (snd (job j)) (Storing v, d) (q, d')" by simp
    have "m v = None" using ok Storing unfolding saves_ok_def by blast
    then have free: "d (version_pk S a u s f v) = None" using file_rep_map[OF rep] by simp
    from st show ?thesis
    proof (rule from_storing, goal_cases)
      case (1 mime data now out)
      have "job_row a u s f (job j) v (stored_row a u s f v mime data now (snd (job j)))"
        using 1(2,3) unfolding job_row_def by blast
      from saves_ok_stored(1)[OF ok Storing this] store_result(2)[OF free 1(4) refl] q(2) 1(1) show ?thesis by auto
    next
      case (2 mime data now e)
      have "job_row a u s f (job j) v (stored_row a u s f v mime data now (snd (job j)))"
        using 2(2,3) unfolding job_row_def by blast
      moreover have "e \<noteq> AE RecordExistsError" using store_result(3)[OF free 2(4)] by auto
      ultimately show ?thesis
        using store_result(1)[OF free 2(4)] saves_ok_stored(2)[OF ok Storing] saves_ok_failed[OF ok] q(2) 2(1) by metis
    qed
  qed (use q(1) in simp_all)
qed

lemma saves_ok_start:
  assumes "file_rep S d0 a u s f n0 m0"
  shows "saves_ok S a u s f job n0 m0 d0 n0 m0 (\<lambda>_. Allocating) d0"
  using assms file_rep_dom[OF assms] by (simp add: saves_ok_def)

lemma saves_ok_reachable:
  assumes "(saves_step fits S a u s f job)\<^sup>*\<^sup>* (\<lambda>_. Allocating, d0) x" "file_rep S d0 a u s f n0 m0"
  shows "\<exists>n m. saves_ok S a u s f job n0 m0 d0 n m (fst x) (snd x)"
  using assms(1)
proof (induction rule: rtranclp_induct)
  case base
  from saves_ok_start[OF assms(2)] show ?case unfolding fst_conv snd_conv by blast
next
  case (step x y)
  then show ?case using saves_ok_step by (cases x; cases y) fastforce
qed

section \<open>The sequential method runs the machine\<close>

context aerospike_client begin

lemma wp_now_any:
  assumes "\<And>s' t. view s' = view (srv w) \<Longrightarrow> Q (Inr t) (w\<lparr>srv := s'\<rparr>)"
  shows "wp (now_time X) Q w"
  using assms time_law[of "srv w"] by (simp add: wp_def now_time_def split: prod.split)

lemma wp_put_attempt:
  "wp (client_put X pk bs c)
     (\<lambda>r w'. \<exists>r0. attempt_ok (put_db fits pk bs c) (view (srv w)) r0 (view (srv w')) \<and> r = ebind r0 (\<lambda>_. Inr ())) w"
  unfolding client_put_def wp_simps
proof (rule wp_call_faulty)
  fix fl fs s'
  let ?d = "view (srv w)"
  assume fl: "fault_ok fl" and v: "view s' = snd (with_fault fl ?d (serve fits (x_code X) fs (RPut pk bs c) ?d))"
  let ?r = "lift_ae (fst (with_fault fl ?d (serve fits (x_code X) fs (RPut pk bs c) ?d)))"
  have "attempt_ok (put_db fits pk bs c) ?d ?r (view s')"
    by (rule attempt_with_fault[OF fl]) (use v in simp_all)
  then show "case ?r of
      Inl e \<Rightarrow> \<exists>r0. attempt_ok (put_db fits pk bs c) ?d r0 (view (srv (w\<lparr>srv := s'\<rparr>))) \<and> Inl e = ebind r0 (\<lambda>_. Inr ())
    | Inr _ \<Rightarrow> \<exists>r0. attempt_ok (put_db fits pk bs c) ?d r0 (view (srv (w\<lparr>srv := s'\<rparr>))) \<and> Inr () = ebind r0 (\<lambda>_. Inr ())"
    by (cases ?r) (auto simp: ebind_def)
qed simp

end

lemma mime_then_bytes: "mime_for_part p = Inr mime \<Longrightarrow> \<exists>data. bytes_for_part p = Inr data"
  by (auto simp: mime_for_part_def bytes_for_part_def split: option.splits if_splits)

definition save_ended :: "int exc \<Rightarrow> save_pc \<Rightarrow> bool" where
  "save_ended r q \<longleftrightarrow> (case r of Inl e \<Rightarrow> q = Save_failed e | Inr v \<Rightarrow> q = Saved v)"

context aerospike_client begin

lemma wp_save_run:
  assumes "ensure_part x = Inr p" "scope_id_of f sid = Inr s"
  shows "wp (save_artifact X ensure_part S a u f x sid meta)
    (\<lambda>r w'. \<exists>q. (saver_step fits S a u s f p meta)\<^sup>*\<^sup>* (Allocating, view (srv w)) (q, view (srv w')) \<and> save_ended r q) w"
proof -
  let ?step = "saver_step fits S a u s f p meta"
  let ?Q = "\<lambda>r w'. \<exists>q. ?step\<^sup>*\<^sup>* (Allocating, view (srv w)) (q, view (srv w')) \<and> save_ended r q"
  have alloc: "wp (allocate_version X S a u s f) (\<lambda>r w'. \<exists>r0. attempt_ok (alloc_req fits S a u s f) (view (srv w)) r0 (view (srv w'))
      \<and> version_of r0 = r) w"
    unfolding allocate_version_def wp_bindE
  proof (rule wp_mono[OF wp_operate_attempt], simp, elim conjE, goal_cases)
    case (1 r w1)
    then show ?case
      by (cases r) (auto simp: wp_simps Let_def version_of_def alloc_req_def intro!: exI[of _ r])
  qed
  show ?thesis
    unfolding save_artifact_def assms wp_bindE[of "liftE (Inr p)"] wp_bindE[of "liftE (Inr s)"] wp_bindE[of "allocate_version _ _ _ _ _ _"]
      wp_liftE sum.case
  proof (rule wp_mono[OF alloc], elim exE conjE, goal_cases)
    case (1 r w1 r0)
    show ?case
    proof (cases r)
      case (Inl e)
      with alloc_fails[OF 1(1)] 1(2) show ?thesis by (auto simp: save_ended_def)
    next
      case (Inr v)
      show ?thesis
      proof (cases "mime_for_part p")
        case (Inl e)
        with unsupported[OF 1(1)] 1(2) Inr show ?thesis by (auto simp: wp_simps save_ended_def)
      next
        case m: (Inr mime)
        then obtain data where b: "bytes_for_part p = Inr data" using mime_then_bytes by blast
        have at: "?step\<^sup>*\<^sup>* (Allocating, view (srv w)) (Storing v, view (srv w1))"
          using alloc_done[OF 1(1) _ m] 1(2) Inr by blast
        have "wp (bindE (now_time X) (\<lambda>now. thenE (client_put X (version_pk S a u s f v)
            (artifact_bins a u s f v mime data now meta) True) (retE v))) ?Q w1"
          unfolding wp_bindE
        proof (rule wp_now_any, unfold sum.case wp_thenE wp_retE, rule wp_mono[OF wp_put_attempt], elim exE conjE, goal_cases)
          case (1 s' now r w2 r1)
          then have "attempt_ok (store_req fits S a u s f v (artifact_bins a u s f v mime data now meta)) (view (srv w1)) r1 (view (srv w2))"
            by (simp add: store_req_def)
          then show ?case
            using rtranclp.rtrancl_into_rtrancl[OF at store_done[OF m b]]
              rtranclp.rtrancl_into_rtrancl[OF at store_fails[OF m b]] 1(3)
            by (cases r1) (auto simp: ebind_def save_ended_def)
        qed
        then show ?thesis by (simp add: Inr m b wp_bindE wp_liftE)
      qed
    qed
  qed
qed

end

section \<open>Properties\<close>

text \<open>A call of \<open>save_artifact\<close> is a run of the machine, whatever fails.\<close>

lemma save_runs_machine:
  assumes "aerospike_client X view fits" "ensure_part x = Inr p" "scope_id_of f sid = Inr s"
    "save_artifact X ensure_part S a u f x sid meta w = (r, w')"
  shows "\<exists>q. (saver_step fits S a u s f p meta)\<^sup>*\<^sup>* (Allocating, view (srv w)) (q, view (srv w'))
    \<and> (case r of Inl e \<Rightarrow> q = Save_failed e | Inr v \<Rightarrow> q = Saved v)"
  using wpD[OF aerospike_client.wp_save_run[where ensure_part = ensure_part and x = x, OF assms(1-3)] assms(4)] by (simp add: save_ended_def)

text \<open>
  C5. Any number of processes may save to one file at the same time, in any interleaving of
  their requests and under any faults. No two calls return the same version, every version that
  is returned is newer than those the file had, holds the row of the call that returned it and
  keeps it; what was stored before is unchanged, every new row is the row of one of the calls,
  nothing outside the file changes, and no call fails because another one took its version.
\<close>

theorem concurrent_saves:
  assumes "(saves_step fits S a u s f job)\<^sup>*\<^sup>* (\<lambda>_. Allocating, d0) (pcs, d)" "file_rep S d0 a u s f n0 m0"
  shows "\<exists>n m. file_rep S d a u s f n m \<and> n0 \<le> n \<and> m0 \<subseteq>\<^sub>m m
    \<and> (\<forall>j k v. pcs j = Saved v \<longrightarrow> pcs k = Saved v \<longrightarrow> j = k)
    \<and> (\<forall>j v. pcs j = Saved v \<longrightarrow> n0 \<le> v \<and> v < n \<and> (\<exists>bs. m v = Some bs \<and> job_row a u s f (job j) v bs))
    \<and> (\<forall>v bs. m v = Some bs \<longrightarrow> m0 v = Some bs \<or> n0 \<le> v \<and> (\<exists>j. job_row a u s f (job j) v bs))
    \<and> (\<forall>j. pcs j \<noteq> Save_failed (AE RecordExistsError))
    \<and> (\<forall>k. k \<noteq> head_pk S a u s f \<longrightarrow> k \<notin> range (version_pk S a u s f) \<longrightarrow> d k = d0 k)"
proof -
  from saves_ok_reachable[OF assms] obtain n m where ok: "saves_ok S a u s f job n0 m0 d0 n m pcs d" by auto
  have held: "pcs j = Saved v \<Longrightarrow> holds (pcs j) = Some v" for j v by simp
  have "\<forall>j k v. pcs j = Saved v \<longrightarrow> pcs k = Saved v \<longrightarrow> j = k"
    "\<forall>j v. pcs j = Saved v \<longrightarrow> n0 \<le> v \<and> v < n \<and> (\<exists>bs. m v = Some bs \<and> job_row a u s f (job j) v bs)"
    using ok held unfolding saves_ok_def by blast+
  then show ?thesis using ok unfolding saves_ok_def by (intro exI[of _ n] exI[of _ m] conjI) blast+
qed

definition two_savers :: save_job where
  "two_savers j = (\<lparr>pt_text = Some (if j = 0 then ''a'' else ''b''), pt_inline_data = None, pt_file_data = None\<rparr>, None)"

lemma two_savers_part [simp]:
  "mime_for_part (fst (two_savers j)) = Inr (Some ''text/plain'')"
  "bytes_for_part (fst (two_savers j)) = Inr (if j = 0 then ''a'' else ''b'')" "snd (two_savers j) = None"
  by (simp_all add: two_savers_def mime_for_part_def bytes_for_part_def)

text \<open>Both allocate, then the later one stores first.\<close>

lemma two_savers_run:
  "\<exists>pcs d. (saves_step (\<lambda>_. True) S a u s f two_savers)\<^sup>*\<^sup>* (\<lambda>_. Allocating, Map.empty) (pcs, d)
     \<and> pcs 0 = Saved 0 \<and> pcs 1 = Saved 1"
proof -
  let ?step = "saves_step (\<lambda>_. True) S a u s f two_savers" and ?k = "head_pk S a u s f"
  let ?d1 = "counted Map.empty ?k 1" and ?d2 = "counted (counted Map.empty ?k 1) ?k 2"
  let ?row = "\<lambda>v b. stored_row a u s f v (Some ''text/plain'') b 0 None"
  let ?d3 = "?d2(version_pk S a u s f 1 \<mapsto> ?row 1 ''b'')"
  let ?p = "\<lambda>_ :: nat. Allocating"
  have alloc: "saver_step (\<lambda>_. True) S a u s f (fst (two_savers j)) (snd (two_savers j)) (Allocating, d) (Storing n, counted d ?k (n + 1))"
    if "head_count d ?k = Some n" for j d n
  proof -
    obtain out where out: "operate_db (\<lambda>_. True) ?k allocate_ops None d = (Inr out, counted d ?k (n + 1))"
      "pget out VERSION = (if d ?k = None then PNone else PInt n)"
      using operate_allocate[OF \<open>head_count d ?k = Some n\<close>, of "\<lambda>_. True"] by (auto simp: counter_fits_def)
    have z: "d ?k = None \<Longrightarrow> n = 0" using that by (simp add: head_count_def)
    show ?thesis
      by (rule alloc_done[where r = "Inr out"]) (use out z in \<open>auto simp: attempt_ok_def alloc_req_def version_of_def\<close>)
  qed
  have store: "saver_step (\<lambda>_. True) S a u s f (fst (two_savers j)) (snd (two_savers j)) (Storing v, d)
      (Saved v, d(version_pk S a u s f v \<mapsto> ?row v (if j = 0 then ''a'' else ''b'')))"
    if "d (version_pk S a u s f v) = None" for j d v
    by (rule store_done[where out = RespNone and now = 0])
      (use that in \<open>simp_all add: attempt_ok_def store_req_def put_db_def stored_row_def Let_def\<close>)
  have move: "?step\<^sup>*\<^sup>* (?p, Map.empty) (pcs, d) \<Longrightarrow> pcs j = p \<Longrightarrow>
      saver_step (\<lambda>_. True) S a u s f (fst (two_savers j)) (snd (two_savers j)) (p, d) (p', d') \<Longrightarrow>
      ?step\<^sup>*\<^sup>* (?p, Map.empty) (pcs(j := p'), d')" for pcs d j p p' d'
    by (erule rtranclp.rtrancl_into_rtrancl) (rule saves, simp)
  have s1: "?step\<^sup>*\<^sup>* (?p, Map.empty) (?p(0 := Storing 0), ?d1)"
    using move[OF rtranclp.rtrancl_refl refl alloc[of Map.empty 0 0]] by (simp add: head_count_def)
  have s2: "?step\<^sup>*\<^sup>* (?p, Map.empty) (?p(0 := Storing 0, 1 := Storing 1), ?d2)"
    using move[OF s1 _ alloc[of ?d1 1 1]] by simp
  have s3: "?step\<^sup>*\<^sup>* (?p, Map.empty) (?p(0 := Storing 0, 1 := Storing 1, 1 := Saved 1), ?d3)"
    using move[OF s2 _ store[of ?d2 1 1]] by simp
  have "\<exists>d. ?step\<^sup>*\<^sup>* (?p, Map.empty) (?p(0 := Storing 0, 1 := Storing 1, 1 := Saved 1, 0 := Saved 0), d)"
    by (rule exI, rule move[OF s3 _ store[of ?d3 0 0]]) simp_all
  then show ?thesis by (auto intro!: exI)
qed

theorem concurrent_saves_witness:
  "\<exists>pcs d bs0 bs1. pcs 0 = Saved 0 \<and> pcs (Suc 0) = Saved 1
     \<and> d (version_pk demo_schema ''app'' ''ann'' ''s1'' ''f'' 0) = Some bs0
     \<and> job_row ''app'' ''ann'' ''s1'' ''f'' (two_savers 0) 0 bs0
     \<and> d (version_pk demo_schema ''app'' ''ann'' ''s1'' ''f'' 1) = Some bs1
     \<and> job_row ''app'' ''ann'' ''s1'' ''f'' (two_savers (Suc 0)) 1 bs1"
proof -
  obtain pcs d where run: "(saves_step (\<lambda>_. True) demo_schema ''app'' ''ann'' ''s1'' ''f'' two_savers)\<^sup>*\<^sup>*
      (\<lambda>_. Allocating, Map.empty) (pcs, d)" and pcs: "pcs 0 = Saved 0" "pcs (Suc 0) = Saved 1"
    using two_savers_run[of demo_schema "''app''" "''ann''" "''s1''" "''f''"] by auto
  have "file_rep demo_schema Map.empty ''app'' ''ann'' ''s1'' ''f'' 0 Map.empty"
    by (simp add: file_rep_def head_count_def)
  from concurrent_saves[OF run this] obtain n m where m: "file_rep demo_schema d ''app'' ''ann'' ''s1'' ''f'' n m"
    and rows: "\<forall>j v. pcs j = Saved v \<longrightarrow> (\<exists>bs. m v = Some bs \<and> job_row ''app'' ''ann'' ''s1'' ''f'' (two_savers j) v bs)"
    by blast
  from rows pcs file_rep_map[OF m] show ?thesis by metis
qed

end
