(* ===== verification/Concurrent_Postings.thy ===== *)
theory Concurrent_Postings
  imports Memory_Contract
begin

text \<open>
  Several processes append to one posting list at the same time. \<open>_append_posting_ref\<close> sends one
  request that appends and reads, and when the list it read was too long a second one that cuts the
  excess off its front; between the two any number of requests of others may run. \<open>poster_step\<close> is
  the method cut at its requests, with the faults of the sequential model.
\<close>

section \<open>The method as a state machine\<close>

datatype post_pc =
    Appending
  | Trimming int
  | Posted
  | Post_failed exn

definition append_req :: "(bins \<Rightarrow> bool) \<Rightarrow> pk \<Rightarrow> pyval \<Rightarrow> db \<Rightarrow> (ae_error + bins) \<times> db" where
  "append_req fits k ref = operate_db fits k [ListAppend MEM_POSTINGS ref, ReadBin MEM_POSTINGS] None"

definition trim_req :: "(bins \<Rightarrow> bool) \<Rightarrow> pk \<Rightarrow> int \<Rightarrow> db \<Rightarrow> (ae_error + bins) \<times> db" where
  "trim_req fits k trim_count = operate_db fits k [ListRemoveByIndexRange MEM_POSTINGS 0 trim_count] None"

text \<open>How many references are too many after the answer; negative when there is room.\<close>

definition trim_count_of :: "bins exc \<Rightarrow> int exc" where
  "trim_count_of r = ebind r (\<lambda>result.
     ebind (list_items (py_or (pget result MEM_POSTINGS) (PList []))) (\<lambda>postings.
       Inr (int (length postings) - int MAX_POSTING_LIST_SIZE)))"

inductive poster_step :: "(bins \<Rightarrow> bool) \<Rightarrow> pk \<Rightarrow> pyval \<Rightarrow> post_pc \<times> db \<Rightarrow> post_pc \<times> db \<Rightarrow> bool"
  for fits k ref
where
  fits_in: "attempt_ok (append_req fits k ref) d r d' \<Longrightarrow> trim_count_of r = Inr n \<Longrightarrow> n \<le> 0 \<Longrightarrow>
    poster_step fits k ref (Appending, d) (Posted, d')"
| too_long: "attempt_ok (append_req fits k ref) d r d' \<Longrightarrow> trim_count_of r = Inr n \<Longrightarrow> 0 < n \<Longrightarrow>
    poster_step fits k ref (Appending, d) (Trimming n, d')"
| append_fails: "attempt_ok (append_req fits k ref) d r d' \<Longrightarrow> trim_count_of r = Inl e \<Longrightarrow>
    poster_step fits k ref (Appending, d) (Post_failed e, d')"
| trim_done: "attempt_ok (trim_req fits k n) d (Inr out) d' \<Longrightarrow>
    poster_step fits k ref (Trimming n, d) (Posted, d')"
| trim_fails: "attempt_ok (trim_req fits k n) d (Inl e) d' \<Longrightarrow>
    poster_step fits k ref (Trimming n, d) (Post_failed e, d')"

inductive posts_step :: "(bins \<Rightarrow> bool) \<Rightarrow> pk \<Rightarrow> (nat \<Rightarrow> pyval) \<Rightarrow> (nat \<Rightarrow> post_pc) \<times> db \<Rightarrow> (nat \<Rightarrow> post_pc) \<times> db \<Rightarrow> bool"
  for fits k ref
where
  posts: "poster_step fits k (ref j) (pcs j, d) (p, d') \<Longrightarrow> posts_step fits k ref (pcs, d) (pcs(j := p), d')"

inductive_cases posts_stepE: "posts_step fits k ref (pcs, d) (pcs', d')"
inductive_cases from_appending: "poster_step fits k ref (Appending, d) (q, d')"
inductive_cases from_trimming: "poster_step fits k ref (Trimming n, d) (q, d')"
inductive_simps from_posted [simp]:
  "poster_step fits k ref (Posted, d) y"
  "poster_step fits k ref (Post_failed e, d) y"

section \<open>What a request does\<close>

definition holds_list :: "db \<Rightarrow> pk \<Rightarrow> pyval list \<Rightarrow> bool" where
  "holds_list d k l \<longleftrightarrow> (case map_of (rec_at d k) MEM_POSTINGS of None \<Rightarrow> l = [] | Some v \<Rightarrow> v = PList l)"

lemma holds_list_postings: "holds_list d k l \<Longrightarrow> postings_of d k = l"
  by (auto simp: holds_list_def postings_of_def rec_at_def split: option.splits)

lemma append_result:
  assumes "holds_list d k l" "attempt_ok (append_req fits k v) d r d'"
  shows "d' = d \<and> (\<exists>e. r = Inl e)
    \<or> d' = d(k \<mapsto> with_postings d k (l @ [v])) \<and> (trim_count_of r = Inr (int (length l) + 1 - int MAX_POSTING_LIST_SIZE) \<or> (\<exists>e. r = Inl e))"
proof -
  let ?r = "with_postings d k (l @ [v])"
  have "append_req fits k v d = (Inl RecordTooBig, d)
      \<or> append_req fits k v d = (Inr [(MEM_POSTINGS, PList (l @ [v]))], d(k \<mapsto> ?r))"
    using assms(1) by (auto simp: append_req_def operate_creating run_ops_def with_postings_def dset_single holds_list_def
        split: option.splits)
  with assms(2) show ?thesis
    by (auto simp: attempt_ok_def trim_count_of_def ebind_def py_or_def dget_def)
qed

lemma trim_result:
  assumes "holds_list d k l" "d k \<noteq> None" "0 \<le> n" "attempt_ok (trim_req fits k n) d r d'"
  shows "d' = d \<and> (\<exists>e. r = Inl e) \<or> (\<exists>bs. d' = d(k \<mapsto> bs) \<and> holds_list d' k (drop (nat n) l))"
proof -
  obtain bs where bs: "d k = Some bs" using assms(2) by blast
  have "trim_req fits k n d = (Inl RecordTooBig, d)
      \<or> (\<exists>bs' out. trim_req fits k n d = (Inr out, d(k \<mapsto> bs')) \<and> holds_list (d(k \<mapsto> bs')) k (drop (nat n) l))"
    using assms(1,3) bs by (auto simp: trim_req_def operate_db_def run_ops_def holds_list_def rec_at_def split: option.splits)
  with assms(4) show ?thesis
    by (auto simp: attempt_ok_def)
qed

lemma holds_list_append: "holds_list (d(k \<mapsto> with_postings d k l)) k l"
  by (simp add: holds_list_def rec_at_def with_postings_def)

section \<open>The invariant\<close>

fun pending :: "post_pc \<Rightarrow> int" where
  "pending (Trimming n) = n"
| "pending _ = 0"

text \<open>The processes that have sent a request, and how much they are about to cut off.\<close>

definition acted :: "(nat \<Rightarrow> post_pc) \<Rightarrow> nat set" where
  "acted pcs = {j. pcs j \<noteq> Appending}"

definition all_pending :: "(nat \<Rightarrow> post_pc) \<Rightarrow> int" where
  "all_pending pcs = (\<Sum>j \<in> acted pcs. pending (pcs j))"

text \<open>\<open>js\<close> are the processes whose reference was appended, in that order, and \<open>m\<close> references were cut off.\<close>

definition posts_shape :: "pk \<Rightarrow> (nat \<Rightarrow> pyval) \<Rightarrow> pyval list \<Rightarrow> db \<Rightarrow> nat list \<Rightarrow> nat \<Rightarrow> (nat \<Rightarrow> post_pc) \<Rightarrow> db \<Rightarrow> bool" where
  "posts_shape k ref l0 d0 js m pcs d \<longleftrightarrow>
     finite (acted pcs) \<and> distinct js \<and> set js \<subseteq> acted pcs \<and> m \<le> length l0 + length js
     \<and> (\<forall>j. pcs j = Posted \<or> (\<exists>n. pcs j = Trimming n) \<longrightarrow> j \<in> set js)
     \<and> holds_list d k (drop m (l0 @ map ref js)) \<and> (js \<noteq> [] \<longrightarrow> d k \<noteq> None)
     \<and> (0 < m \<or> (\<exists>j n. pcs j = Trimming n) \<longrightarrow> 2048 < length l0 + length js)
     \<and> (\<forall>k'. k' \<noteq> k \<longrightarrow> d k' = d0 k')"

definition posts_bounds :: "(nat \<Rightarrow> post_pc) \<Rightarrow> int \<Rightarrow> int \<Rightarrow> bool" where
  "posts_bounds pcs written len \<longleftrightarrow>
     len \<le> 2048 + int (card (acted pcs))
     \<and> (\<forall>j n. pcs j = Trimming n \<longrightarrow> 0 < n \<and> n \<le> int (card (acted pcs)))
     \<and> (len \<le> 2048 \<or> (\<exists>j n. pcs j = Trimming n \<and> len - n \<le> 2048) \<or> (\<exists>j e. pcs j = Post_failed e))
     \<and> min written 2048 - int (card (acted pcs)) ^ 2 \<le> len - all_pending pcs"

lemma acted_upd: "p \<noteq> Appending \<Longrightarrow> acted (pcs(j := p)) = insert j (acted pcs)"
  by (auto simp: acted_def)

lemma pending_upd:
  assumes "finite (acted pcs)" "p \<noteq> Appending"
  shows "all_pending (pcs(j := p)) = all_pending pcs - pending (pcs j) + pending p"
proof -
  let ?A = "acted pcs"
  have "all_pending (pcs(j := p)) = pending p + (\<Sum>i \<in> ?A - {j}. pending (pcs i))"
    using assms by (simp add: all_pending_def acted_upd sum.insert_remove)
  moreover have "all_pending pcs = pending (pcs j) + (\<Sum>i \<in> ?A - {j}. pending (pcs i))"
  proof (cases "j \<in> ?A")
    case True
    then show ?thesis using assms(1) by (simp add: all_pending_def sum.remove)
  next
    case False
    then show ?thesis by (simp add: all_pending_def acted_def)
  qed
  ultimately show ?thesis by simp
qed

lemma pending_bound:
  assumes "finite (acted pcs)" "posts_bounds pcs written len"
  shows "0 \<le> all_pending pcs" "all_pending pcs \<le> int (card (acted pcs)) ^ 2"
proof -
  have "0 \<le> pending (pcs j) \<and> pending (pcs j) \<le> int (card (acted pcs))" for j
    using assms(2) by (cases "pcs j") (auto simp: posts_bounds_def intro: less_imp_le)
  then show "0 \<le> all_pending pcs" "all_pending pcs \<le> int (card (acted pcs)) ^ 2"
    using sum_bounded_above[of "acted pcs" "\<lambda>j. pending (pcs j)" "int (card (acted pcs))"]
    by (auto simp: all_pending_def power2_eq_square intro: sum_nonneg)
qed

lemma card_acted:
  assumes "p \<noteq> Appending"
  shows "finite (acted pcs) \<Longrightarrow> pcs j = Appending \<Longrightarrow> int (card (acted (pcs(j := p)))) = int (card (acted pcs)) + 1"
    and "pcs j \<noteq> Appending \<Longrightarrow> acted (pcs(j := p)) = acted pcs"
proof -
  show "finite (acted pcs) \<Longrightarrow> pcs j = Appending \<Longrightarrow> int (card (acted (pcs(j := p)))) = int (card (acted pcs)) + 1"
    unfolding acted_upd[OF assms] by (subst card_insert_disjoint) (simp_all add: acted_def)
  show "pcs j \<noteq> Appending \<Longrightarrow> acted (pcs(j := p)) = acted pcs"
    unfolding acted_upd[OF assms] by (simp add: acted_def insert_absorb)
qed

text \<open>No process cuts off more than the number of processes.\<close>

lemma bounds_trimming:
  "posts_bounds pcs written len \<Longrightarrow> pcs i = Trimming n \<Longrightarrow> 0 < n \<and> n \<le> int (card (acted pcs))"
  unfolding posts_bounds_def by blast

text \<open>The four ways in which a process moves on: it gives up, its reference is appended, or the list is cut.\<close>

lemma bounds_append:
  assumes fin: "finite (acted pcs)" and ok: "posts_bounds pcs written len" and j: "pcs j = Appending" and p: "p \<noteq> Appending"
    and q: "pending p = 0 \<or> pending p = len + 1 - 2048" "\<forall>n. p = Trimming n \<longrightarrow> 0 < n"
    and small: "p = Posted \<Longrightarrow> len + 1 \<le> 2048"
  shows "posts_bounds (pcs(j := p)) (written + 1) (len + 1)"
proof -
  let ?c = "int (card (acted pcs))" and ?pcs = "pcs(j := p)"
  have c: "int (card (acted ?pcs)) = ?c + 1" by (rule card_acted(1)[OF p fin j])
  have T: "all_pending ?pcs = all_pending pcs + pending p" using pending_upd[OF fin p, of j] j by simp
  note pb = pending_bound[OF fin ok]
  have sq: "(?c + 1) ^ 2 = ?c ^ 2 + 2 * ?c + 1" by (simp add: power2_eq_square algebra_simps)
  have 1: "len + 1 \<le> 2048 + (?c + 1)" using ok by (simp add: posts_bounds_def)
  have 2: "\<forall>i n. ?pcs i = Trimming n \<longrightarrow> 0 < n \<and> n \<le> ?c + 1"
  proof (intro allI impI)
    fix i n assume i: "?pcs i = Trimming n"
    show "0 < n \<and> n \<le> ?c + 1"
    proof (cases "i = j")
      case True
      with i q 1 show ?thesis by auto
    next
      case False
      with i have "pcs i = Trimming n" by simp
      from bounds_trimming[OF ok this] show ?thesis by simp
    qed
  qed
  have 3: "len + 1 \<le> 2048 \<or> (\<exists>i n. ?pcs i = Trimming n \<and> len + 1 - n \<le> 2048) \<or> (\<exists>i e. ?pcs i = Post_failed e)"
  proof (cases p)
    case (Trimming n)
    with q have "?pcs j = Trimming n" "len + 1 - n \<le> 2048" by auto
    then show ?thesis by blast
  next
    case (Post_failed e)
    then have "?pcs j = Post_failed e" by simp
    then show ?thesis by blast
  qed (use p small in simp_all)
  have 4: "min (written + 1) 2048 - (?c + 1) ^ 2 \<le> len + 1 - all_pending ?pcs"
  proof (cases "pending p = 0")
    case True
    have "min written 2048 - ?c ^ 2 \<le> len - all_pending pcs" using ok by (simp add: posts_bounds_def)
    then show ?thesis using True T sq by linarith
  next
    case False
    then have "len + 1 - all_pending ?pcs = 2048 - all_pending pcs" using q(1) T by linarith
    then show ?thesis using pb(2) sq by linarith
  qed
  show ?thesis unfolding posts_bounds_def c using 1 2 3 4 by blast
qed

lemma bounds_stay:
  assumes fin: "finite (acted pcs)" and ok: "posts_bounds pcs written len" and p: "p = Post_failed e"
  shows "posts_bounds (pcs(j := p)) written len"
proof -
  let ?c = "int (card (acted pcs))" and ?pcs = "pcs(j := p)"
  have p': "p \<noteq> Appending" by (simp add: p)
  have c: "?c \<le> int (card (acted ?pcs))" using fin by (simp add: acted_upd[OF p'] card_insert_le)
  then have c2: "?c ^ 2 \<le> int (card (acted ?pcs)) ^ 2" by simp
  have T: "all_pending ?pcs \<le> all_pending pcs"
  proof -
    have "0 \<le> pending (pcs j)" using ok by (cases "pcs j") (auto simp: posts_bounds_def intro: less_imp_le)
    then show ?thesis using pending_upd[OF fin p', of j] p by simp
  qed
  have old: "len \<le> 2048 + ?c" "\<And>i n. pcs i = Trimming n \<Longrightarrow> 0 < n \<and> n \<le> ?c"
    "min written 2048 - ?c ^ 2 \<le> len - all_pending pcs" using ok by (auto simp: posts_bounds_def)
  have "\<forall>i n. ?pcs i = Trimming n \<longrightarrow> 0 < n \<and> n \<le> int (card (acted ?pcs))"
  proof (intro allI impI)
    fix i n assume "?pcs i = Trimming n"
    then have "pcs i = Trimming n" by (simp add: p split: if_splits)
    from old(2)[OF this] c show "0 < n \<and> n \<le> int (card (acted ?pcs))" by linarith
  qed
  moreover have "?pcs j = Post_failed e" by (simp add: p)
  ultimately show ?thesis
    unfolding posts_bounds_def using old(1,3) c c2 T by (intro conjI) (linarith | blast)+
qed

lemma bounds_trim:
  assumes fin: "finite (acted pcs)" and ok: "posts_bounds pcs written len" and j: "pcs j = Trimming n"
    and p: "p = Posted \<or> p = Post_failed e" and len: "0 \<le> len"
  shows "posts_bounds (pcs(j := p)) written (max 0 (len - n))"
proof -
  let ?c = "int (card (acted pcs))" and ?pcs = "pcs(j := p)"
  have p': "p \<noteq> Appending" using p by auto
  have A: "acted ?pcs = acted pcs" by (rule card_acted(2)[OF p']) (simp add: j)
  have T: "all_pending ?pcs = all_pending pcs - n" using pending_upd[OF fin p', of j] j p by auto
  have n: "0 < n" and old: "len \<le> 2048 + ?c" "\<And>i n. pcs i = Trimming n \<Longrightarrow> 0 < n \<and> n \<le> ?c"
    "len \<le> 2048 \<or> (\<exists>j n. pcs j = Trimming n \<and> len - n \<le> 2048) \<or> (\<exists>j e. pcs j = Post_failed e)"
    "min written 2048 - ?c ^ 2 \<le> len - all_pending pcs" using ok j by (auto simp: posts_bounds_def)
  have 2: "\<forall>i n. ?pcs i = Trimming n \<longrightarrow> 0 < n \<and> n \<le> ?c" using old(2) p by auto
  have 3: "max 0 (len - n) \<le> 2048 \<or> (\<exists>i n'. ?pcs i = Trimming n' \<and> max 0 (len - n) - n' \<le> 2048) \<or> (\<exists>i e. ?pcs i = Post_failed e)"
    using old(3)
  proof (elim disjE exE conjE)
    fix i n' assume i: "pcs i = Trimming n'" "len - n' \<le> 2048"
    show ?thesis
    proof (cases "i = j")
      case True
      with i j have "max 0 (len - n) \<le> 2048" by simp
      then show ?thesis ..
    next
      case False
      with i old(2)[OF i(1)] n len have "?pcs i = Trimming n'" "max 0 (len - n) - n' \<le> 2048" by auto
      then show ?thesis by blast
    qed
  next
    fix i e' assume "pcs i = Post_failed e'"
    then have "?pcs i = Post_failed e'" using j by auto
    then show ?thesis by blast
  qed (use n in auto)
  show ?thesis
    unfolding posts_bounds_def A using old(1,4) n len T 2 3 by (intro conjI) (linarith | blast)+
qed

definition posts_ok :: "pk \<Rightarrow> (nat \<Rightarrow> pyval) \<Rightarrow> pyval list \<Rightarrow> db \<Rightarrow> nat list \<Rightarrow> nat \<Rightarrow> (nat \<Rightarrow> post_pc) \<Rightarrow> db \<Rightarrow> bool" where
  "posts_ok k ref l0 d0 js m pcs d \<longleftrightarrow> posts_shape k ref l0 d0 js m pcs d
     \<and> posts_bounds pcs (int (length l0 + length js)) (int (length (drop m (l0 @ map ref js))))"

lemma shape_failed:
  "posts_shape k ref l0 d0 js m pcs d \<Longrightarrow> posts_shape k ref l0 d0 js m (pcs(j := Post_failed e)) d"
  by (auto simp: posts_shape_def acted_upd)

lemma shape_append:
  assumes "posts_shape k ref l0 d0 js m pcs d" "pcs j = Appending" "p \<noteq> Appending"
    and room: "\<forall>n. p = Trimming n \<longrightarrow> 2048 < length l0 + length js + 1"
    and upd: "d' = d(k \<mapsto> with_postings d k (drop m (l0 @ map ref js) @ [ref j]))"
  shows "posts_shape k ref l0 d0 (js @ [j]) m (pcs(j := p)) d'"
proof -
  have "drop m (l0 @ map ref js) @ [ref j] = drop m (l0 @ map ref (js @ [j]))"
    using assms(1) by (simp add: posts_shape_def)
  then have "holds_list d' k (drop m (l0 @ map ref (js @ [j])))"
    using holds_list_append[of d k "drop m (l0 @ map ref (js @ [j]))"] by (simp add: upd with_postings_def)
  moreover have "j \<notin> acted pcs" using assms(2) by (simp add: acted_def)
  ultimately show ?thesis
    using assms(1) room unfolding posts_shape_def acted_upd[OF assms(3)]
    by (auto simp: upd simp del: split_paired_All split: if_splits)
qed

lemma cut_more:
  "drop (nat n) (drop m l) = drop (min (m + nat n) (length l)) l"
  "0 < n \<Longrightarrow> m \<le> length l \<Longrightarrow> int (length (drop (min (m + nat n) (length l)) l)) = max 0 (int (length (drop m l)) - n)"
proof -
  show "drop (nat n) (drop m l) = drop (min (m + nat n) (length l)) l" by (simp add: min_def add.commute)
  show "0 < n \<Longrightarrow> m \<le> length l \<Longrightarrow> int (length (drop (min (m + nat n) (length l)) l)) = max 0 (int (length (drop m l)) - n)"
    by (cases "m + nat n \<le> length l") (simp_all add: min_def of_nat_diff)
qed

lemma shape_trim:
  assumes "posts_shape k ref l0 d0 js m pcs d" "pcs j = Trimming n" "p = Posted \<or> p = Post_failed e"
    and "holds_list d' k (drop (nat n) (drop m (l0 @ map ref js)))" "d' k \<noteq> None" "\<And>k'. k' \<noteq> k \<Longrightarrow> d' k' = d k'"
  shows "posts_shape k ref l0 d0 js (min (m + nat n) (length l0 + length js)) (pcs(j := p)) d'"
proof -
  have p: "p \<noteq> Appending" using assms(3) by auto
  have "acted (pcs(j := p)) = acted pcs" by (rule card_acted(2)[OF p]) (simp add: assms(2))
  moreover have "drop (nat n) (drop m (l0 @ map ref js)) = drop (min (m + nat n) (length l0 + length js)) (l0 @ map ref js)"
    using cut_more(1)[of n m "l0 @ map ref js"] by (simp only: length_append length_map)
  moreover have "j \<in> set js" using assms(1,2) by (simp add: posts_shape_def)
  ultimately show ?thesis
    using assms(1,2,4,5,6) unfolding posts_shape_def by (auto simp del: split_paired_All)
qed

lemma posts_ok_step:
  assumes ok: "posts_ok k ref l0 d0 js m pcs d" and step: "posts_step fits k ref (pcs, d) (pcs', d')"
  shows "\<exists>js m. posts_ok k ref l0 d0 js m pcs' d'"
proof -
  let ?l = "drop m (l0 @ map ref js)"
  have shape: "posts_shape k ref l0 d0 js m pcs d" and bounds: "posts_bounds pcs (int (length l0 + length js)) (int (length ?l))"
    using ok by (simp_all add: posts_ok_def)
  have fin: "finite (acted pcs)" and list: "holds_list d k ?l" and m: "m \<le> length l0 + length js"
    using shape by (simp_all add: posts_shape_def)
  from step obtain j q where q: "poster_step fits k (ref j) (pcs j, d) (q, d')" "pcs' = pcs(j := q)" by (rule posts_stepE)
  have stay: ?thesis if "d' = d" "q = Post_failed e" for e
    using shape_failed[OF shape] bounds_stay[OF fin bounds that(2), of j] that q(2) by (auto simp: posts_ok_def)
  show ?thesis
  proof (cases "pcs j")
    case Appending
    have put: ?thesis if d': "d' = d(k \<mapsto> with_postings d k (?l @ [ref j]))" and p: "q \<noteq> Appending"
      and n: "pending q = 0 \<or> pending q = int (length ?l) + 1 - 2048" "\<forall>n. q = Trimming n \<longrightarrow> 0 < n"
        "q = Posted \<Longrightarrow> int (length ?l) + 1 \<le> 2048"
    proof -
      have "posts_shape k ref l0 d0 (js @ [j]) m (pcs(j := q)) d'" 
      proof (rule shape_append[OF shape Appending p _ d'], intro allI impI)
        fix n' assume "q = Trimming n'"
        then have "2048 < int (length ?l) + 1" using n(1,2) by auto
        then show "2048 < length l0 + length js + 1" using m by simp
      qed
      moreover have "posts_bounds (pcs(j := q)) (int (length l0 + length js) + 1) (int (length ?l) + 1)"
        by (rule bounds_append[OF fin bounds Appending p n])
      moreover have "int (length l0 + length (js @ [j])) = int (length l0 + length js) + 1"
        "int (length (drop m (l0 @ map ref (js @ [j])))) = int (length ?l) + 1" using m by simp_all
      ultimately have "posts_ok k ref l0 d0 (js @ [j]) m (pcs(j := q)) d'" by (simp only: posts_ok_def)
      with q(2) show ?thesis by blast
    qed
    from q(1) Appending have "poster_step fits k (ref j) (Appending, d) (q, d')" by simp
    then show ?thesis
    proof (rule from_appending, goal_cases)
      case (1 r n)
      with append_result[OF list 1(2)] show ?thesis
        by (intro put) (auto simp: trim_count_of_def ebind_def MAX_POSTING_LIST_SIZE_def)
    next
      case (2 r n)
      with append_result[OF list 2(2)] show ?thesis
        by (intro put) (auto simp: trim_count_of_def ebind_def MAX_POSTING_LIST_SIZE_def)
    next
      case (3 r e)
      with append_result[OF list 3(2)] put stay show ?thesis by auto
    qed
  next
    case (Trimming n)
    have n: "0 < n" using bounds_trimming[OF bounds Trimming] by simp
    have "j \<in> set js" using shape Trimming by (simp add: posts_shape_def)
    then have some: "d k \<noteq> None" using shape by (auto simp: posts_shape_def)
    have cut: ?thesis if bs: "d' = d(k \<mapsto> bs)" "holds_list d' k (drop (nat n) ?l)" and p: "q = Posted \<or> q = Post_failed e" for bs e
    proof -
      let ?m = "min (m + nat n) (length l0 + length js)"
      have "posts_shape k ref l0 d0 js ?m (pcs(j := q)) d'"
        by (rule shape_trim[OF shape Trimming p bs(2)]) (simp_all add: bs(1))
      moreover have "posts_bounds (pcs(j := q)) (int (length l0 + length js)) (max 0 (int (length ?l) - n))"
        by (rule bounds_trim[OF fin bounds Trimming p]) simp
      moreover have "int (length (drop ?m (l0 @ map ref js))) = max 0 (int (length ?l) - n)"
        using cut_more(2)[OF n, of m "l0 @ map ref js"] m by (simp only: length_append length_map)
      ultimately have "posts_ok k ref l0 d0 js ?m (pcs(j := q)) d'" by (simp only: posts_ok_def)
      with q(2) show ?thesis by blast
    qed
    from q(1) Trimming have "poster_step fits k (ref j) (Trimming n, d) (q, d')" by simp
    then show ?thesis
    proof (rule from_trimming, goal_cases)
      case (1 out)
      with trim_result[OF list some _ 1(2)] n cut show ?thesis by auto
    next
      case (2 e)
      with trim_result[OF list some _ 2(2)] n cut stay show ?thesis by auto
    qed
  qed (use q(1) in simp_all)
qed

lemma posts_ok_start:
  assumes "holds_list d0 k l0" "length l0 \<le> 2048"
  shows "posts_ok k ref l0 d0 [] 0 (\<lambda>_. Appending) d0"
  using assms by (simp add: posts_ok_def posts_shape_def posts_bounds_def acted_def all_pending_def)

lemma posts_ok_reachable:
  assumes "(posts_step fits k ref)\<^sup>*\<^sup>* (\<lambda>_. Appending, d0) x" "holds_list d0 k l0" "length l0 \<le> 2048"
  shows "\<exists>js m. posts_ok k ref l0 d0 js m (fst x) (snd x)"
  using assms(1)
proof (induction rule: rtranclp_induct)
  case base
  from posts_ok_start[OF assms(2,3)] show ?case unfolding fst_conv snd_conv by blast
next
  case (step x y)
  then show ?case using posts_ok_step by (cases x; cases y) fastforce
qed

section \<open>The sequential method runs the machine\<close>

context aerospike_client begin

lemma wp_append_run:
  "wp (append_posting_ref X S a u t v) (\<lambda>r w'. \<exists>q. (poster_step fits (posting_pk S a u t) v)\<^sup>*\<^sup>*
      (Appending, view (srv w)) (q, view (srv w')) \<and> (case r of Inl e \<Rightarrow> q = Post_failed e | Inr _ \<Rightarrow> q = Posted)) w"
proof -
  let ?k = "posting_pk S a u t"
  let ?step = "poster_step fits ?k v"
  let ?Q = "\<lambda>r w'. \<exists>q. ?step\<^sup>*\<^sup>* (Appending, view (srv w)) (q, view (srv w'))
      \<and> (case r of Inl e \<Rightarrow> q = Post_failed e | Inr (_ :: unit) \<Rightarrow> q = Posted)"
  show ?thesis
    unfolding append_posting_ref_def Let_def wp_bindE[of "client_operate X ?k [ListAppend MEM_POSTINGS v, ReadBin MEM_POSTINGS] None"]
  proof (rule wp_mono[OF wp_operate_attempt], simp, elim conjE, goal_cases)
    case (1 r w1)
    then have at: "attempt_ok (append_req fits ?k v) (view (srv w)) r (view (srv w1))" by (simp add: append_req_def)
    show ?case
    proof (cases "trim_count_of r")
      case (Inl e)
      then have fails: "?step (Appending, view (srv w)) (Post_failed e, view (srv w1))" by (rule append_fails[OF at])
      with Inl show ?thesis
        by (cases r) (auto simp: trim_count_of_def ebind_def wp_simps split: sum.splits)
    next
      case (Inr n)
      then obtain result l where r: "r = Inr result" "list_items (py_or (pget result MEM_POSTINGS) (PList [])) = Inr l"
        "n = int (length l) - int MAX_POSTING_LIST_SIZE"
        by (auto simp: trim_count_of_def ebind_def split: sum.splits)
      show ?thesis
      proof (cases "length l \<le> MAX_POSTING_LIST_SIZE")
        case True
        then have "?step (Appending, view (srv w)) (Posted, view (srv w1))" using r(3) by (intro fits_in[OF at Inr]) simp
        with r True show ?thesis by (auto simp: wp_simps)
      next
        case False
        then have first: "?step\<^sup>*\<^sup>* (Appending, view (srv w)) (Trimming n, view (srv w1))"
          using r(3) by (intro r_into_rtranclp too_long[OF at Inr]) simp
        have "wp (bindE (client_operate X ?k [ListRemoveByIndexRange MEM_POSTINGS 0 n] None) (\<lambda>_. retE ())) ?Q w1"
          unfolding wp_bindE
        proof (rule wp_mono[OF wp_operate_attempt], simp, elim conjE, goal_cases)
          case (1 r w2)
          then have at: "attempt_ok (trim_req fits ?k n) (view (srv w1)) r (view (srv w2))" by (simp add: trim_req_def)
          show ?case
            using rtranclp.rtrancl_into_rtrancl[OF first trim_done] rtranclp.rtrancl_into_rtrancl[OF first trim_fails] at
            by (cases r) (auto simp: wp_retE)
        qed
        with r False show ?thesis by (simp add: wp_bindE wp_liftE)
      qed
    qed
  qed
qed

end

section \<open>Properties\<close>

text \<open>A call of \<open>_append_posting_ref\<close> is a run of the machine, whatever fails.\<close>

lemma posting_runs_machine:
  assumes "aerospike_client X view fits" "append_posting_ref X S a u t v w = (r, w')"
  shows "\<exists>q. (poster_step fits (posting_pk S a u t) v)\<^sup>*\<^sup>* (Appending, view (srv w)) (q, view (srv w'))
    \<and> (case r of Inl e \<Rightarrow> q = Post_failed e | Inr _ \<Rightarrow> q = Posted)"
  by (rule wpD[OF aerospike_client.wp_append_run[OF assms(1)] assms(2)])

text \<open>
  C6. Any number of processes may append to one posting list at the same time, in any
  interleaving of their requests and under any faults. The list is what is left of the old
  references and the new ones, in the order of the appends and each once, after cutting off its
  front; every call that returned has appended its reference, and nothing else changes. Nothing is
  cut off while there are at most 2048 references. When all calls have returned, the list has at
  most 2048 references, but it may have fewer: two processes that see the same excess both cut it
  off. With \<open>c\<close> calls at most the square of \<open>c\<close> references are missing.
\<close>

theorem concurrent_postings:
  assumes "(posts_step fits (posting_pk S a u t) ref)\<^sup>*\<^sup>* (\<lambda>_. Appending, d0) (pcs, d)"
    and "holds_list d0 (posting_pk S a u t) l0" "length l0 \<le> 2048"
  shows "\<exists>js m. distinct js \<and> set js \<subseteq> acted pcs \<and> finite (acted pcs) \<and> (\<forall>j. pcs j = Posted \<longrightarrow> j \<in> set js)
    \<and> postings_of d (posting_pk S a u t) = drop m (l0 @ map ref js)
    \<and> (length l0 + length js \<le> 2048 \<longrightarrow> m = 0)
    \<and> ((\<forall>j \<in> acted pcs. pcs j = Posted) \<longrightarrow> length (postings_of d (posting_pk S a u t)) \<le> 2048)
    \<and> min (int (length l0 + length js)) 2048 - int (card (acted pcs)) ^ 2 \<le> int (length (postings_of d (posting_pk S a u t)))
    \<and> (\<forall>k. k \<noteq> posting_pk S a u t \<longrightarrow> d k = d0 k)"
proof -
  from posts_ok_reachable[OF assms] obtain js m where shape: "posts_shape (posting_pk S a u t) ref l0 d0 js m pcs d"
    and bounds: "posts_bounds pcs (int (length l0 + length js)) (int (length (drop m (l0 @ map ref js))))"
    by (auto simp: posts_ok_def)
  have list: "postings_of d (posting_pk S a u t) = drop m (l0 @ map ref js)"
    using shape by (intro holds_list_postings) (simp add: posts_shape_def)
  have fin: "finite (acted pcs)" using shape by (simp add: posts_shape_def)
  have "length (drop m (l0 @ map ref js)) \<le> 2048" if "\<forall>j \<in> acted pcs. pcs j = Posted"
  proof -
    have "pcs j = Appending \<or> pcs j = Posted" for j using that by (auto simp: acted_def)
    then have "pcs j \<noteq> Trimming n" "pcs j \<noteq> Post_failed e" for j n e by (metis post_pc.distinct)+
    then show ?thesis using bounds unfolding posts_bounds_def by auto
  qed
  moreover have "min (int (length l0 + length js)) 2048 - int (card (acted pcs)) ^ 2 \<le> int (length (drop m (l0 @ map ref js)))"
    using bounds pending_bound(1)[OF fin bounds] unfolding posts_bounds_def by linarith
  ultimately show ?thesis
    using shape unfolding posts_shape_def list by (intro exI[of _ js] exI[of _ m] conjI) (auto simp del: split_paired_All)
qed

text \<open>A full list and two processes: both append, then both cut off what they saw.\<close>

lemma trim_count_append: "trim_count_of (Inr [(MEM_POSTINGS, PList l)]) = Inr (int (length l) - 2048)"
  by (cases l) (simp_all add: trim_count_of_def ebind_def py_or_def dget_def MAX_POSTING_LIST_SIZE_def)

lemma two_posters_run:
  assumes "length l0 = 2048" "d0 = [k \<mapsto> [(MEM_POSTINGS, PList l0)]]"
  shows "\<exists>pcs. (posts_step (\<lambda>_. True) k ref)\<^sup>*\<^sup>* (\<lambda>_. Appending, d0)
      (pcs, [k \<mapsto> [(MEM_POSTINGS, PList (drop 3 (l0 @ [ref 0, ref 1])))]])
    \<and> acted pcs = {0, 1} \<and> pcs 0 = Posted \<and> pcs 1 = Posted"
proof -
  let ?step = "posts_step (\<lambda>_. True) k ref" and ?p = "\<lambda>_ :: nat. Appending"
  let ?d = "\<lambda>l. [k \<mapsto> [(MEM_POSTINGS, PList l)]]"
  have app: "poster_step (\<lambda>_. True) k v (Appending, ?d l) (Trimming (int (length l) - 2047), ?d (l @ [v]))"
    if "2048 \<le> length l" for v l
    by (rule too_long[where r = "Inr [(MEM_POSTINGS, PList (l @ [v]))]"])
      (use that in \<open>simp_all add: attempt_ok_def append_req_def operate_db_def run_ops_def dset_single trim_count_append\<close>)
  have trim: "poster_step (\<lambda>_. True) k v (Trimming n, ?d l) (Posted, ?d (drop (nat n) l))" if "0 < n" for v n l
    by (rule trim_done[where out = "[]"])
      (use that in \<open>simp add: attempt_ok_def trim_req_def operate_db_def run_ops_def dset_single\<close>)
  have move: "?step\<^sup>*\<^sup>* (?p, d0) (pcs, d) \<Longrightarrow> pcs j = p \<Longrightarrow> poster_step (\<lambda>_. True) k (ref j) (p, d) (p', d') \<Longrightarrow>
      ?step\<^sup>*\<^sup>* (?p, d0) (pcs(j := p'), d')" for pcs d j p p' d'
    by (erule rtranclp.rtrancl_into_rtrancl) (rule posts, simp)
  have s1: "?step\<^sup>*\<^sup>* (?p, d0) (?p(0 := Trimming 1), ?d (l0 @ [ref 0]))"
    using move[OF rtranclp.rtrancl_refl refl, of 0, OF _] app[of l0 "ref 0"] assms by simp
  have s2: "?step\<^sup>*\<^sup>* (?p, d0) (?p(0 := Trimming 1, 1 := Trimming 2), ?d (l0 @ [ref 0, ref 1]))"
    using move[OF s1, of 1] app[of "l0 @ [ref 0]" "ref 1"] assms by simp
  have s3: "?step\<^sup>*\<^sup>* (?p, d0) (?p(0 := Trimming 1, 1 := Trimming 2, 0 := Posted), ?d (drop 1 (l0 @ [ref 0, ref 1])))"
    using move[OF s2, of 0] trim[of 1 "ref 0" "l0 @ [ref 0, ref 1]"] by simp
  have "?step\<^sup>*\<^sup>* (?p, d0) (?p(0 := Trimming 1, 1 := Trimming 2, 0 := Posted, 1 := Posted), ?d (drop 2 (drop 1 (l0 @ [ref 0, ref 1]))))"
    using move[OF s3, of 1] trim[of 2 "ref 1" "drop 1 (l0 @ [ref 0, ref 1])"] by simp
  then show ?thesis
    by (intro exI[of _ "?p(0 := Trimming 1, 1 := Trimming 2, 0 := Posted, 1 := Posted)"]) (auto simp: acted_def assms(1))
qed

definition full_list :: "pyval list" where
  "full_list = replicate 2048 (posting_ref ''e0'' ''s0'' 1)"

theorem concurrent_postings_witness:
  "\<exists>pcs d (js :: nat list) m. (posts_step (\<lambda>_. True) (posting_pk demo_schema ''app'' ''ann'' ''cat'') (\<lambda>_. posting_ref ''e1'' ''s1'' 7))\<^sup>*\<^sup>*
      (\<lambda>_. Appending, [posting_pk demo_schema ''app'' ''ann'' ''cat'' \<mapsto> [(MEM_POSTINGS, PList full_list)]]) (pcs, d)
    \<and> pcs 0 = Posted \<and> pcs 1 = Posted \<and> length (postings_of d (posting_pk demo_schema ''app'' ''ann'' ''cat'')) = 2047
    \<and> set js = {0, 1} \<and> postings_of d (posting_pk demo_schema ''app'' ''ann'' ''cat'') = drop m (full_list @ map (\<lambda>_. posting_ref ''e1'' ''s1'' 7) js)"
proof -
  let ?k = "posting_pk demo_schema ''app'' ''ann'' ''cat''" and ?ref = "\<lambda>_ :: nat. posting_ref ''e1'' ''s1'' 7"
  let ?start = "[?k \<mapsto> [(MEM_POSTINGS, PList full_list)]]" and ?d = "[?k \<mapsto> [(MEM_POSTINGS, PList (drop 3 (full_list @ [?ref 0, ?ref 1])))]]"
  have len: "length full_list = 2048" by (simp add: full_list_def)
  obtain pcs where run: "(posts_step (\<lambda>_. True) ?k ?ref)\<^sup>*\<^sup>* (\<lambda>_. Appending, ?start) (pcs, ?d)"
    and pcs: "acted pcs = {0, 1}" "pcs 0 = Posted" "pcs 1 = Posted"
    using two_posters_run[OF len refl, of ?k ?ref] by blast
  have "holds_list ?start ?k full_list" by (simp add: holds_list_def rec_at_def)
  moreover have "length full_list \<le> 2048" by (simp only: len)
  ultimately obtain js m where js: "set js \<subseteq> acted pcs" "\<forall>j. pcs j = Posted \<longrightarrow> j \<in> set js"
    "postings_of ?d ?k = drop m (full_list @ map ?ref js)" using concurrent_postings[OF run] by blast
  have "set js = {0, 1}" using js(1,2) pcs by blast
  moreover have "length (postings_of ?d ?k) = 2047"
  proof -
    have "postings_of ?d ?k = drop 3 (full_list @ [?ref 0, ?ref 1])" by (simp add: postings_of_def del: drop_append)
    then show ?thesis by (simp only: length_drop length_append len) simp
  qed
  ultimately show ?thesis using run pcs(2,3) js(3) by blast
qed

end
