(* ===== verification/State_Appends.thy ===== *)
theory State_Appends
  imports Session_Lifecycle
begin

text \<open>
  An append that carries state: the batch path of \<open>append_event_record\<close>, where one request writes
  the event and the deltas of up to three scopes. On a reliable cluster the deltas are merged into
  the records of their scopes, the event goes where an append without state would put it, and the
  next read shows both. Several appends, with or without state, then are a log of events.
\<close>

section \<open>The store after the state writes\<close>

definition session_upd :: "db \<Rightarrow> pk \<Rightarrow> dict \<Rightarrow> rat \<Rightarrow> db" where
  "session_upd d k delta now =
     (if delta = [] then d
      else d(k \<mapsto> dset LAST_UPDATE (PFloat now) (dset STATE (PDict (dupdate (state_dict d k) delta)) (rec_at d k))))"

definition scopes_written ::
  "db \<Rightarrow> schema \<Rightarrow> string \<Rightarrow> string \<Rightarrow> string \<Rightarrow> dict \<Rightarrow> dict \<Rightarrow> dict \<Rightarrow> rat \<Rightarrow> db" where
  "scopes_written d S a u i ds da du now =
     state_upd (state_upd (session_upd d (session_pk S a u i) ds now) (app_state_pk S a) da) (user_state_pk S a u) du"

definition scopes_fit ::
  "(bins \<Rightarrow> bool) \<Rightarrow> db \<Rightarrow> schema \<Rightarrow> string \<Rightarrow> string \<Rightarrow> string \<Rightarrow> dict \<Rightarrow> dict \<Rightarrow> dict \<Rightarrow> rat \<Rightarrow> bool" where
  "scopes_fit fits d S a u i ds da du now \<longleftrightarrow>
     (let d' = scopes_written d S a u i ds da du now in
      (\<forall>n. fits (dset CUR_SEGMENT (PInt n) (rec_at d' (session_pk S a u i))))
      \<and> (da \<noteq> [] \<longrightarrow> fits (rec_at d' (app_state_pk S a)))
      \<and> (du \<noteq> [] \<longrightarrow> fits (rec_at d' (user_state_pk S a u))))"

lemma segment_not_state [simp]:
  "segment_pk S a u i g \<noteq> app_state_pk S a'" "app_state_pk S a' \<noteq> segment_pk S a u i g"
  "segment_pk S a u i g \<noteq> user_state_pk S a' u'" "user_state_pk S a' u' \<noteq> segment_pk S a u i g"
  by (simp_all add: segment_pk_def app_state_pk_def user_state_pk_def)

lemma session_upd_other: "k' \<noteq> k \<Longrightarrow> session_upd d k delta now k' = d k'"
  by (simp add: session_upd_def)

lemma scopes_written_other:
  "k \<notin> {session_pk S a u i, app_state_pk S a, user_state_pk S a u} \<Longrightarrow> scopes_written d S a u i ds da du now k = d k"
  by (simp add: scopes_written_def state_upd_other session_upd_other)

lemma scopes_written_segs [simp]:
  "scopes_written d S a u i ds da du now (segment_pk S a u i g) = d (segment_pk S a u i g)"
  by (rule scopes_written_other) simp

lemma dset_present: "map_of d k = Some v \<Longrightarrow> dset k v d = d"
  by (induction d) (auto simp: dset_def split: if_splits)

lemma state_upd_commute:
  "k \<noteq> k' \<Longrightarrow> state_upd (d(k' \<mapsto> r)) k delta = (state_upd d k delta)(k' \<mapsto> r)"
  by (auto simp: state_upd_def state_dict_def rec_at_def fun_eq_iff)

lemma session_upd_commute:
  "k \<noteq> k' \<Longrightarrow> session_upd (d(k' \<mapsto> r)) k delta now = (session_upd d k delta now)(k' \<mapsto> r)"
  by (auto simp: session_upd_def state_dict_def rec_at_def fun_eq_iff)

lemma scopes_seg_upd:
  "scopes_written (seg_upd d S a u i k v g) S a u i ds da du now = seg_upd (scopes_written d S a u i ds da du now) S a u i k v g"
  by (simp add: seg_upd_def scopes_written_def state_upd_commute session_upd_commute seg_def state_upd_other session_upd_other)

lemma store_ok_session_upd:
  assumes "store_ok d"
  shows "store_ok (session_upd d k delta now)"
  using state_dict_ok[OF assms, of k] rec_at_ok[OF assms, of k] assms
  by (auto simp: session_upd_def intro!: store_ok_upd bins_ok_dset)

lemma store_ok_scopes: "store_ok d \<Longrightarrow> store_ok (scopes_written d S a u i ds da du now)"
  unfolding scopes_written_def by (intro store_ok_state_upd store_ok_session_upd)

section \<open>The batch write\<close>

lemma batch_db_append:
  "batch_db fits code [] (ws @ vs) d =
     (fst (batch_db fits code [] ws d) @ fst (batch_db fits code [] vs (snd (batch_db fits code [] ws d))),
      snd (batch_db fits code [] vs (snd (batch_db fits code [] ws d))))"
proof (induction ws arbitrary: d)
  case (Cons w ws)
  then show ?case by (cases w) (simp add: case_prod_beta Let_def)
qed simp

text \<open>A batch whose writes all succeed and leave \<open>d'\<close>.\<close>

definition batch_runs ::
  "(bins \<Rightarrow> bool) \<Rightarrow> (ae_error \<Rightarrow> int) \<Rightarrow> (pk \<times> operation list) list \<Rightarrow> db \<Rightarrow> db \<Rightarrow> bool" where
  "batch_runs fits code ws d d' \<longleftrightarrow>
     snd (batch_db fits code [] ws d) = d' \<and> (\<forall>r \<in> set (fst (batch_db fits code [] ws d)). fst r = 0)"

lemma batch_runs_append:
  "batch_runs fits code ws d d1 \<Longrightarrow> batch_runs fits code vs d1 d2 \<Longrightarrow> batch_runs fits code (ws @ vs) d d2"
  by (auto simp: batch_runs_def batch_db_append)

lemma batch_runs_state:
  assumes "store_ok d" "delta \<noteq> [] \<longrightarrow> fits (rec_at (state_upd d k delta) k)"
  shows "batch_runs fits code (if delta \<noteq> [] then [(k, [MapPutItems STATE delta])] else []) d (state_upd d k delta)"
proof (cases "delta = []")
  case True
  then show ?thesis by (simp add: batch_runs_def state_upd_def)
next
  case False
  let ?r = "dset STATE (PDict (dupdate (state_dict d k) delta)) (rec_at d k)"
  have "\<exists>out. apply_ops [MapPutItems STATE delta] (rec_at d k) [] = Inr (?r, out)"
    using state_bin[OF assms(1), of k] by auto
  moreover have "state_upd d k delta = d(k \<mapsto> ?r)" using False by (simp add: state_upd_def)
  moreover from this have "fits ?r" using assms(2) False by (simp add: rec_at_def)
  ultimately show ?thesis using False by (auto simp: batch_runs_def operate_creating run_ops_def)
qed

lemma batch_runs_session:
  assumes "store_ok d" "delta \<noteq> [] \<longrightarrow> fits (rec_at (session_upd d k delta now) k)"
  shows "batch_runs fits code
    (if delta \<noteq> [] then [(k, [MapPutItems STATE delta, WriteBin LAST_UPDATE (PFloat now)])] else [])
    d (session_upd d k delta now)"
proof (cases "delta = []")
  case True
  then show ?thesis by (simp add: batch_runs_def session_upd_def)
next
  case False
  let ?r = "dset LAST_UPDATE (PFloat now) (dset STATE (PDict (dupdate (state_dict d k) delta)) (rec_at d k))"
  have "\<exists>out. apply_ops [MapPutItems STATE delta, WriteBin LAST_UPDATE (PFloat now)] (rec_at d k) [] = Inr (?r, out)"
    using state_bin[OF assms(1), of k] by auto
  moreover have "session_upd d k delta now = d(k \<mapsto> ?r)" using False by (simp add: session_upd_def)
  moreover from this have "fits ?r" using assms(2) False by (simp add: rec_at_def)
  ultimately show ?thesis using False by (auto simp: batch_runs_def operate_creating run_ops_def)
qed

lemma batch_runs_scopes:
  assumes "store_ok d" "scopes_fit fits d S a u i ds da du now"
    and "map_of (rec_at d (session_pk S a u i)) CUR_SEGMENT = Some (PInt cur)"
  shows "batch_runs fits code (tl (append_writes S a u i c op ds da du now)) d (scopes_written d S a u i ds da du now)"
proof -
  let ?spk = "session_pk S a u i" and ?apk = "app_state_pk S a" and ?upk = "user_state_pk S a u"
  let ?d1 = "session_upd d ?spk ds now"
  let ?d2 = "state_upd ?d1 ?apk da"
  let ?d3 = "state_upd ?d2 ?upk du"
  have d3: "scopes_written d S a u i ds da du now = ?d3" by (simp add: scopes_written_def)
  have at: "rec_at ?d3 ?spk = rec_at ?d1 ?spk" "rec_at ?d3 ?apk = rec_at ?d2 ?apk"
    by (simp_all add: rec_at_def state_upd_other)
  have "dset CUR_SEGMENT (PInt cur) (rec_at ?d1 ?spk) = rec_at ?d1 ?spk"
    using assms(3) by (intro dset_present) (auto simp: session_upd_def rec_at_def)
  with assms(2) have "fits (rec_at ?d1 ?spk)" by (metis at(1) d3 scopes_fit_def)
  then have 1: "batch_runs fits code
      (if ds \<noteq> [] then [(?spk, [MapPutItems STATE ds, WriteBin LAST_UPDATE (PFloat now)])] else []) d ?d1"
    using assms(1) by (intro batch_runs_session) simp_all
  have 2: "batch_runs fits code (if da \<noteq> [] then [(?apk, [MapPutItems STATE da])] else []) ?d1 ?d2"
    using assms(2) at(2) by (intro batch_runs_state store_ok_session_upd assms(1)) (simp add: scopes_fit_def d3 Let_def)
  have 3: "batch_runs fits code (if du \<noteq> [] then [(?upk, [MapPutItems STATE du])] else []) ?d2 ?d3"
    using assms(2) by (intro batch_runs_state store_ok_state_upd store_ok_session_upd assms(1))
      (simp add: scopes_fit_def d3 Let_def)
  show ?thesis
    unfolding d3 append_writes_def append.simps list.sel using batch_runs_append[OF batch_runs_append[OF 1 2] 3] by simp
qed

lemma first_nonzero_all: "\<forall>r \<in> set rs. r = 0 \<Longrightarrow> first_nonzero rs = None"
  by (induction rs) simp_all

section \<open>The append\<close>

context reliable_client begin

lemma wp_batch_retry_calm:
  assumes "x_code X DeviceOverload \<notin> fst ` set (fst (batch_db fits (x_code X) [] ws (view (srv w))))"
    and "\<And>s'. view s' = snd (batch_db fits (x_code X) [] ws (view (srv w))) \<Longrightarrow>
      Q (Inr (map fst (fst (batch_db fits (x_code X) [] ws (view (srv w)))))) (w\<lparr>srv := s'\<rparr>)"
  shows "wp (batch_write_with_retry X ws) Q w"
proof -
  have "[0..<OVERLOAD_MAX_RETRIES + 1] = 0 # [1..<OVERLOAD_MAX_RETRIES + 1]"
    by (simp add: OVERLOAD_MAX_RETRIES_def upt_rec[of 0])
  then show ?thesis
    unfolding batch_write_with_retry_def
    by (simp only: batch_retry_loop.simps Let_def wp_bindE wp_catchE)
      (rule wp_batch_write, use assms in \<open>simp add: wp_simps\<close>)
qed

end

lemma store_ok_seg_upd:
  assumes "store_ok d" "pure_segs d S a u i"
  shows "store_ok (seg_upd d S a u i k (PDict v) g)"
proof -
  have "ordered (seg d S a u i g) \<and> list_all (is_dict \<circ> snd) (seg d S a u i g)"
  proof (cases rule: pure_segE[OF assms(2), of g])
    case 2
    have "bins_ok [(EVENTS, PDict (seg d S a u i g))]" by (rule each_recordD[OF assms(1) 2(1)])
    then show ?thesis by (simp add: bins_ok_def)
  qed simp
  then show ?thesis
    unfolding seg_upd_def
    by (intro store_ok_upd[OF assms(1)]) (simp add: bins_ok_def ordered_kput dicts_kput)
qed

lemma rec_at_seg_upd: "k' \<noteq> segment_pk S a u i g \<Longrightarrow> rec_at (seg_upd d S a u i k v g) k' = rec_at d k'"
  by (simp add: rec_at_def seg_upd_def)

lemma scopes_fit_seg_upd:
  "scopes_fit fits (seg_upd d S a u i k v g) S a u i ds da du now = scopes_fit fits d S a u i ds da du now"
  by (simp add: scopes_fit_def scopes_seg_upd rec_at_seg_upd Let_def)

lemma scopes_ready:
  assumes "session_ready fits d S a u i sb cur" "scopes_fit fits d S a u i ds da du now"
    and "d1 = scopes_written d S a u i ds da du now"
  shows "session_ready fits d1 S a u i (rec_at d1 (session_pk S a u i)) cur"
proof -
  have sb: "rec_at d (session_pk S a u i) = sb" "d (session_pk S a u i) = Some sb"
    using assms(1) by (simp_all add: session_ready_def rec_at_def)
  have "d1 (session_pk S a u i) = Some (rec_at d1 (session_pk S a u i))"
    using sb by (simp add: assms(3) scopes_written_def state_upd_other session_upd_def rec_at_def)
  moreover have "map_of (rec_at d1 (session_pk S a u i)) CUR_SEGMENT = map_of sb CUR_SEGMENT"
    using sb by (simp add: assms(3) scopes_written_def state_upd_other session_upd_def rec_at_def)
  ultimately show ?thesis
    using assms by (simp add: session_ready_def pure_segs_def scopes_fit_def Let_def)
qed

lemma batch_append_result:
  assumes ready: "session_ready fits d S a u i sb cur" and ok: "store_ok d"
    and room: "scopes_fit fits d S a u i ds da du now"
    and d1: "d1 = scopes_written d S a u i ds da du now"
  obtains rs where "map fst (fst (batch_db fits code [] (append_writes S a u i c (MapPut EVENTS k (PDict v)) ds da du now) d))
      = (if seg_fits fits d S a u i k (PDict v) c then 0 else code RecordTooBig) # rs"
    "\<forall>r \<in> set rs. r = 0"
    "snd (batch_db fits code [] (append_writes S a u i c (MapPut EVENTS k (PDict v)) ds da du now) d)
      = (if seg_fits fits d S a u i k (PDict v) c then seg_upd d1 S a u i k (PDict v) c else d1)"
proof -
  let ?op = "MapPut EVENTS k (PDict v)"
  let ?d = "if seg_fits fits d S a u i k (PDict v) c then seg_upd d S a u i k (PDict v) c else d"
  obtain rest where tl: "rest = tl (append_writes S a u i c ?op ds da du now)" by simp
  then have ws: "append_writes S a u i c ?op ds da du now = [(segment_pk S a u i c, [?op])] @ rest"
    by (simp add: append_writes_def)
  have pure: "pure_segs d S a u i" and cur: "map_of (rec_at d (session_pk S a u i)) CUR_SEGMENT = Some (PInt cur)"
    using ready by (simp_all add: session_ready_def rec_at_def)
  have "batch_runs fits code rest ?d (scopes_written ?d S a u i ds da du now)"
    unfolding tl
  proof (rule batch_runs_scopes)
    show "store_ok ?d" using ok store_ok_seg_upd[OF ok pure] by simp
    show "scopes_fit fits ?d S a u i ds da du now"
      using room by (simp add: scopes_fit_seg_upd)
    show "map_of (rec_at ?d (session_pk S a u i)) CUR_SEGMENT = Some (PInt cur)"
      using cur by (simp add: rec_at_def seg_upd_def)
  qed
  then have rest: "snd (batch_db fits code [] rest ?d) = scopes_written ?d S a u i ds da du now"
    "\<forall>r \<in> set (fst (batch_db fits code [] rest ?d)). fst r = 0" by (simp_all add: batch_runs_def)
  have one: "batch_db fits code [] [(segment_pk S a u i c, [?op])] d =
    (if seg_fits fits d S a u i k (PDict v) c then ([(0, Some [(EVENTS, PInt (int (length (kput k (PDict v) (seg d S a u i c)))))])], ?d)
     else ([(code RecordTooBig, None)], d))"
    by (simp add: operate_pure[OF pure])
  show thesis
    by (rule that[of "map fst (fst (batch_db fits code [] rest ?d))"])
      (use rest in \<open>auto simp: ws batch_db_append one scopes_seg_upd d1 simp del: append.simps batch_db.simps\<close>)
qed

context reliable_client begin

text \<open>What an append leaves behind: the deltas in their records, the event in segment \<open>t\<close>.\<close>

lemma wp_append_state:
  assumes ready: "session_ready fits (view (srv w)) S a u i sb cur" and ok: "store_ok (view (srv w))"
    and alone: "fits [(EVENTS, PDict [(k, PDict v)])]"
    and room: "scopes_fit fits (view (srv w)) S a u i ds da du now"
    and c: "c = (case cur_cache w (session_key a u i) of None \<Rightarrow> cur | Some c \<Rightarrow> c)" "c \<le> cur"
    and d1: "d1 = scopes_written (view (srv w)) S a u i ds da du now"
    and t: "t = place_target fits (view (srv w)) S a u i k (PDict v) cur c"
    and Q: "\<And>w'. view (srv w') = place_store d1 S a u i k (PDict v) (rec_at d1 (session_pk S a u i)) cur t \<Longrightarrow>
      cur_cache w' = (cur_cache w)(session_key a u i \<mapsto> t) \<Longrightarrow> Q (Inr ()) w'"
  shows "wp (append_event_record X S a u i k v ds da du now) Q w"
proof (cases "ds = [] \<and> da = [] \<and> du = []")
  case True
  have sb: "view (srv w) (session_pk S a u i) = Some sb" using ready by (simp add: session_ready_def)
  have "d1 = view (srv w)" unfolding d1 scopes_written_def session_upd_def state_upd_def using True by simp
  then show ?thesis
    unfolding True[THEN conjunct1] using True sb Q
    using c(2) by (auto simp: rec_at_def append_store_def intro!: wp_append_record[OF ready alone c(1) t])
next
  case False
  let ?d = "view (srv w)" and ?k = "session_key a u i"
  let ?op = "MapPut EVENTS k (PDict v)"
  let ?rec = "rec_at d1 (session_pk S a u i)"
  have ready1: "session_ready fits d1 S a u i ?rec cur" by (rule scopes_ready[OF ready room d1])
  have sf: "seg_fits fits d1 S a u i k (PDict v) g = seg_fits fits ?d S a u i k (PDict v) g" for g
    by (simp add: seg_fits_def seg_def d1)
  obtain rs where rs: "map fst (fst (batch_db fits (x_code X) [] (append_writes S a u i c ?op ds da du now) ?d))
      = (if seg_fits fits ?d S a u i k (PDict v) c then 0 else x_code X RecordTooBig) # rs"
    "\<forall>r \<in> set rs. r = 0"
    "snd (batch_db fits (x_code X) [] (append_writes S a u i c ?op ds da du now) ?d)
      = (if seg_fits fits ?d S a u i k (PDict v) c then seg_upd d1 S a u i k (PDict v) c else d1)"
    by (rule batch_append_result[OF ready ok room d1, where c = c and code = "x_code X" and k = k and v = v])
  have codes: "x_code X DeviceOverload \<noteq> 0" "x_code X RecordTooBig \<noteq> 0" "x_code X DeviceOverload \<noteq> x_code X RecordTooBig"
    using code_nonzero[of DeviceOverload] code_nonzero[of RecordTooBig] code_inject[of DeviceOverload RecordTooBig] by auto
  have fit_done: "Q (Inr ()) (w1\<lparr>cur_cache := (cur_cache w)(?k \<mapsto> c)\<rparr>)"
    if "seg_fits fits ?d S a u i k (PDict v) c" "view (srv w1) = seg_upd d1 S a u i k (PDict v) c"
      "cur_cache w1 = (cur_cache w)(?k \<mapsto> c)" for w1 :: "'a session_world"
    using that c(2) by (intro Q) (simp_all add: place_store_def t place_target_def)
  have rest: "wp (place_event X S a u i c ?op True) Q w1"
    if full: "\<not> seg_fits fits ?d S a u i k (PDict v) c"
      and w1: "view (srv w1) = d1" "cur_cache w1 = (cur_cache w)(?k \<mapsto> c)" for w1 :: "'a session_world"
    unfolding place_event_def wp_bindE if_True
  proof (rule wp_roll_over[where sb = ?rec and c = cur], goal_cases)
    case (4 s1)
    let ?w = "w1\<lparr>srv := s1, cur_cache := (cur_cache w1)(?k \<mapsto> if c = cur then cur + 1 else cur)\<rparr>"
    have attempts: "max_attempts = Suc (Suc 62)" by (simp add: max_attempts_def)
    show ?case
    proof (cases "c = cur")
      case True
      have v: "view s1 = d1(session_pk S a u i \<mapsto> dset CUR_SEGMENT (PInt (cur + 1)) ?rec)" using 4 True w1(1) by simp
      have t1: "t = cur + 1" using full True by (simp add: t place_target_def)
      have "seg_fits fits d1 S a u i k (PDict v) (cur + 1)"
        using ready1 alone by (simp add: session_ready_def seg_fits_def seg_def)
      then have "wp (place_loop X S a u i ?op (Suc (Suc 62)) (cur + 1)) Q ?w"
        using ready1 w1(2) True v
        by (intro wp_place_fits) (auto simp: session_ready_def t1 place_store_def intro!: Q)
      then show ?thesis using True by (simp add: attempts)
    next
      case False
      have t2: "t = place_target fits d1 S a u i k (PDict v) cur cur"
        using full False by (simp add: t place_target_def sf)
      have v: "view s1 = d1" using 4 False w1(1) by simp
      have "wp (place_loop X S a u i ?op (Suc (Suc 62)) cur) Q ?w"
        using ready1 alone w1(2) False v
        by (intro wp_place_current[where sb = ?rec]) (simp_all add: t2[symmetric] Q)
      then show ?thesis using False by (simp add: attempts)
    qed
  qed (use ready1 w1 in \<open>simp_all add: session_ready_def\<close>)
  show ?thesis
    unfolding append_event_record_def wp_bindE[of "current_segment _ _ _ _ _"]
  proof (rule wp_current_segment[where sb = sb and cur = cur])
    fix s' c' assume s': "view s' = ?d" and c': "c' = (case cur_cache w ?k of None \<Rightarrow> cur | Some c \<Rightarrow> c)"
    let ?w = "w\<lparr>srv := s', cur_cache := (cur_cache w)(?k \<mapsto> c')\<rparr>"
    have cc: "c' = c" using c c' by simp
    have nz: "first_nonzero rs = None" by (rule first_nonzero_all[OF rs(2)])
    let ?ws = "append_writes S a u i c ?op ds da du now"
    have codeset: "x_code X DeviceOverload \<notin> fst ` set (fst (batch_db fits (x_code X) [] ?ws ?d))"
    proof -
      have "fst ` set (fst (batch_db fits (x_code X) [] ?ws ?d)) = set (map fst (fst (batch_db fits (x_code X) [] ?ws ?d)))" by simp
      then show ?thesis unfolding rs(1) using rs(2) codes by auto
    qed
    have "wp (batch_write_with_retry X ?ws) (\<lambda>r w'. r = Inr ((if seg_fits fits ?d S a u i k (PDict v) c then 0 else x_code X RecordTooBig) # rs)
        \<and> view (srv w') = (if seg_fits fits ?d S a u i k (PDict v) c then seg_upd d1 S a u i k (PDict v) c else d1)
        \<and> cur_cache w' = (cur_cache w)(?k \<mapsto> c)) ?w"
      by (rule wp_batch_retry_calm) (use s' cc codeset rs(1,3) in simp_all)
    then show "case Inr c' of Inl e \<Rightarrow> Q (Inl e) ?w
      | Inr cur \<Rightarrow> wp (let seg_op = MapPut EVENTS k (PDict v)
          in if \<not> (ds \<noteq> [] \<or> da \<noteq> [] \<or> du \<noteq> [])
          then place_event X S a u i cur seg_op False
          else bindE (batch_write_with_retry X (append_writes S a u i cur seg_op ds da du now))
             (\<lambda>results. case results of
                [] \<Rightarrow> raiseE (IndexError ''list index out of range'')
              | seg_result # others \<Rightarrow>
                  (case first_nonzero others of
                     Some r \<Rightarrow> raiseE (batch_error X r)
                   | None \<Rightarrow>
                       if seg_result = 0 then cache_cur ?k cur
                       else if seg_result = x_code X RecordTooBig then
                         place_event X S a u i cur seg_op True
                       else raiseE (batch_error X seg_result)))) Q ?w"
      using False
      apply (simp add: Let_def wp_bindE cc)
      apply (erule wp_mono)
      apply (auto simp: nz codes wp_cache_cur split: if_splits intro!: rest fit_done)
      done
  qed (use ready in \<open>simp_all add: session_ready_def\<close>)
qed

end

section \<open>What a reader sees afterwards\<close>

text \<open>Only create and append write a session's own state, and neither stores a scoped key there.\<close>

definition own_keys :: "db \<Rightarrow> schema \<Rightarrow> string \<Rightarrow> string \<Rightarrow> string \<Rightarrow> bool" where
  "own_keys d S a u i \<longleftrightarrow>
     (\<forall>k \<in> fst ` set (state_dict d (session_pk S a u i)). \<not> prefix SCOPE_APP k \<and> \<not> prefix SCOPE_USER k)"

lemma merged_state_lookup:
  assumes "store_ok d" "merged_state d S a u i = Inr m"
  shows "map_of m k = scoped_lookup (state_dict d (app_state_pk S a)) (state_dict d (user_state_pk S a u))
    (state_dict d (session_pk S a u i)) k"
  using assms(2) state_dict_ok[OF assms(1)] by (intro merged_lookup) (auto simp: merged_state_def)

lemma session_upd_at:
  assumes "store_ok d" "keys_distinct delta"
  shows "map_of (state_dict (session_upd d k delta now) k) = map_of (state_dict d k) ++ map_of delta"
proof (cases "delta = []")
  case False
  have "state_of (Some (dset LAST_UPDATE (PFloat now) (dset STATE (PDict (dupdate (state_dict d k) delta)) (rec_at d k))))
      = PDict (dupdate (state_dict d k) delta)"
    by (auto simp: state_of_def py_or_def dget_def)
  with False show ?thesis by (simp add: session_upd_def state_dict_def map_of_rev_distinct[OF assms(2)])
qed (simp add: session_upd_def)

lemma record_upd_other [simp]:
  "k' \<noteq> k \<Longrightarrow> state_dict (state_upd d k delta) k' = state_dict d k'"
  "k' \<noteq> k \<Longrightarrow> rec_at (state_upd d k delta) k' = rec_at d k'"
  "k' \<noteq> k \<Longrightarrow> state_dict (session_upd d k delta now) k' = state_dict d k'"
  "k' \<noteq> k \<Longrightarrow> rec_at (session_upd d k delta now) k' = rec_at d k'"
  by (simp_all add: state_dict_def rec_at_def state_upd_other session_upd_other)

lemma rec_at_upd:
  "delta \<noteq> [] \<Longrightarrow> rec_at (state_upd d k delta) k = dset STATE (PDict (dupdate (state_dict d k) delta)) (rec_at d k)"
  "delta \<noteq> [] \<Longrightarrow> rec_at (session_upd d k delta now) k =
     dset LAST_UPDATE (PFloat now) (dset STATE (PDict (dupdate (state_dict d k) delta)) (rec_at d k))"
  by (simp_all add: rec_at_def state_upd_def session_upd_def)

lemma scopes_written_dicts:
  assumes "store_ok d" "keys_distinct ds" "keys_distinct da" "keys_distinct du"
    and "d1 = scopes_written d S a u i ds da du now"
  shows "map_of (state_dict d1 (session_pk S a u i)) = map_of (state_dict d (session_pk S a u i)) ++ map_of ds"
    and "map_of (state_dict d1 (app_state_pk S a)) = map_of (state_dict d (app_state_pk S a)) ++ map_of da"
    and "map_of (state_dict d1 (user_state_pk S a u)) = map_of (state_dict d (user_state_pk S a u)) ++ map_of du"
proof -
  let ?d0 = "session_upd d (session_pk S a u i) ds now"
  let ?d2 = "state_upd ?d0 (app_state_pk S a) da"
  have ok: "store_ok ?d0" "store_ok ?d2"
    by (intro store_ok_state_upd store_ok_session_upd assms(1))+
  have d0: "state_dict ?d0 (app_state_pk S a) = state_dict d (app_state_pk S a)"
    "state_dict ?d0 (user_state_pk S a u) = state_dict d (user_state_pk S a u)"
    by (simp_all add: state_dict_def session_upd_other)
  show "map_of (state_dict d1 (session_pk S a u i)) = map_of (state_dict d (session_pk S a u i)) ++ map_of ds"
    "map_of (state_dict d1 (app_state_pk S a)) = map_of (state_dict d (app_state_pk S a)) ++ map_of da"
    "map_of (state_dict d1 (user_state_pk S a u)) = map_of (state_dict d (user_state_pk S a u)) ++ map_of du"
    unfolding assms(5) scopes_written_def state_upd_at[OF ok(2) assms(4)] state_upd_at[OF ok(1) assms(3)]
    by (simp_all add: session_upd_at[OF assms(1,2)] d0)
qed

lemma scoped_lookup_delta:
  assumes part: "partition_state delta = (ds, da, du)" "keys_distinct delta"
    and own: "\<And>k. map_of s k \<noteq> None \<Longrightarrow> \<not> prefix SCOPE_APP k \<and> \<not> prefix SCOPE_USER k"
    and new: "map_of s' = map_of s ++ map_of ds" "map_of a' = map_of a ++ map_of da" "map_of u' = map_of u ++ map_of du"
  shows "scoped_lookup a' u' s' k =
    ((\<lambda>k. scoped_lookup a u s k) ++ (map_of delta |` {k. \<not> prefix SCOPE_TEMP k})) k"
  using own[of k] scopes_apart[of k]
  by (auto simp: scoped_lookup_def new map_add_def restrict_map_def partition_parts[OF part(2,1)]
      plain_key_def removeprefix_def prefix_def split: option.splits)

lemma merged_after:
  assumes ok: "store_ok d" and part: "partition_state delta = (ds, da, du)" "keys_distinct delta"
    and own: "own_keys d S a u i" and m: "merged_state d S a u i = Inr m"
    and d1: "d1 = scopes_written d S a u i ds da du now"
    and m1: "merged_state d1 S a u i = Inr m1"
  shows "map_of m1 = map_of m ++ (map_of delta |` {k. \<not> prefix SCOPE_TEMP k})"
proof
  fix k
  have ok1: "store_ok d1" unfolding d1 by (rule store_ok_scopes[OF ok])
  note dicts = scopes_written_dicts[OF ok partition_parts(4-6)[OF part(2,1)] d1]
  have "map_of (state_dict d (session_pk S a u i)) k \<noteq> None \<Longrightarrow> \<not> prefix SCOPE_APP k \<and> \<not> prefix SCOPE_USER k" for k
    using own by (force simp: own_keys_def dest: map_of_SomeD)
  from scoped_lookup_delta[OF part this dicts, of k]
  show "map_of m1 k = (map_of m ++ (map_of delta |` {k. \<not> prefix SCOPE_TEMP k})) k"
    by (simp add: merged_state_lookup[OF ok1 m1] merged_state_lookup[OF ok m] map_add_def cong: option.case_cong)
qed

text \<open>Placing the event touches no state.\<close>

lemma place_store_state:
  assumes "d (session_pk S a u i) = Some sb"
  shows "merged_state (place_store d S a u i k v sb cur t) S a u i = merged_state d S a u i"
  using assms by (simp add: merged_state_def place_store_def seg_upd_def state_of_def)

lemma place_store_dict:
  assumes "d (session_pk S a u i) = Some sb"
  shows "state_dict (place_store d S a u i k v sb cur t) (session_pk S a u i) = state_dict d (session_pk S a u i)"
  using assms by (simp add: state_dict_def place_store_def seg_upd_def state_of_def)

lemma place_store_ok:
  assumes "store_ok d" "pure_segs d S a u i" "d (session_pk S a u i) = Some sb" "0 \<le> cur"
  shows "store_ok (place_store d S a u i k (PDict v) sb cur t)"
proof -
  have "bins_ok sb" using assms(3) by (rule each_recordD[OF assms(1)])
  then have "store_ok (d(session_pk S a u i \<mapsto> dset CUR_SEGMENT (PInt (cur + 1)) sb))"
    using assms(4) by (intro store_ok_upd[OF assms(1)] bins_ok_dset) simp_all
  then show ?thesis
    using assms(1,2) by (auto simp: place_store_def intro!: store_ok_seg_upd)
qed

lemma scopes_log:
  assumes "log_rep fits A d S a u i sb cur evs" "scopes_fit fits d S a u i ds da du now"
    and "d1 = scopes_written d S a u i ds da du now"
  shows "log_rep fits A d1 S a u i (rec_at d1 (session_pk S a u i)) cur evs"
proof -
  have seg: "seg d1 S a u i g = seg d S a u i g" for g by (simp add: seg_def assms(3))
  then have "entries d1 S a u i cur = entries d S a u i cur" by (intro entries_cong)
  moreover have "session_ready fits d1 S a u i (rec_at d1 (session_pk S a u i)) cur"
    using assms(1) by (intro scopes_ready[OF _ assms(2,3), of sb]) (simp add: log_rep_def)
  ultimately show ?thesis using seg assms(1) by (simp add: log_rep_def)
qed

text \<open>Whether the deltas of an event have room, and what the log and the state are afterwards.\<close>

definition event_fits ::
  "(bins \<Rightarrow> bool) \<Rightarrow> adk \<Rightarrow> db \<Rightarrow> schema \<Rightarrow> string \<Rightarrow> string \<Rightarrow> string \<Rightarrow> event \<Rightarrow> bool" where
  "event_fits fits A d S a u i e \<longleftrightarrow> fits [(EVENTS, PDict [entry A e])]
     \<and> (case partition_state (ev_state_delta e) of (ds, da, du) \<Rightarrow>
          scopes_fit fits d S a u i ds da du (ev_timestamp e))"

text \<open>The store after the append of an event by a writer who knows the current segment, and the
  segment the event is in.\<close>

definition event_store ::
  "(bins \<Rightarrow> bool) \<Rightarrow> adk \<Rightarrow> schema \<Rightarrow> string \<Rightarrow> string \<Rightarrow> string \<Rightarrow> event \<Rightarrow> db \<times> int \<Rightarrow> db \<times> int" where
  "event_store fits A S a u i e = (\<lambda>(d, cur).
     case partition_state (ev_state_delta e) of (ds, da, du) \<Rightarrow>
       let d1 = scopes_written d S a u i ds da du (ev_timestamp e);
           t = place_target fits d S a u i (event_key e) (snd (entry A e)) cur cur
       in (place_store d1 S a u i (event_key e) (snd (entry A e)) (rec_at d1 (session_pk S a u i)) cur t, t))"

definition appended ::
  "(bins \<Rightarrow> bool) \<Rightarrow> adk \<Rightarrow> schema \<Rightarrow> string \<Rightarrow> string \<Rightarrow> string \<Rightarrow> event list \<Rightarrow> event \<Rightarrow> db \<Rightarrow> db \<times> int \<Rightarrow> bool" where
  "appended fits A S a u i evs e d = (\<lambda>(d', t).
     store_ok d' \<and> own_keys d' S a u i \<and> (\<exists>sb. log_rep fits A d' S a u i sb t (evs @ [e]))
     \<and> (\<forall>m. merged_state d S a u i = Inr m \<longrightarrow> (\<exists>m'. merged_state d' S a u i = Inr m'
           \<and> map_of m' = map_of m ++ (map_of (ev_state_delta e) |` {k. \<not> prefix SCOPE_TEMP k}))))"

lemma own_keys_scopes:
  assumes ok: "store_ok d" and part: "partition_state delta = (ds, da, du)" "keys_distinct delta"
    and own: "own_keys d S a u i"
    and d1: "d1 = scopes_written d S a u i ds da du now"
  shows "own_keys d1 S a u i"
proof -
  note dicts = scopes_written_dicts[OF ok partition_parts(4-6)[OF part(2,1)] d1]
  have "\<not> prefix SCOPE_APP k \<and> \<not> prefix SCOPE_USER k" if "map_of (state_dict d1 (session_pk S a u i)) k \<noteq> None" for k
  proof (cases "map_of ds k")
    case None
    with that have "map_of (state_dict d (session_pk S a u i)) k \<noteq> None" by (simp add: dicts(1) map_add_def)
    then have "k \<in> fst ` set (state_dict d (session_pk S a u i))" by (simp add: map_of_eq_None_iff)
    with own show ?thesis unfolding own_keys_def by blast
  next
    case (Some v)
    then have "plain_key k" using partition_parts(1)[OF part(2,1), of k] by (simp split: if_splits)
    then show ?thesis by (simp add: plain_key_def)
  qed
  then show ?thesis unfolding own_keys_def by (metis map_of_eq_None_iff)
qed

lemma event_store_appended:
  assumes rep: "log_rep fits A d S a u i sb cur evs" and ok: "store_ok d"
    and distinct: "keys_distinct (ev_state_delta e)"
    and later: "\<forall>e' \<in> set evs. event_key e' < event_key e"
    and room: "event_fits fits A d S a u i e" and own: "own_keys d S a u i"
  shows "appended fits A S a u i evs e d (event_store fits A S a u i e (d, cur))"
proof -
  obtain ds da du where part: "partition_state (ev_state_delta e) = (ds, da, du)" by (metis prod_cases3)
  have alone: "fits [(EVENTS, PDict [entry A e])]" and fit: "scopes_fit fits d S a u i ds da du (ev_timestamp e)"
    using room by (simp_all add: event_fits_def part)
  obtain d1 where d1: "d1 = scopes_written d S a u i ds da du (ev_timestamp e)" by simp
  let ?sb = "rec_at d1 (session_pk S a u i)"
  have rep1: "log_rep fits A d1 S a u i ?sb cur evs" by (rule scopes_log[OF rep fit d1])
  have ok1: "store_ok d1" unfolding d1 by (rule store_ok_scopes[OF ok])
  have own1: "own_keys d1 S a u i" by (rule own_keys_scopes[OF ok part distinct own d1])
  obtain m1 where m1: "merged_state d1 S a u i = Inr m1" by (metis merged_state_ok ok1)
  obtain t where t: "t = place_target fits d S a u i (event_key e) (snd (entry A e)) cur cur" by simp
  then have t1: "t = place_target fits d1 S a u i (event_key e) (snd (entry A e)) cur cur"
    by (simp add: place_target_def seg_fits_def seg_def d1)
  let ?d' = "place_store d1 S a u i (event_key e) (snd (entry A e)) ?sb cur t"
  have st: "event_store fits A S a u i e (d, cur) = (?d', t)"
    by (simp add: event_store_def part d1 t Let_def)
  have r: "session_ready fits d1 S a u i ?sb cur" "0 \<le> cur" using rep1 by (simp_all add: log_rep_def)
  have "store_ok ?d'"
    unfolding entry_def snd_conv by (rule place_store_ok[OF ok1]) (use r in \<open>simp_all add: session_ready_def\<close>)
  moreover have "merged_state ?d' S a u i = Inr m1"
    using r m1 by (simp add: place_store_state session_ready_def)
  moreover have "own_keys ?d' S a u i"
    using r own1 by (simp add: own_keys_def place_store_dict session_ready_def)
  moreover have "\<exists>sb. log_rep fits A ?d' S a u i sb t (evs @ [e])"
    using log_append[OF rep1 later alone t1] by auto
  ultimately show ?thesis
    using merged_after[OF ok part distinct own _ d1 m1] by (auto simp: appended_def st)
qed

context reliable_client begin

lemma wp_append_event:
  assumes rep: "log_rep fits A (view (srv w)) S a u i sb cur evs" and ok: "store_ok (view (srv w))"
    and cache: "cache_fresh (cur_cache w) (session_key a u i) cur"
    and base: "base_append_event A s e0 = (s1, e)" "s_app_name s1 = a" "s_user_id s1 = u" "s_id s1 = i"
    and e: "\<not> ev_partial e" "ev_timestamp e \<noteq> 0"
    and room: "event_fits fits A (view (srv w)) S a u i e"
    and Q: "\<And>w'. event_store fits A S a u i e (view (srv w), cur) = (view (srv w'), t) \<Longrightarrow>
      cur_cache w' = (cur_cache w)(session_key a u i \<mapsto> t) \<Longrightarrow>
      Q (Inr (e, s1\<lparr>s_last_update_time := PFloat (ev_timestamp e)\<rparr>)) w'"
    and t: "t = snd (event_store fits A S a u i e (view (srv w), cur))"
  shows "wp (append_event X A S s e0) Q w"
proof -
  let ?d = "view (srv w)" and ?t = "ev_timestamp e"
  obtain ds da du where part: "partition_state (ev_state_delta e) = (ds, da, du)" by (metis prod_cases3)
  have alone: "fits [(EVENTS, PDict [entry A e])]" and fit: "scopes_fit fits ?d S a u i ds da du ?t"
    using room by (simp_all add: event_fits_def part)
  obtain d1 where d1: "d1 = scopes_written ?d S a u i ds da du ?t" by simp
  have tt: "t = place_target fits ?d S a u i (event_key e) (PDict (event_to_inline_dict A e)) cur cur"
    by (simp add: t event_store_def part Let_def entry_def)
  have "wp (append_event_record X S a u i (event_key e) (event_to_inline_dict A e) ds da du ?t)
    (\<lambda>r w'. r = Inr () \<and> event_store fits A S a u i e (?d, cur) = (view (srv w'), t)
      \<and> cur_cache w' = (cur_cache w)(session_key a u i \<mapsto> t)) w"
  proof (rule wp_append_state[OF _ ok _ fit _ _ d1 tt])
    show "session_ready fits ?d S a u i sb cur" using rep by (simp add: log_rep_def)
    show "fits [(EVENTS, PDict [(event_key e, PDict (event_to_inline_dict A e))])]" using alone by (simp add: entry_def)
    show "cur = (case cur_cache w (session_key a u i) of None \<Rightarrow> cur | Some c \<Rightarrow> c)"
      using cache by (auto simp: cache_fresh_def)
  qed (simp_all add: event_store_def part Let_def entry_def d1 tt)
  then have "wp (append_event_record X S a u i (event_key e) (event_to_inline_dict A e) ds da du ?t)
    (\<lambda>r w'. case r of Inl x \<Rightarrow> Q (Inl x) w' | Inr _ \<Rightarrow> Q (Inr (e, s1\<lparr>s_last_update_time := PFloat ?t\<rparr>)) w') w"
    by (rule wp_mono) (auto intro: Q)
  then show ?thesis
    by (simp add: append_event_def base e(1,2) part event_key_def wp_bindE wp_retE wp_thenE cong: sum.case_cong)
qed

lemma wp_get_log:
  assumes log: "log_rep fits A (view (srv w)) S a u i sb cur evs" and m: "merged_state (view (srv w)) S a u i = Inr m"
    and "sorted_wrt (<) (map event_key evs)" "\<forall>x \<in> set evs. ts_ok (ev_timestamp x)" "length evs < 2 ^ 31"
    and "lossless A" "config_ok config" "\<And>t. config_after config = Some t \<Longrightarrow> ts_ok t"
    and Q: "\<And>s2 w'. view (srv w') = view (srv w) \<Longrightarrow> s_id s2 = i \<Longrightarrow> s_app_name s2 = a \<Longrightarrow> s_user_id s2 = u \<Longrightarrow>
      s_events s2 = spec_read config evs \<Longrightarrow> s_state s2 = m \<Longrightarrow> Q (Inr (Some s2)) w'"
  shows "wp (get_session X A S a u i config) Q w"
proof (rule wp_get_session[where rec = sb and cur = cur and merged = m], goal_cases)
  case (4 s')
  then show ?case
    using log assms(3-8) by (intro wp_load_log[where sb = sb and evs = evs]) (auto intro!: Q)
qed (use log m in \<open>simp_all add: log_rep_def session_ready_def\<close>)

lemma wp_append_then_get:
  assumes "log_rep fits A (view (srv w)) S a u i sb cur evs" "store_ok (view (srv w))"
    and "cache_fresh (cur_cache w) (session_key a u i) cur"
    and "base_append_event A s e0 = (s1, e)" "s_app_name s1 = a" "s_user_id s1 = u" "s_id s1 = i"
    and "\<not> ev_partial e" "ev_timestamp e \<noteq> 0" "keys_distinct (ev_state_delta e)"
    and sorted: "sorted_wrt (<) (map event_key (evs @ [e]))" "\<forall>x \<in> set (evs @ [e]). ts_ok (ev_timestamp x)"
      "length (evs @ [e]) < 2 ^ 31"
    and "event_fits fits A (view (srv w)) S a u i e" "own_keys (view (srv w)) S a u i"
    and "lossless A" "merged_state (view (srv w)) S a u i = Inr m"
    and Q: "\<And>w1 s2 w' t. append_event X A S s e0 w = (Inr (e, s1\<lparr>s_last_update_time := PFloat (ev_timestamp e)\<rparr>), w1) \<Longrightarrow>
      event_store fits A S a u i e (view (srv w), cur) = (view (srv w1), t) \<Longrightarrow>
      appended fits A S a u i evs e (view (srv w)) (view (srv w1), t) \<Longrightarrow> view (srv w') = view (srv w1) \<Longrightarrow>
      s_id s2 = i \<Longrightarrow> s_app_name s2 = a \<Longrightarrow> s_user_id s2 = u \<Longrightarrow> s_events s2 = evs @ [e] \<Longrightarrow>
      map_of (s_state s2) = map_of m ++ (map_of (ev_state_delta e) |` {k. \<not> prefix SCOPE_TEMP k}) \<Longrightarrow>
      Q (Inr (Some s2)) w'"
  shows "wp (bindE (append_event X A S s e0) (\<lambda>_. get_session X A S a u i None)) Q w"
proof -
  obtain t where t: "t = snd (event_store fits A S a u i e (view (srv w), cur))" by simp
  have "wp (append_event X A S s e0) (\<lambda>r w1. r = Inr (e, s1\<lparr>s_last_update_time := PFloat (ev_timestamp e)\<rparr>)
      \<and> event_store fits A S a u i e (view (srv w), cur) = (view (srv w1), t)) w"
    by (rule wp_append_event[OF assms(1-9) assms(14) _ t]) simp
  from wp_exI[OF this] obtain w1
    where run: "append_event X A S s e0 w = (Inr (e, s1\<lparr>s_last_update_time := PFloat (ev_timestamp e)\<rparr>), w1)"
    and st: "event_store fits A S a u i e (view (srv w), cur) = (view (srv w1), t)" by blast
  have "\<forall>e' \<in> set evs. event_key e' < event_key e" using sorted(1) by (simp add: sorted_wrt_append)
  from event_store_appended[OF assms(1,2,10) this assms(14,15)]
  have app: "appended fits A S a u i evs e (view (srv w)) (view (srv w1), t)" unfolding st .
  then obtain sb' m' where log: "log_rep fits A (view (srv w1)) S a u i sb' t (evs @ [e])"
    and m': "merged_state (view (srv w1)) S a u i = Inr m'"
      "map_of m' = map_of m ++ (map_of (ev_state_delta e) |` {k. \<not> prefix SCOPE_TEMP k})"
    using assms(17) by (auto simp: appended_def)
  have "wp (get_session X A S a u i None) Q w1"
  proof (rule wp_get_log[OF log m'(1) sorted assms(16)])
    fix s2 :: session and w' :: "'a session_world"
    assume "view (srv w') = view (srv w1)" "s_id s2 = i" "s_app_name s2 = a" "s_user_id s2 = u"
      "s_events s2 = spec_read None (evs @ [e])" "s_state s2 = m'"
    then show "Q (Inr (Some s2)) w'"
      by (intro Q[OF run st app]) (simp_all add: config_recent_def config_after_def spec_read_def recent_def m'(2))
  qed (simp_all add: config_ok_def config_recent_def config_after_def)
  then show ?thesis by (simp add: wp_def bindE_def run)
qed

end

section \<open>Several appends\<close>

text \<open>A caller that appends events one after the other, to the session object as each call left it.\<close>

primrec append_events :: "'s ext \<Rightarrow> adk \<Rightarrow> schema \<Rightarrow> event list \<Rightarrow> session \<Rightarrow> ('s, session) sio" where
  "append_events X A S [] s = retE s"
| "append_events X A S (e # es) s = bindE (append_event X A S s e) (\<lambda>(_, s'). append_events X A S es s')"

text \<open>What ADK's base class leaves of an event, and that each event has room when its turn comes.\<close>

definition kept :: "event \<Rightarrow> event" where
  "kept e = e\<lparr>ev_state_delta := temp_free (ev_state_delta e)\<rparr>"

primrec run_fits :: "(bins \<Rightarrow> bool) \<Rightarrow> adk \<Rightarrow> schema \<Rightarrow> string \<Rightarrow> string \<Rightarrow> string \<Rightarrow> event list \<Rightarrow> db \<times> int \<Rightarrow> bool" where
  "run_fits fits A S a u i [] p = True"
| "run_fits fits A S a u i (e # es) p =
     (event_fits fits A (fst p) S a u i e \<and> run_fits fits A S a u i es (event_store fits A S a u i e p))"

definition state_after :: "(string \<Rightarrow> pyval option) \<Rightarrow> event list \<Rightarrow> string \<Rightarrow> pyval option" where
  "state_after m es = foldl (\<lambda>m e. m ++ map_of (ev_state_delta e)) m es"

lemma kept_simps [simp]:
  "ev_id (kept e) = ev_id e" "ev_timestamp (kept e) = ev_timestamp e" "ev_partial (kept e) = ev_partial e"
  "ev_state_delta (kept e) = temp_free (ev_state_delta e)"
  by (simp_all add: kept_def)

lemma temp_free_map: "map_of (temp_free d) |` {k. \<not> prefix SCOPE_TEMP k} = map_of (temp_free d)"
proof -
  have "k \<notin> fst ` set (temp_free d)" if "prefix SCOPE_TEMP k" for k
    using that by (auto simp: temp_free_def)
  then show ?thesis by (auto simp: restrict_map_def fun_eq_iff map_of_eq_None_iff[symmetric])
qed

lemma temp_free_distinct: "keys_distinct d \<Longrightarrow> keys_distinct (temp_free d)"
  unfolding temp_free_def by (rule distinct_map_filter)

text \<open>Events without a delta only need room of their own.\<close>

lemma run_fits_plain:
  assumes "log_rep fits A d S a u i sb cur evs" "sorted_wrt (<) (map event_key (evs @ es))"
    and "\<forall>e \<in> set es. ev_state_delta e = [] \<and> fits [(EVENTS, PDict [entry A e])]"
  shows "run_fits fits A S a u i es (d, cur)"
  using assms
proof (induction es arbitrary: d sb cur evs)
  case (Cons e es)
  let ?t = "place_target fits d S a u i (event_key e) (snd (entry A e)) cur cur"
  have none: "partition_state [] = ([], [], [])" by (simp add: partition_state_def)
  have same: "scopes_written d S a u i [] [] [] now = d" for now
    by (simp add: scopes_written_def state_upd_def session_upd_def)
  have sb: "rec_at d (session_pk S a u i) = sb" "\<forall>n. fits (dset CUR_SEGMENT (PInt n) sb)"
    using Cons.prems(1) by (simp_all add: log_rep_def session_ready_def rec_at_def)
  have fit: "event_fits fits A d S a u i e"
    using Cons.prems(3) sb by (simp add: event_fits_def none scopes_fit_def same)
  have st: "event_store fits A S a u i e (d, cur)
      = (place_store d S a u i (event_key e) (snd (entry A e)) sb cur ?t, ?t)"
    using Cons.prems(3) by (simp add: event_store_def none same sb Let_def)
  have later: "\<forall>e' \<in> set evs. event_key e' < event_key e" using Cons.prems(2) by (simp add: sorted_wrt_append)
  have "fits [(EVENTS, PDict [entry A e])]" using Cons.prems(3) by simp
  from log_append[OF Cons.prems(1) later this refl] have
    "run_fits fits A S a u i es (place_store d S a u i (event_key e) (snd (entry A e)) sb cur ?t, ?t)"
    by (rule Cons.IH) (use Cons.prems in simp_all)
  with fit show ?case by (simp add: st)
qed simp

context reliable_client begin

lemma wp_append_events:
  assumes A: "base_keeps A" "strips_temp A"
    and rep: "log_rep fits A (view (srv w)) S a u i sb cur evs" and ok: "store_ok (view (srv w))"
    and cache: "cache_fresh (cur_cache w) (session_key a u i) cur" and own: "own_keys (view (srv w)) S a u i"
    and m: "merged_state (view (srv w)) S a u i = Inr m"
    and s: "s_app_name s = a" "s_user_id s = u" "s_id s = i"
    and es: "\<forall>e \<in> set es. \<not> ev_partial e \<and> ev_timestamp e \<noteq> 0 \<and> keys_distinct (ev_state_delta e)"
    and sorted: "sorted_wrt (<) (map event_key (evs @ map kept es))"
    and room: "run_fits fits A S a u i (map kept es) (view (srv w), cur)"
    and Q: "\<And>s' w' sb' cur' m'. log_rep fits A (view (srv w')) S a u i sb' cur' (evs @ map kept es) \<Longrightarrow>
      merged_state (view (srv w')) S a u i = Inr m' \<Longrightarrow> map_of m' = state_after (map_of m) (map kept es) \<Longrightarrow>
      Q (Inr s') w'"
  shows "wp (append_events X A S es s) Q w"
  using rep ok cache own m s es sorted room Q
proof (induction es arbitrary: w sb cur evs m s)
  case Nil
  then show ?case by (auto simp: wp_simps state_after_def)
next
  case (Cons e0 es)
  let ?e = "kept e0"
  let ?st = "event_store fits A S a u i ?e (view (srv w), cur)"
  have e0: "\<not> ev_partial e0" "ev_timestamp e0 \<noteq> 0" "keys_distinct (ev_state_delta e0)" using Cons.prems(9) by simp_all
  obtain s1 where base: "base_append_event A s e0 = (s1, ?e)"
    using A(2) e0(1) unfolding strips_temp_def kept_def by (metis prod.collapse)
  have s1: "s_app_name s1 = a" "s_user_id s1 = u" "s_id s1 = i"
    using A(1) base Cons.prems(6-8) unfolding base_keeps_def by (metis fst_conv)+
  have fit: "event_fits fits A (view (srv w)) S a u i ?e" and fits: "run_fits fits A S a u i (map kept es) ?st"
    using Cons.prems(11) by simp_all
  have later: "\<forall>e' \<in> set evs. event_key e' < event_key ?e" using Cons.prems(10) by (simp add: sorted_wrt_append)
  have app: "appended fits A S a u i evs ?e (view (srv w)) ?st"
    by (rule event_store_appended[OF Cons.prems(1,2) _ later fit Cons.prems(4)])
      (simp add: temp_free_distinct[OF e0(3)])
  then obtain sb1 m1 where next1: "store_ok (fst ?st)" "own_keys (fst ?st) S a u i"
    "log_rep fits A (fst ?st) S a u i sb1 (snd ?st) (evs @ [?e])"
    "merged_state (fst ?st) S a u i = Inr m1" "map_of m1 = map_of m ++ map_of (temp_free (ev_state_delta e0))"
    using Cons.prems(5) by (auto simp: appended_def case_prod_beta temp_free_map)
  show ?case
    unfolding append_events.simps wp_bindE
  proof (rule wp_append_event[OF Cons.prems(1-3) base s1 _ _ fit _ refl])
    fix w1 :: "'a session_world"
    assume st: "?st = (view (srv w1), snd ?st)"
      and c: "cur_cache w1 = (cur_cache w)(session_key a u i \<mapsto> snd ?st)"
    from st have v: "view (srv w1) = fst ?st" by (metis fst_conv)
    let ?s = "s1\<lparr>s_last_update_time := PFloat (ev_timestamp ?e)\<rparr>"
    have "wp (append_events X A S es ?s) Q w1"
    proof (rule Cons.IH[where evs = "evs @ [?e]" and m = m1])
      show "run_fits fits A S a u i (map kept es) (view (srv w1), snd ?st)" using fits st by metis
      show "\<forall>e \<in> set es. \<not> ev_partial e \<and> ev_timestamp e \<noteq> 0 \<and> keys_distinct (ev_state_delta e)" using Cons.prems(9) by simp
    qed (use next1 s1 Cons.prems(10,12) in \<open>simp_all add: v c cache_fresh_def state_after_def\<close>)
    then show "case Inr (?e, ?s) of Inl e \<Rightarrow> Q (Inl e) w1
      | Inr x \<Rightarrow> wp (case x of (_, s') \<Rightarrow> append_events X A S es s') Q w1" by simp
  qed (use e0 in simp_all)
qed

end

section \<open>Properties\<close>

text \<open>
  C14. A session is a list of events. Whatever a session holds already, when a caller on a reliable
  cluster, whose cached segment index is missing or right, appends complete events with timestamps
  to it by \<open>append_event\<close>, one after the other in the order of their keys and each with room for
  itself and its deltas, and then reads it, \<open>get_session\<close> returns
  what the list of all its events says, each without the \<open>temp:\<close> keys of its delta: everything without a
  configuration, the last \<open>n\<close> for \<open>num_recent_events\<close>, those from the cutoff's microsecond on for
  \<open>after_timestamp\<close>, and the last \<open>n\<close> of these for both; and the state it returns is the old one
  overridden by the deltas in order. How the events are spread over segments, where a
  segment filled up and where the walk stopped is not visible.
\<close>

theorem appended_events_read_back:
  fixes w :: "'s session_world"
  assumes "reliable_client X view fits" "lossless A" "base_keeps A" "strips_temp A"
    and "d = view (srv w)" "store_ok d" "log_rep fits A d S a u i sb cur evs" "merged_state d S a u i = Inr m" "own_keys d S a u i"
    and "cache_fresh (cur_cache w) (session_key a u i) cur"
    and "s_app_name s = a" "s_user_id s = u" "s_id s = i"
    and "\<forall>e \<in> set es. \<not> ev_partial e \<and> ev_timestamp e \<noteq> 0 \<and> keys_distinct (ev_state_delta e)"
    and "run_fits fits A S a u i (map kept es) (d, cur)"
    and "sorted_wrt (<) (map event_key (evs @ map kept es))" "\<forall>e \<in> set (evs @ es). ts_ok (ev_timestamp e)"
    and "length (evs @ es) < 2 ^ 31"
    and "config_ok config" "\<forall>t. config_after config = Some t \<longrightarrow> ts_ok t"
  shows "\<exists>s1 w1 s2 w2. append_events X A S es s w = (Inr s1, w1)
    \<and> get_session X A S a u i config w1 = (Inr (Some s2), w2)
    \<and> s_events s2 = spec_read config (evs @ map kept es)
    \<and> map_of (s_state s2) = state_after (map_of m) (map kept es)"
proof -
  note rc = assms(1)
  have "wp (append_events X A S es s) (\<lambda>r w1. \<exists>s1. r = Inr s1 \<and>
      wp (get_session X A S a u i config) (\<lambda>r w2. \<exists>s2. r = Inr (Some s2)
        \<and> s_events s2 = spec_read config (evs @ map kept es)
        \<and> map_of (s_state s2) = state_after (map_of m) (map kept es)) w1) w"
  proof (rule reliable_client.wp_append_events[OF rc assms(3,4), where evs = evs and m = m])
    fix s' sb' cur' m' and w' :: "'s session_world"
    assume log: "log_rep fits A (view (srv w')) S a u i sb' cur' (evs @ map kept es)"
      and m': "merged_state (view (srv w')) S a u i = Inr m'" "map_of m' = state_after (map_of m) (map kept es)"
    have "wp (get_session X A S a u i config) (\<lambda>r w2. \<exists>s2. r = Inr (Some s2)
        \<and> s_events s2 = spec_read config (evs @ map kept es)
        \<and> map_of (s_state s2) = state_after (map_of m) (map kept es)) w'"
      by (rule reliable_client.wp_get_log[OF rc log m'(1) assms(16) _ _ assms(2,19)])
        (use assms(17,18,20) m'(2) in auto)
    then show "\<exists>s1. Inr s' = Inr s1 \<and> wp (get_session X A S a u i config) (\<lambda>r w2. \<exists>s2. r = Inr (Some s2)
        \<and> s_events s2 = spec_read config (evs @ map kept es)
        \<and> map_of (s_state s2) = state_after (map_of m) (map kept es)) w'" by simp
  qed (use assms(5-16) in simp_all)
  from wp_exI[OF this] obtain s1 w1 where 1: "append_events X A S es s w = (Inr s1, w1)"
    and 2: "wp (get_session X A S a u i config) (\<lambda>r w2. \<exists>s2. r = Inr (Some s2)
        \<and> s_events s2 = spec_read config (evs @ map kept es)
        \<and> map_of (s_state s2) = state_after (map_of m) (map kept es)) w1" by blast
  from wp_exI[OF 2] 1 show ?thesis by blast
qed

text \<open>
  C15. An append with state: the exact store, and what is read back. On a reliable cluster with room
  for the event and its deltas, a writer that knows the current segment and calls \<open>append_event\<close> gets
  the event and its session object with the event's timestamp, and the store afterwards is exactly
  this: the deltas merged into the state of the session, app and user records and the session's
  time set, the event put under its key into the current segment if it fits there, else into a
  new one with the counter stepped by one. No other record changes. A \<open>get_session\<close> right after it returns all events with
  the new one at the end and the old state overridden by the deltas, in whatever scopes they are,
  with the \<open>temp:\<close> keys left out. This holds on both paths, with one request for everything or
  with a rollover after the state was written.
\<close>

theorem append_event_read_back:
  assumes "reliable_client X view fits" "lossless A" "d = view (srv w)" "store_ok d"
    and "log_rep fits A d S a u i sb cur evs" "merged_state d S a u i = Inr m" "own_keys d S a u i"
    and "cache_fresh (cur_cache w) (session_key a u i) cur"
    and "base_append_event A s e0 = (s1, e)" "s_app_name s1 = a" "s_user_id s1 = u" "s_id s1 = i"
    and "\<not> ev_partial e" "ev_timestamp e \<noteq> 0" "keys_distinct (ev_state_delta e)" "event_fits fits A d S a u i e"
    and "sorted_wrt (<) (map event_key (evs @ [e]))" "\<forall>x \<in> set (evs @ [e]). ts_ok (ev_timestamp x)"
    and "length (evs @ [e]) < 2 ^ 31"
    and "partition_state (ev_state_delta e) = (ds, da, du)"
    and "d1 = scopes_written d S a u i ds da du (ev_timestamp e)"
    and "t = place_target fits d S a u i (event_key e) (PDict (event_to_inline_dict A e)) cur cur"
  shows "\<exists>w1 s2 w2. append_event X A S s e0 w = (Inr (e, s1\<lparr>s_last_update_time := PFloat (ev_timestamp e)\<rparr>), w1)
    \<and> view (srv w1) = place_store d1 S a u i (event_key e) (PDict (event_to_inline_dict A e))
        (rec_at d1 (session_pk S a u i)) cur t
    \<and> (\<forall>p. p \<notin> {session_pk S a u i, app_state_pk S a, user_state_pk S a u, segment_pk S a u i t} \<longrightarrow>
        view (srv w1) p = d p)
    \<and> get_session X A S a u i None w1 = (Inr (Some s2), w2) \<and> s_events s2 = evs @ [e]
    \<and> map_of (s_state s2) = map_of m ++ (map_of (ev_state_delta e) |` {k. \<not> prefix SCOPE_TEMP k})"
proof -
  have "wp (bindE (append_event X A S s e0) (\<lambda>_. get_session X A S a u i None)) (\<lambda>r w2. \<exists>w1 s2 t'.
      append_event X A S s e0 w = (Inr (e, s1\<lparr>s_last_update_time := PFloat (ev_timestamp e)\<rparr>), w1)
      \<and> event_store fits A S a u i e (d, cur) = (view (srv w1), t')
      \<and> r = Inr (Some s2) \<and> s_events s2 = evs @ [e]
      \<and> map_of (s_state s2) = map_of m ++ (map_of (ev_state_delta e) |` {k. \<not> prefix SCOPE_TEMP k})) w"
    using assms(2-19) by (intro reliable_client.wp_append_then_get[OF assms(1)]) blast+
  from wp_exI[OF this] obtain w1 s2 w2 t'
    where run: "append_event X A S s e0 w = (Inr (e, s1\<lparr>s_last_update_time := PFloat (ev_timestamp e)\<rparr>), w1)"
      "get_session X A S a u i None w1 = (Inr (Some s2), w2)" "s_events s2 = evs @ [e]"
      "map_of (s_state s2) = map_of m ++ (map_of (ev_state_delta e) |` {k. \<not> prefix SCOPE_TEMP k})"
    and st: "event_store fits A S a u i e (d, cur) = (view (srv w1), t')"
    by (auto simp: bindE_def)
  have v: "view (srv w1) = place_store d1 S a u i (event_key e) (PDict (event_to_inline_dict A e))
        (rec_at d1 (session_pk S a u i)) cur t"
    using st by (auto simp: event_store_def assms(20) Let_def entry_def assms(21,22))
  moreover have "view (srv w1) p = d p"
    if "p \<notin> {session_pk S a u i, app_state_pk S a, user_state_pk S a u, segment_pk S a u i t}" for p
    using that unfolding v by (simp add: place_store_def seg_upd_def assms(21) scopes_written_other)
  ultimately show ?thesis using run by (auto simp del: split_paired_All)
qed

definition demo_delta :: dict where
  "demo_delta = [(''step'', PInt 1), (''app:theme'', PInt 2), (''temp:x'', PInt 3), (''user:lang'', PInt 4)]"

lemma demo_dicts: "state_dict (map_of demo_records) k = []"
  by (simp add: state_dict_def state_of_def demo_records_def session_bins_def dget_def py_or_def)

lemma demo_partition: "partition_state (temp_free demo_delta)
    = ([(''step'', PInt 1)], [(''theme'', PInt 2)], [(''lang'', PInt 4)])"
  by (simp add: partition_state_def temp_free_def demo_delta_def scope_defs removeprefix_def dset_def)

lemma demo_event_fits: "event_fits (size_limit 500) sample_adk (map_of demo_records) demo_schema ''app'' ''ann'' ''s1''
    (sample_event ''e1'' 7 (temp_free demo_delta))"
proof -
  have m: "ts_micros 7 = 7000000" using ts_micros_of_int[of 7] by simp
  let ?d' = "scopes_written (map_of demo_records) demo_schema ''app'' ''ann'' ''s1''
    [(''step'', PInt 1)] [(''theme'', PInt 2)] [(''lang'', PInt 4)] 7"
  have "rec_at (map_of demo_records) (app_state_pk demo_schema ''app'') = []"
    "rec_at (map_of demo_records) (user_state_pk demo_schema ''app'' ''ann'') = []"
    "rec_at (map_of demo_records) (session_pk demo_schema ''app'' ''ann'' ''s1'') = session_bins ''app'' ''ann'' ''s1'' [] 5"
    by (simp_all add: rec_at_def demo_records_def)
  then have r: "rec_at ?d' (app_state_pk demo_schema ''app'') = [(STATE, PDict [(''theme'', PInt 2)])]"
    "rec_at ?d' (user_state_pk demo_schema ''app'' ''ann'') = [(STATE, PDict [(''lang'', PInt 4)])]"
    "rec_at ?d' (session_pk demo_schema ''app'' ''ann'' ''s1'') = session_bins ''app'' ''ann'' ''s1'' [(''step'', PInt 1)] 7"
    by (simp_all add: scopes_written_def rec_at_upd demo_dicts) (simp_all add: dset_def session_bins_def)
  have "size_limit 500 [(EVENTS, PDict [entry sample_adk (sample_event ''e1'' 7 (temp_free demo_delta))])]"
    by (simp add: size_limit_def entry_def event_key_def event_map_key_def sample_event_def length_fmt m
        temp_free_def demo_delta_def scope_defs
        event_to_inline_dict_def sample_adk_def event_val_def content_val_def part_val_def opt_val_def dget_def
        EVENT_SCHEMA_VERSION_def)
  then show ?thesis
    by (simp add: event_fits_def sample_event_def demo_partition scopes_fit_def r Let_def)
      (simp add: size_limit_def session_bins_def dset_def)
qed

text \<open>In the witness the three deltas and the event are written by one batch: the state of the app
  and the first segment are new records, and the session record has its part of the state.\<close>

theorem append_event_read_back_witness:
  "\<exists>w1 s1 s2 w2. append_event (calm_ext 500) sample_adk demo_schema demo_session (sample_event ''e1'' 7 demo_delta)
      (demo_world demo_records []) = (Inr (sample_event ''e1'' 7 (temp_free demo_delta), s1), w1)
    \<and> map_of (state_dict (mem_view (srv w1)) (app_state_pk demo_schema ''app'')) = [''theme'' \<mapsto> PInt 2]
    \<and> seg (mem_view (srv w1)) demo_schema ''app'' ''ann'' ''s1'' 0
        = [entry sample_adk (sample_event ''e1'' 7 (temp_free demo_delta))]
    \<and> mem_view (srv w1) (manifest_pk demo_schema ''app'' ''ann'') = map_of demo_records (manifest_pk demo_schema ''app'' ''ann'')
    \<and> get_session (calm_ext 500) sample_adk demo_schema ''app'' ''ann'' ''s1'' None w1 = (Inr (Some s2), w2)
    \<and> s_events s2 = [sample_event ''e1'' 7 (temp_free demo_delta)]
    \<and> map_of (s_state s2) ''app:theme'' = Some (PInt 2) \<and> map_of (s_state s2) ''temp:x'' = None"
proof -
  let ?given = "sample_event ''e1'' 7 demo_delta" and ?kept = "sample_event ''e1'' 7 (temp_free demo_delta)"
  let ?d = "map_of demo_records" and ?S = demo_schema
  let ?d1 = "scopes_written ?d ?S ''app'' ''ann'' ''s1'' [(''step'', PInt 1)] [(''theme'', PInt 2)] [(''lang'', PInt 4)] 7"
  let ?rec = "rec_at ?d1 (session_pk ?S ''app'' ''ann'' ''s1'')"
  have m: "ts_micros 7 = 7000000" using ts_micros_of_int[of 7] by simp
  have state: "merged_state ?d ?S ''app'' ''ann'' ''s1'' = Inr []"
    using state_dict_ok[OF demo_store_ok] by (simp add: merged_state_def demo_dicts merge_state_dicts)
  obtain s1 where base: "base_append_event sample_adk demo_session ?given = (s1, ?kept)"
    "s_app_name s1 = ''app''" "s_user_id s1 = ''ann''" "s_id s1 = ''s1''"
    by (simp add: sample_adk_def sample_event_def demo_session_def Let_def)
  have ts: "ts_ok 7" by (simp add: ts_ok_def m)
  have part: "partition_state (ev_state_delta ?kept) = ([(''step'', PInt 1)], [(''theme'', PInt 2)], [(''lang'', PInt 4)])"
    using demo_partition by (simp add: sample_event_def)
  have none: "seg ?d ?S ''app'' ''ann'' ''s1'' g = []" for g by (simp add: seg_def demo_records_def)
  have target: "place_target (size_limit 500) ?d ?S ''app'' ''ann'' ''s1'' (event_key ?kept)
      (PDict (event_to_inline_dict sample_adk ?kept)) 0 0 = 0"
    using demo_event_fits by (simp add: place_target_def seg_fits_def none event_fits_def entry_def)
  have time: "ev_timestamp ?kept = 7" by (simp add: sample_event_def)
  have "\<exists>w1 s2 w2. append_event (calm_ext 500) sample_adk ?S demo_session ?given (demo_world demo_records [])
      = (Inr (?kept, s1\<lparr>s_last_update_time := PFloat (ev_timestamp ?kept)\<rparr>), w1)
    \<and> mem_view (srv w1) = place_store ?d1 ?S ''app'' ''ann'' ''s1'' (event_key ?kept)
        (PDict (event_to_inline_dict sample_adk ?kept)) ?rec 0 0
    \<and> (\<forall>p. p \<notin> {session_pk ?S ''app'' ''ann'' ''s1'', app_state_pk ?S ''app'', user_state_pk ?S ''app'' ''ann'',
        segment_pk ?S ''app'' ''ann'' ''s1'' 0} \<longrightarrow> mem_view (srv w1) p = ?d p)
    \<and> get_session (calm_ext 500) sample_adk ?S ''app'' ''ann'' ''s1'' None w1 = (Inr (Some s2), w2)
    \<and> s_events s2 = [] @ [?kept]
    \<and> map_of (s_state s2) = map_of [] ++ (map_of (ev_state_delta ?kept) |` {k. \<not> prefix SCOPE_TEMP k})"
    by (rule append_event_read_back[OF calm.reliable_client_axioms sample_adk_lossless _ _ _ state _ _ base _ _ _ _ _ _ _ part _ target[symmetric]])
      (use demo_log demo_store_ok demo_event_fits ts time in
        \<open>simp_all add: own_keys_def demo_dicts cache_fresh_def sample_event_def temp_free_def demo_delta_def scope_defs\<close>)
  then obtain w1 s2 w2 where r: "append_event (calm_ext 500) sample_adk ?S demo_session ?given (demo_world demo_records [])
      = (Inr (?kept, s1\<lparr>s_last_update_time := PFloat (ev_timestamp ?kept)\<rparr>), w1)"
    "get_session (calm_ext 500) sample_adk ?S ''app'' ''ann'' ''s1'' None w1 = (Inr (Some s2), w2)" "s_events s2 = [] @ [?kept]"
    and v: "mem_view (srv w1) = place_store ?d1 ?S ''app'' ''ann'' ''s1'' (event_key ?kept)
        (PDict (event_to_inline_dict sample_adk ?kept)) ?rec 0 0"
    and fr: "\<forall>p. p \<notin> {session_pk ?S ''app'' ''ann'' ''s1'', app_state_pk ?S ''app'', user_state_pk ?S ''app'' ''ann'',
        segment_pk ?S ''app'' ''ann'' ''s1'' 0} \<longrightarrow> mem_view (srv w1) p = ?d p"
    and st: "map_of (s_state s2) = map_of [] ++ (map_of (ev_state_delta ?kept) |` {k. \<not> prefix SCOPE_TEMP k})"
    by blast
  have "map_of (ev_state_delta ?kept) ''app:theme'' = Some (PInt 2)" "map_of (ev_state_delta ?kept) ''temp:x'' = None"
    by (simp_all add: sample_event_def temp_free_def demo_delta_def scope_defs)
  then have theme: "map_of (s_state s2) ''app:theme'' = Some (PInt 2)" "map_of (s_state s2) ''temp:x'' = None"
    by (simp_all add: st map_add_def restrict_map_def scope_defs)
  have segs: "seg (mem_view (srv w1)) ?S ''app'' ''ann'' ''s1'' 0 = [entry sample_adk ?kept]"
    by (simp add: v place_store_def seg_upd_seg entry_def) (simp add: seg_def demo_records_def)
  have "state_dict (mem_view (srv w1)) (app_state_pk ?S ''app'') = state_dict ?d1 (app_state_pk ?S ''app'')"
    by (simp add: v place_store_def seg_upd_def state_dict_def)
  then have app: "map_of (state_dict (mem_view (srv w1)) (app_state_pk ?S ''app'')) = [''theme'' \<mapsto> PInt 2]"
    using scopes_written_dicts(2)[OF demo_store_ok _ _ _ refl, of "[(''step'', PInt 1)]" "[(''theme'', PInt 2)]"
        "[(''lang'', PInt 4)]" ?S "''app''" "''ann''" "''s1''" 7] by (simp add: demo_dicts)
  have "mem_view (srv w1) (manifest_pk ?S ''app'' ''ann'') = ?d (manifest_pk ?S ''app'' ''ann'')"
  proof (rule fr[rule_format])
    have "segment_pk ?S ''app'' ''ann'' ''s1'' 0 \<noteq> manifest_pk ?S ''app'' ''ann''" by (simp add: segment_pk_def manifest_pk_def)
    moreover have "manifest_pk ?S ''app'' ''ann'' \<noteq> session_pk ?S ''app'' ''ann'' ''s1''" by (subst eq_commute) simp
    ultimately show "manifest_pk ?S ''app'' ''ann'' \<notin> {session_pk ?S ''app'' ''ann'' ''s1'', app_state_pk ?S ''app'',
        user_state_pk ?S ''app'' ''ann'', segment_pk ?S ''app'' ''ann'' ''s1'' 0}" by auto
  qed
  with r theme segs app show ?thesis by (simp only: append_Nil) blast
qed

theorem appended_events_read_back_witness:
  "\<exists>s1 w1 s2 w2. append_events (calm_ext 500) sample_adk demo_schema
        [sample_event ''e1'' 7 demo_delta, sample_event ''e2'' 8 [], sample_event ''e3'' 9 []] demo_session
        (demo_world demo_records []) = (Inr s1, w1)
    \<and> get_session (calm_ext 500) sample_adk demo_schema ''app'' ''ann'' ''s1''
        (Some \<lparr>num_recent_events = Some 1, after_timestamp = Some 8\<rparr>) w1 = (Inr (Some s2), w2)
    \<and> s_events s2 = [sample_event ''e3'' 9 []] \<and> map_of (s_state s2) ''app:theme'' = Some (PInt 2)"
proof -
  let ?e1 = "sample_event ''e1'' 7 demo_delta" and ?e2 = "sample_event ''e2'' 8 []" and ?e3 = "sample_event ''e3'' 9 []"
  let ?c = "Some \<lparr>num_recent_events = Some 1, after_timestamp = Some 8\<rparr>"
  let ?d = "map_of demo_records" and ?S = demo_schema
  have m: "ts_micros 7 = 7000000" "ts_micros 8 = 8000000" "ts_micros 9 = 9000000"
    using ts_micros_of_int[of 7] ts_micros_of_int[of 8] ts_micros_of_int[of 9] by simp_all
  then have ts: "ts_ok 7" "ts_ok 8" "ts_ok 9" by (simp_all add: ts_ok_def)
  have kept: "map kept [?e1, ?e2, ?e3] = [sample_event ''e1'' 7 (temp_free demo_delta), ?e2, ?e3]"
    by (simp add: kept_def sample_event_def temp_free_def)
  have sorted: "sorted_wrt (<) (map event_key ([] @ map kept [?e1, ?e2, ?e3]))"
    unfolding kept using ts by (simp add: event_key_def sample_event_def key_less_iff m)
  have fits: "\<forall>e \<in> set [?e2, ?e3]. ev_state_delta e = [] \<and> size_limit 500 [(EVENTS, PDict [entry sample_adk e])]"
    using m by (simp add: size_limit_def entry_def event_key_def event_map_key_def sample_event_def length_fmt
        event_to_inline_dict_def sample_adk_def event_val_def content_val_def part_val_def opt_val_def dget_def
        EVENT_SCHEMA_VERSION_def)
  have state: "merged_state ?d ?S ''app'' ''ann'' ''s1'' = Inr []"
    using state_dict_ok[OF demo_store_ok] by (simp add: merged_state_def demo_dicts merge_state_dicts)
  have distinct: "keys_distinct (ev_state_delta (sample_event ''e1'' 7 (temp_free demo_delta)))"
    by (simp add: sample_event_def temp_free_def demo_delta_def scope_defs)
  have own: "own_keys ?d ?S ''app'' ''ann'' ''s1''" by (simp add: own_keys_def demo_dicts)
  let ?st = "event_store (size_limit 500) sample_adk ?S ''app'' ''ann'' ''s1''
      (sample_event ''e1'' 7 (temp_free demo_delta)) (?d, 0)"
  obtain sb where "log_rep (size_limit 500) sample_adk (fst ?st) ?S ''app'' ''ann'' ''s1'' sb (snd ?st)
      ([] @ [sample_event ''e1'' 7 (temp_free demo_delta)])"
    using event_store_appended[OF demo_log demo_store_ok distinct _ demo_event_fits own]
    by (auto simp: appended_def case_prod_beta)
  note plain = run_fits_plain[OF this _ fits]
  have rest: "run_fits (size_limit 500) sample_adk ?S ''app'' ''ann'' ''s1'' [?e2, ?e3] ?st"
    using plain sorted unfolding kept by simp
  have room: "run_fits (size_limit 500) sample_adk ?S ''app'' ''ann'' ''s1'' (map kept [?e1, ?e2, ?e3]) (?d, 0)"
    unfolding kept run_fits.simps(2)[of _ _ _ _ _ _ "sample_event ''e1'' 7 (temp_free demo_delta)"]
    using demo_event_fits rest by simp
  have "\<exists>s1 w1 s2 w2. append_events (calm_ext 500) sample_adk ?S [?e1, ?e2, ?e3] demo_session (demo_world demo_records []) = (Inr s1, w1)
    \<and> get_session (calm_ext 500) sample_adk ?S ''app'' ''ann'' ''s1'' ?c w1 = (Inr (Some s2), w2)
    \<and> s_events s2 = spec_read ?c ([] @ map kept [?e1, ?e2, ?e3])
    \<and> map_of (s_state s2) = state_after (map_of []) (map kept [?e1, ?e2, ?e3])"
    by (rule appended_events_read_back[OF calm.reliable_client_axioms sample_adk_lossless sample_adk_strips(2,1) _ _ _
          state own _ _ _ _ _ room sorted])
      (use demo_log demo_store_ok ts in \<open>auto simp: cache_fresh_def config_ok_def config_recent_def config_after_def
        sample_event_def demo_session_def demo_delta_def scope_defs\<close>)
  moreover have "spec_read ?c ([] @ map kept [?e1, ?e2, ?e3]) = [?e3]"
    unfolding kept by (simp add: spec_read_def config_recent_def config_after_def recent_def sample_event_def m)
  moreover have "state_after (map_of []) (map kept [?e1, ?e2, ?e3]) ''app:theme'' = Some (PInt 2)"
    unfolding kept by (simp add: state_after_def sample_event_def temp_free_def demo_delta_def scope_defs)
  ultimately show ?thesis by metis
qed

end
