(* ===== verification/Request_Bounds.thy ===== *)
theory Request_Bounds
  imports Session_Service Artifact_Service Memory_Service Reference_Server
begin

text \<open>
  How many requests a method sends. \<open>counting X\<close> is the client \<open>X\<close> with two meters in its state: the
  requests sent, and the items that the answers held and that a method may turn into further
  requests (rows of a query, ids of a manifest, words of a memory row, segments behind a session
  record). \<open>sends n m\<close> says that \<open>m\<close> sends at most \<open>n\<close> requests, \<open>sends_per_item n m\<close> that it sends
  at most \<open>n\<close> and one more for each item it was answered with, whatever the client answers and
  whatever fails. The rules follow the combinators of the monad and serve both, so a method's bound
  is read off its code.
\<close>

section \<open>A client that counts\<close>

text \<open>The items of a bin: the segments from 0 to the counter, the ids of a manifest, the words of a row.\<close>

fun bin_items :: "bin_name \<Rightarrow> pyval \<Rightarrow> nat" where
  "bin_items CUR_SEGMENT v = (case py_int v of Inl e \<Rightarrow> 0 | Inr i \<Rightarrow> nat i)"
| "bin_items SESSION_MANIFEST (PList l) = length l"
| "bin_items KEYWORDS (PList l) = length l"
| "bin_items b v = 0"

definition rec_items :: "bins \<Rightarrow> nat" where
  "rec_items bs = sum_list (map (\<lambda>(b, v). bin_items b v) bs)"

definition opt_items :: "bins option \<Rightarrow> nat" where
  "opt_items r = (case r of None \<Rightarrow> 0 | Some bs \<Rightarrow> rec_items bs)"

fun resp_items :: "ae_error + response \<Rightarrow> nat" where
  "resp_items (Inr (RespRec bs)) = rec_items bs"
| "resp_items (Inr (RespBatch rs)) = sum_list (map (\<lambda>(c, r). opt_items r) rs)"
| "resp_items _ = 0"

definition rows_items :: "bins list \<Rightarrow> nat" where
  "rows_items rows = sum_list (map (\<lambda>bs. 1 + rec_items bs) rows)"

fun tick :: "'a \<times> 's \<Rightarrow> nat \<Rightarrow> nat \<Rightarrow> 'a \<times> ('s \<times> nat \<times> nat)" where
  "tick (r, s) n k = (r, (s, n, k))"

definition counting :: "'s ext \<Rightarrow> ('s \<times> nat \<times> nat) ext" where
  "counting X =
     \<lparr>x_call = (\<lambda>r (s, n, k). tick (x_call X r s) (Suc n) (k + resp_items (fst (x_call X r s)))),
      x_query = (\<lambda>ns st b v (s, n, k). tick (x_query X ns st b v s) (Suc n)
         (k + (case fst (x_query X ns st b v s) of Inl e \<Rightarrow> 0 | Inr rows \<Rightarrow> rows_items rows))),
      x_code = x_code X,
      x_uniform = (\<lambda>lo hi (s, n, k). tick (x_uniform X lo hi s) n k),
      x_time = (\<lambda>(s, n, k). tick (x_time X s) n k),
      x_uuid_hex = (\<lambda>(s, n, k). tick (x_uuid_hex X s) n k)\<rparr>"

abbreviation requests :: "('s \<times> nat \<times> nat, 'm) world_scheme \<Rightarrow> nat" where
  "requests w \<equiv> fst (snd (srv w))"

abbreviation items :: "('s \<times> nat \<times> nat, 'm) world_scheme \<Rightarrow> nat" where
  "items w \<equiv> snd (snd (srv w))"

definition sends :: "nat \<Rightarrow> ('s \<times> nat \<times> nat, 'm, 'a) io \<Rightarrow> bool" where
  "sends n m \<longleftrightarrow> (\<forall>w. requests (snd (m w)) \<le> requests w + n)"

definition sends_per_item :: "nat \<Rightarrow> ('s \<times> nat \<times> nat, 'm, 'a) io \<Rightarrow> bool" where
  "sends_per_item n m \<longleftrightarrow> (\<forall>w. requests (snd (m w)) + items w \<le> requests w + n + items (snd (m w)))"

text \<open>Both are cases of one statement: the answer \<open>x\<close> is worth \<open>g x\<close> requests that were not sent.\<close>

definition pays :: "nat \<Rightarrow> ('a \<Rightarrow> nat) \<Rightarrow> nat \<Rightarrow> ('s \<times> nat \<times> nat, 'm, 'a) io \<Rightarrow> bool" where
  "pays p g n m \<longleftrightarrow> (\<forall>w. case m w of (r, w') \<Rightarrow>
     requests w' + p * items w + (case r of Inl e \<Rightarrow> 0 | Inr x \<Rightarrow> p * g x) \<le> requests w + n + p * items w')"

abbreviation costs :: "nat \<Rightarrow> nat \<Rightarrow> ('s \<times> nat \<times> nat, 'm, 'a) io \<Rightarrow> bool" where
  "costs p \<equiv> pays p (\<lambda>_. 0)"

lemma no_worth: "(case r of Inl e \<Rightarrow> 0 | Inr x \<Rightarrow> p * 0) = (0 :: nat)"
  by (cases r) simp_all

lemma costs_def: "costs p n m \<longleftrightarrow>
    (\<forall>w. requests (snd (m w)) + p * items w \<le> requests w + n + p * items (snd (m w)))"
  by (simp only: pays_def case_prod_beta no_worth add_0_right)

lemma sends_costs: "sends n m \<longleftrightarrow> costs 0 n m" "sends_per_item n m \<longleftrightarrow> costs 1 n m"
  by (simp_all add: sends_def sends_per_item_def costs_def)

lemma snd_tick: "snd (snd (tick p n k)) = (n, k)"
  by (cases p) simp

section \<open>The rules\<close>

named_theorems sends_intros "bounds on the requests of a computation"

lemma sends_mono: "costs p n m \<Longrightarrow> n \<le> k \<Longrightarrow> costs p k m"
  unfolding costs_def by (meson add_le_mono1 add_left_mono le_trans)

lemma sends_local [sends_intros]:
  "costs p 0 (retE x)" "costs p 0 (raiseE e)" "costs p 0 (liftE r)" "costs p 0 (getsE f)" "costs p 0 (sleep d)"
  "costs p 0 (cache_cur k c)"
  by (simp_all add: costs_def retE_def raiseE_def liftE_def getsE_def sleep_def cache_cur_def modifyE_def)

lemma sends_modifyE: "(\<And>w. srv (f w) = srv w) \<Longrightarrow> costs p 0 (modifyE f)"
  by (simp add: costs_def modifyE_def)

lemma sends_clock [sends_intros]:
  "costs p 0 (now_time (counting X))" "costs p 0 (uuid_hex (counting X))" "costs p 0 (uniform (counting X) lo hi)"
  by (simp_all add: costs_def now_time_def uuid_hex_def uniform_def counting_def case_prod_beta snd_tick)

text \<open>What an answer is worth may be spent by what follows it.\<close>

lemma pays_bindE:
  assumes "pays p g n m" "\<And>x. costs p (k + p * g x) (f x)"
  shows "costs p (n + k) (bindE m f)"
  unfolding pays_def
proof
  fix w
  obtain r w1 where m: "m w = (r, w1)" by fastforce
  show "case bindE m f w of (r, w') \<Rightarrow>
     requests w' + p * items w + (case r of Inl e \<Rightarrow> 0 | Inr x \<Rightarrow> p * 0) \<le> requests w + (n + k) + p * items w'"
  proof (cases r)
    case (Inl e)
    then show ?thesis using assms(1)[unfolded pays_def, rule_format, of w] by (simp add: bindE_def m)
  next
    case (Inr x)
    have "requests w1 + p * items w + p * g x \<le> requests w + n + p * items w1"
      using assms(1)[unfolded pays_def, rule_format, of w] by (simp add: m Inr)
    moreover have "requests (snd (f x w1)) + p * items w1 \<le> requests w1 + (k + p * g x) + p * items (snd (f x w1))"
      using assms(2)[of x] unfolding costs_def by blast
    ultimately show ?thesis by (simp add: bindE_def m Inr case_prod_beta split: sum.split)
  qed
qed

lemma sends_bindE [sends_intros]:
  "costs p n m \<Longrightarrow> (\<And>x. costs p k (f x)) \<Longrightarrow> costs p (n + k) (bindE m f)"
  by (rule pays_bindE[where g = "\<lambda>_. 0"]) simp_all

lemma sends_thenE [sends_intros]: "costs p n m \<Longrightarrow> costs p k m' \<Longrightarrow> costs p (n + k) (thenE m m')"
  unfolding thenE_def by (intro sends_bindE)

lemma sends_catchE [sends_intros]:
  assumes "costs p n m" "\<And>e. costs p k (h e)"
  shows "costs p (n + k) (catchE m q h)"
proof -
  have "costs p (n + k) (bindE (\<lambda>w. (Inr (fst (m w)), snd (m w)))
      (\<lambda>r. case r of Inl e \<Rightarrow> if q e then h e else raiseE e | Inr x \<Rightarrow> retE x))"
  proof (rule sends_bindE)
    show "costs p n (\<lambda>w. (Inr (fst (m w)), snd (m w)))" using assms(1) by (simp add: costs_def)
    show "costs p k (case r of Inl e \<Rightarrow> if q e then h e else raiseE e | Inr x \<Rightarrow> retE x)" for r
      using assms(2) sends_local(1,2)[THEN sends_mono, of k p] by (cases r) auto
  qed
  moreover have "bindE (\<lambda>w. (Inr (fst (m w)), snd (m w)))
      (\<lambda>r. case r of Inl e \<Rightarrow> if q e then h e else raiseE e | Inr x \<Rightarrow> retE x) = catchE m q h"
    by (auto simp: fun_eq_iff bindE_def catchE_def retE_def raiseE_def split: prod.split sum.split)
  ultimately show ?thesis by simp
qed

lemma sends_if [sends_intros]: "costs p n m \<Longrightarrow> costs p k m' \<Longrightarrow> costs p (max n k) (if b then m else m')"
  by (auto intro: sends_mono)

lemma sends_whenE [sends_intros]: "costs p n m \<Longrightarrow> costs p n (whenE b m)"
  by (auto simp: whenE_def intro: sends_mono[OF sends_local(1)])

lemma sends_forE_sum:
  "(\<And>x. x \<in> set xs \<Longrightarrow> costs p (g x) (f x)) \<Longrightarrow> costs p (sum_list (map g xs)) (forE f xs)"
proof (induction xs)
  case (Cons x xs)
  then have "costs p (g x + sum_list (map g xs)) (thenE (f x) (forE f xs))" by (intro sends_thenE) simp_all
  then show ?case by simp
qed (simp add: sends_local)

lemma sends_forE:
  "(\<And>x. x \<in> set xs \<Longrightarrow> costs p n (f x)) \<Longrightarrow> costs p (length xs * n) (forE f xs)"
  using sends_forE_sum[where g = "\<lambda>_. n" and p = p and xs = xs and f = f] by (simp add: sum_list_triv)

lemma sends_option [sends_intros]:
  "costs p n m \<Longrightarrow> (\<And>x. costs p k (f x)) \<Longrightarrow> costs p (max n k) (case v of None \<Rightarrow> m | Some x \<Rightarrow> f x)"
  using sends_mono[OF _ max.cobounded1] sends_mono[OF _ max.cobounded2] by (cases v) fastforce+

lemma sends_prod [sends_intros]: "(\<And>x y. costs p n (f x y)) \<Longrightarrow> costs p n (case q of (x, y) \<Rightarrow> f x y)"
  by (simp split: prod.split)

lemma pays_or_not_found:
  assumes "pays p g n m"
  shows "pays p (case_option 0 g) n (or_not_found m)"
  unfolding pays_def
proof
  fix w
  obtain r w1 where m: "m w = (r, w1)" by fastforce
  show "case or_not_found m w of (r, w') \<Rightarrow> requests w' + p * items w
      + (case r of Inl e \<Rightarrow> 0 | Inr x \<Rightarrow> p * case_option 0 g x) \<le> requests w + n + p * items w'"
    using assms[unfolded pays_def, rule_format, of w]
    by (cases r) (simp_all add: or_not_found_def catchE_def bindE_def retE_def m)
qed

lemma sends_or_not_found [sends_intros]: "costs p n m \<Longrightarrow> costs p n (or_not_found m)"
  unfolding or_not_found_def
  using sends_catchE[OF sends_bindE[OF _ sends_local(1)] sends_local(1), of p n m] by simp

lemma pays_costs: "pays p g n m \<Longrightarrow> costs p n m"
  unfolding pays_def by (fastforce split: prod.splits sum.splits)

lemma pays_call: "pays p (\<lambda>x. resp_items (Inr x)) 1 (client_call (counting X) r)"
proof (unfold pays_def, rule allI)
  fix w :: "('a \<times> nat \<times> nat, 'b) world_scheme"
  obtain s n k where w: "srv w = (s, n, k)" by (metis prod_cases3)
  obtain res s' where "x_call X r s = (res, s')" by fastforce
  then have "client_call (counting X) r w = (lift_ae res, w\<lparr>srv := (s', Suc n, k + resp_items res)\<rparr>)"
    by (simp add: client_call_def counting_def w)
  then show "case client_call (counting X) r w of (r, w') \<Rightarrow> requests w' + p * items w
      + (case r of Inl e \<Rightarrow> 0 | Inr x \<Rightarrow> p * resp_items (Inr x)) \<le> requests w + 1 + p * items w'"
    by (cases res) (simp_all add: w algebra_simps)
qed

lemma pays_query: "pays p rows_items 1 (client_query (counting X) ns st b v)"
proof (unfold pays_def, rule allI)
  fix w :: "('a \<times> nat \<times> nat, 'b) world_scheme"
  obtain s n k where w: "srv w = (s, n, k)" by (metis prod_cases3)
  obtain res s' where "x_query X ns st b v s = (res, s')" by fastforce
  then have "client_query (counting X) ns st b v w = (lift_ae res, w\<lparr>srv := (s', Suc n,
      k + (case res of Inl e \<Rightarrow> 0 | Inr rows \<Rightarrow> rows_items rows))\<rparr>)"
    by (simp add: client_query_def counting_def w)
  then show "case client_query (counting X) ns st b v w of (r, w') \<Rightarrow> requests w' + p * items w
      + (case r of Inl e \<Rightarrow> 0 | Inr x \<Rightarrow> p * rows_items x) \<le> requests w + 1 + p * items w'"
    by (cases res) (simp_all add: w algebra_simps)
qed

text \<open>An answer that is unpacked is worth as much as the answer.\<close>

lemma pays_lift:
  assumes "pays p g n m" "\<And>x y. f x = Inr y \<Longrightarrow> h y \<le> g x"
  shows "pays p h n (bindE m (\<lambda>x. liftE (f x)))"
proof (unfold pays_def, rule allI)
  fix w
  obtain r w1 where m: "m w = (r, w1)" by fastforce
  have law: "requests w1 + p * items w + (case r of Inl e \<Rightarrow> 0 | Inr x \<Rightarrow> p * g x) \<le> requests w + n + p * items w1"
    using assms(1)[unfolded pays_def, rule_format, of w] by (simp add: m)
  show "case bindE m (\<lambda>x. liftE (f x)) w of (r, w') \<Rightarrow> requests w' + p * items w
      + (case r of Inl e \<Rightarrow> 0 | Inr x \<Rightarrow> p * h x) \<le> requests w + n + p * items w'"
  proof (cases r)
    case (Inr x)
    then have r: "requests w1 + p * items w + p * g x \<le> requests w + n + p * items w1" using law by simp
    show ?thesis
    proof (cases "f x")
      case (Inl e)
      then show ?thesis using r by (simp add: bindE_def liftE_def m \<open>r = Inr x\<close>)
    next
      case (Inr y)
      then have "p * h y \<le> p * g x" using assms(2)[of x y] by simp
      from order_trans[OF add_left_mono[OF this] r] show ?thesis
        by (simp add: bindE_def liftE_def m \<open>r = Inr x\<close> Inr)
    qed
  qed (use law in \<open>simp add: bindE_def m\<close>)
qed

text \<open>What is computed from an answer is known when the rest runs.\<close>

lemma sends_lifted: "(\<And>x. r = Inr x \<Longrightarrow> costs p n (f x)) \<Longrightarrow> costs p n (bindE (liftE r) f)"
  by (cases r) (auto simp: costs_def bindE_def liftE_def)

lemma pays_get: "pays p rec_items 1 (client_get (counting X) pk)"
  unfolding client_get_def by (rule pays_lift[OF pays_call]) (auto elim!: as_rec.elims)

lemma pays_batch_read: "pays p (\<lambda>rs. sum_list (map (\<lambda>(c, r). opt_items r) rs)) 1 (client_batch_read (counting X) pks)"
  unfolding client_batch_read_def by (rule pays_lift[OF pays_call]) (auto elim!: as_batch.elims)

lemma sends_query [sends_intros]: "costs p 1 (client_query (counting X) ns st b v)"
  by (rule pays_costs[OF pays_query])

lemma sends_client [sends_intros]:
  "costs p 1 (client_get (counting X) pk)" "costs p 1 (client_select (counting X) pk names)"
  "costs p 1 (client_put (counting X) pk bs c)" "costs p 1 (client_operate (counting X) pk ops g)"
  "costs p 1 (client_remove (counting X) pk)" "costs p 1 (client_batch_read (counting X) pks)"
  "costs p 1 (client_batch_write (counting X) ws)"
  using sends_bindE[OF pays_costs[OF pays_call] sends_local(3)] sends_bindE[OF pays_costs[OF pays_call] sends_local(1)]
  by (simp_all add: client_get_def client_select_def client_put_def client_operate_def client_remove_def
      client_batch_read_def client_batch_write_def)

section \<open>The retry loops\<close>

lemma sends_back_off [sends_intros]: "costs p 0 (back_off (counting X) d)"
  unfolding back_off_def using sends_bindE[OF sends_clock(3) sends_local(5)] by simp

lemma sends_retry_loop: "costs p n m \<Longrightarrow> costs p (length as * n) (retry_loop (counting X) m rt as d)"
proof (induction as arbitrary: d)
  case (Cons a as)
  have "costs p (n + (0 + length as * n)) (retry_loop (counting X) m rt (a # as) d)"
    unfolding retry_loop.simps by (intro sends_catchE sends_thenE sends_back_off Cons)
  then show ?case by simp
qed (simp add: sends_local)

lemma sends_retrying [sends_intros]:
  "costs p n m \<Longrightarrow> costs p ((OVERLOAD_MAX_RETRIES + 1) * n) (write_retrying_overload (counting X) m rt)"
  unfolding write_retrying_overload_def using sends_retry_loop[of p n m "[0..<OVERLOAD_MAX_RETRIES + 1]"] by simp

lemma sends_batch_loop: "costs p (length as) (batch_retry_loop (counting X) ws as d :: ('s \<times> nat \<times> nat, 'm, int list) io)"
proof (induction as arbitrary: d)
  case (Cons a as)
  have again: "costs p (length as)
      (thenE (back_off (counting X) d) (batch_retry_loop (counting X) ws as (next_delay d)) :: ('s \<times> nat \<times> nat, 'm, int list) io)" for d
    using sends_thenE[OF sends_back_off Cons] by simp
  show ?case
    unfolding batch_retry_loop.simps Let_def
    by (rule sends_mono, (rule again sends_intros)+, simp)
qed (simp add: sends_local)

lemma sends_batch_retry [sends_intros]:
  "costs p (OVERLOAD_MAX_RETRIES + 1) (batch_write_with_retry (counting X) ws)"
  unfolding batch_write_with_retry_def using sends_batch_loop[where as = "[0..<OVERLOAD_MAX_RETRIES + 1]"] by simp

section \<open>Appending\<close>

lemma sends_segment_size: "costs p 1 (segment_size (counting X) pk)"
  unfolding segment_size_def
  by (rule sends_mono, (rule sends_intros)+, simp)

lemma sends_roll_over: "costs p 12 (roll_over (counting X) S a u i n)"
  unfolding roll_over_def Let_def
  by (rule sends_mono, (rule sends_intros)+, simp add: OVERLOAD_MAX_RETRIES_def)

text \<open>Each attempt is a put, a size request and a rollover.\<close>

lemma sends_place_loop: "costs p (n * 24) (place_loop (counting X) S a u i op n c)"
proof (induction n arbitrary: c)
  case (Suc n)
  show ?case
    unfolding place_loop.simps Let_def
    by (rule sends_mono, (rule sends_intros sends_segment_size sends_roll_over Suc)+, simp add: OVERLOAD_MAX_RETRIES_def)
qed (simp add: sends_local)

lemma sends_place_event: "costs p (if full then 1548 else 1536) (place_event (counting X) S a u i c op full)"
proof -
  have "costs p (n + 1536) (bindE m (\<lambda>c. place_loop (counting X) S a u i op max_attempts c))" if "costs p n m" for n m
    by (rule sends_mono, (rule sends_intros sends_place_loop that)+, simp add: max_attempts_def)
  from this[OF sends_roll_over] this[OF sends_local(1)] show ?thesis by (simp add: place_event_def)
qed

lemma sends_current_segment: "costs p 1 (current_segment (counting X) S a u i)"
  unfolding current_segment_def Let_def
  by (rule sends_mono, (rule sends_intros)+, simp)

lemma sends_results: "(\<And>x xs. costs p n (f x xs)) \<Longrightarrow> costs p n (case r of [] \<Rightarrow> raiseE e | x # xs \<Rightarrow> f x xs)"
  using sends_mono[OF sends_local(2)] by (cases r) simp_all

lemma sends_append_record: "costs p 1560 (append_event_record (counting X) S a u i k v ds da du now)"
proof -
  have over: "costs p 1548 (place_event (counting X) S a u i c op True)"
    and plain: "costs p 1536 (place_event (counting X) S a u i c op False)" for c op
    using sends_place_event[where full = True] sends_place_event[where full = False] by simp_all
  show ?thesis
    unfolding append_event_record_def Let_def
    by (rule sends_mono, (rule sends_intros sends_current_segment over plain sends_results)+, simp add: OVERLOAD_MAX_RETRIES_def)
qed

lemma sends_append_event: "costs p 1560 (append_event (counting X) A S s e)"
  unfolding append_event_def
  by (rule sends_mono, (rule sends_intros sends_append_record)+, simp)

section \<open>The other methods\<close>

lemma sends_batch_read: "costs p 1 (batch_read (counting X) ks)"
  unfolding batch_read_def
  by (rule sends_mono, (rule sends_intros)+, simp)

lemma sends_create_session: "costs p 15 (create_session (counting X) S a u st sid)"
  unfolding create_session_def merge_scoped_state_def manifest_add_def merge_state_for_read_def Let_def
  by (rule sends_mono, (rule sends_intros sends_batch_read)+, simp add: OVERLOAD_MAX_RETRIES_def)

lemma sends_read_entries: "costs p 1 (read_segment_entries (counting X) S a u i g n t)"
  unfolding read_segment_entries_def
  by (rule sends_mono, (rule sends_intros)+, simp)

lemma sends_load_loop: "costs p (length gs) (load_loop (counting X) S a u i n t gs col)"
proof (induction gs arbitrary: col)
  case (Cons g gs)
  show ?case
    unfolding load_loop.simps Let_def
    by (rule sends_mono, (rule sends_intros sends_read_entries Cons)+, simp)
qed (simp add: sends_local)

lemma sends_load_events: "costs p (nat (cur + 1)) (load_events (counting X) A S a u i cur config)"
  unfolding load_events_def Let_def
  by (rule sends_mono, (rule sends_intros sends_load_loop)+, simp add: down_to_zero_def)

lemma bin_items_le: "map_of bs b = Some v \<Longrightarrow> bin_items b v \<le> rec_items bs"
proof (induction bs)
  case (Cons x bs)
  then show ?case by (cases x) (force simp: rec_items_def split: if_splits)
qed simp

lemma counter_items: "py_int (dget bs CUR_SEGMENT (PInt 0)) = Inr i \<Longrightarrow> nat i \<le> rec_items bs"
  using bin_items_le[of bs CUR_SEGMENT] by (cases "map_of bs CUR_SEGMENT") (auto simp: dget_def)

lemma list_bin_items:
  assumes "list_items (py_or (pget bs b) (PList [])) = Inr l" "b = SESSION_MANIFEST \<or> b = KEYWORDS"
  shows "length l \<le> rec_items bs"
proof (cases "map_of bs b")
  case (Some v)
  with assms bin_items_le[OF Some] show ?thesis
    by (cases v) (auto simp: dget_def py_or_def split: if_splits)
qed (use assms in \<open>simp add: dget_def py_or_def\<close>)

lemma emap_length: "emap f xs = Inr ys \<Longrightarrow> length ys = length xs"
  by (induction xs arbitrary: ys) (auto simp: ebind_def split: sum.splits)


lemma batch_rows_items_le:
  assumes "batch_rows ks rs = Inr rows" "row rows k = Inr r"
  shows "opt_items r \<le> sum_list (map (\<lambda>(c, r). opt_items r) rs)"
proof -
  have "map_of (rev (map (\<lambda>(k, (result, rec)). (k, if result = 0 then rec else None)) (zip ks rs))) k = Some r"
    using assms by (auto simp: batch_rows_def row_def split: if_splits option.splits)
  from map_of_SomeD[OF this] obtain c x where x: "(c, x) \<in> set rs" "r = (if c = 0 then x else None)"
    by (auto dest: set_zip_rightD)
  have "opt_items r \<le> opt_items x" using x(2) by (auto simp: opt_items_def)
  also have "opt_items x \<le> sum_list (map (\<lambda>(c, r). opt_items r) rs)"
    using x(1) member_le_sum_list[of "opt_items x" "map (\<lambda>(c, r). opt_items r) rs"] by force
  finally show ?thesis .
qed

lemma sends_get_session: "sends_per_item 2 (get_session (counting X) A S a u i config)"
proof -
  let ?spk = "session_pk S a u i"
  let ?g = "\<lambda>rows. case row rows ?spk of Inl e \<Rightarrow> 0 | Inr r \<Rightarrow> opt_items r"
  have read: "pays 1 ?g 1 (batch_read (counting X) [?spk, app_state_pk S a, user_state_pk S a u])"
    unfolding batch_read_def
    by (subst if_not_P, simp, rule pays_lift[OF pays_batch_read]) (auto dest: batch_rows_items_le split: sum.split)
  have load: "costs 1 (1 + rec_items rec) (load_events (counting X) A S a u i cur config)"
    if "py_int (dget rec CUR_SEGMENT (PInt 0)) = Inr cur" for rec cur
    by (rule sends_mono[OF sends_load_events]) (use counter_items[OF that] in simp)
  have found: "costs 1 (1 + rec_items rec)
      (bindE (liftE m) (\<lambda>merged. bindE (liftE (py_int (dget rec CUR_SEGMENT (PInt 0)))) (\<lambda>cur.
        thenE (cache_cur k cur) (bindE (load_events (counting X) A S a u i cur config) (\<lambda>events. retE (h merged events))))))"
    for rec m k h
  proof (intro sends_lifted)
    fix merged cur assume "py_int (dget rec CUR_SEGMENT (PInt 0)) = Inr cur"
    note load[OF this]
    from sends_thenE[OF sends_local(6) sends_bindE[OF this sends_local(1)]]
    show "costs 1 (1 + rec_items rec)
        (thenE (cache_cur k cur) (bindE (load_events (counting X) A S a u i cur config) (\<lambda>events. retE (h merged events))))"
      by simp
  qed
  have rest: "costs 1 (1 + 1 * ?g rows) (bindE (liftE (row rows ?spk)) (\<lambda>r. case r of None \<Rightarrow> retE None
      | Some rec \<Rightarrow> bindE (liftE (m rec)) (\<lambda>merged. bindE (liftE (py_int (dget rec CUR_SEGMENT (PInt 0)))) (\<lambda>cur.
        thenE (cache_cur k cur) (bindE (load_events (counting X) A S a u i cur config)
          (\<lambda>events. retE (h rec merged events)))))))" for rows m k h
    by (intro sends_lifted)
      (auto simp: opt_items_def split: option.split intro: found[simplified] sends_mono[OF sends_local(1)])
  show ?thesis
    unfolding sends_costs get_session_def Let_def
    by (rule sends_mono[OF pays_bindE[OF read rest]]) simp
qed

lemma sends_batch_bins: "costs p 1 (batch_read_bins (counting X) ks bs)"
  unfolding batch_read_bins_def
  by (rule sends_mono, (rule sends_intros)+, simp)

lemma sends_manifest_remove: "costs p 1 (manifest_remove (counting X) S a u v)"
  unfolding manifest_remove_def
  by (rule sends_mono, (rule sends_intros)+, simp)

lemma sort_rows_stale:
  "sort_rows a u rows ss st = Inr (ss', st') \<Longrightarrow> length st' \<le> length st + length rows"
  by (induction a u rows ss st arbitrary: ss' st' rule: sort_rows.induct)
    (fastforce simp: Let_def ebind_def split: if_splits sum.splits)+

lemma sends_list_for_user: "sends_per_item 2 (list_sessions_for_user (counting X) S a u)"
proof -
  have stale: "costs 1 (length ids) (bindE (liftE (sort_rows a u (map h ids) [] []))
      (\<lambda>(ss, st). thenE (whenE (st \<noteq> []) (manifest_remove_stale (counting X) S a u (map PStr st))) (retE ss)))"
    for ids :: "string list" and h
  proof (rule sends_lifted, clarify)
    fix ss st assume "sort_rows a u (map h ids) [] [] = Inr (ss, st)"
    then have n: "length st \<le> length ids" by (auto dest: sort_rows_stale)
    have "costs 1 (length (map PStr st) * 1) (manifest_remove_stale (counting X) S a u (map PStr st))"
      unfolding manifest_remove_stale_def by (rule sends_forE, rule sends_manifest_remove)
    then have "costs 1 (length st) (manifest_remove_stale (counting X) S a u (map PStr st))" by simp
    from sends_thenE[OF sends_whenE[OF this] sends_local(1)] n
    show "costs 1 (length ids)
        (thenE (whenE (st \<noteq> []) (manifest_remove_stale (counting X) S a u (map PStr st))) (retE ss))"
      by (intro sends_mono[OF sends_thenE[OF sends_whenE[OF \<open>costs 1 (length st) _\<close>] sends_local(1)]]) simp
  qed
  have listed: "costs 1 (1 + rec_items bs) (bindE (liftE (ebind (list_items (py_or (pget bs SESSION_MANIFEST) (PList [])))
        (emap str_of))) (\<lambda>ids. if ids = [] then retE [] else bindE (batch_read_bins (counting X) (h ids) LIST_SESSION_BINS) (\<lambda>rows.
          bindE (liftE (sort_rows a u (map (g rows) ids) [] []))
            (\<lambda>(ss, st). thenE (whenE (st \<noteq> []) (manifest_remove_stale (counting X) S a u (map PStr st))) (retE ss)))))"
    for bs h g
  proof (rule sends_lifted)
    fix ids assume "ebind (list_items (py_or (pget bs SESSION_MANIFEST) (PList []))) (emap str_of) = Inr ids"
    then have n: "length ids \<le> rec_items bs"
      using list_bin_items[of bs SESSION_MANIFEST] by (auto simp: ebind_def emap_length split: sum.splits)
    show "costs 1 (1 + rec_items bs) (if ids = [] then retE [] else bindE (batch_read_bins (counting X) (h ids) LIST_SESSION_BINS) (\<lambda>rows.
          bindE (liftE (sort_rows a u (map (g rows) ids) [] []))
            (\<lambda>(ss, st). thenE (whenE (st \<noteq> []) (manifest_remove_stale (counting X) S a u (map PStr st))) (retE ss))))"
      by (rule sends_mono[OF sends_if[OF sends_local(1) sends_bindE[OF sends_batch_bins stale]]]) (use n in simp)
  qed
  have "pays 1 (case_option 0 rec_items) 1 (or_not_found (client_get (counting X) (manifest_pk S a u)))"
    by (rule pays_or_not_found[OF pays_get])
  then show ?thesis
    unfolding sends_costs list_sessions_for_user_def Let_def
  proof (rule sends_mono[OF pays_bindE[where k = 1]])
    fix found
    show "costs 1 (1 + 1 * case_option 0 rec_items found) (case found of None \<Rightarrow> retE []
       | Some bs \<Rightarrow> bindE (liftE (ebind (list_items (py_or (pget bs SESSION_MANIFEST) (PList [])))
                    (emap str_of))) (\<lambda>ids.
             if ids = [] then retE []
             else bindE (batch_read_bins (counting X) (map (session_pk S a u) ids) LIST_SESSION_BINS) (\<lambda>rows.
               bindE (liftE (sort_rows a u (map (\<lambda>sid. (sid, dget rows (session_pk S a u sid) None)) ids) [] []))
                 (\<lambda>(ss, st). thenE (whenE (st \<noteq> []) (manifest_remove_stale (counting X) S a u (map PStr st))) (retE ss)))))"
      using listed[simplified] by (cases found) (auto intro: sends_mono[OF sends_local(1)])
  qed simp
qed

lemma sends_list_sessions:
  "sends 1 (list_sessions (counting X) S a None)" "sends_per_item 2 (list_sessions (counting X) S a (Some u))"
proof -
  show "sends 1 (list_sessions (counting X) S a None)"
    unfolding sends_costs list_sessions_def option.case
    by (rule sends_mono, (rule sends_intros)+, simp)
qed (simp add: list_sessions_def sends_list_for_user)

lemma sends_delete_session: "sends_per_item 5 (delete_session (counting X) S a u i)"
proof -
  have gone: "costs 1 1 (bindE (or_not_found (client_remove (counting X) pk)) (\<lambda>_. retE ()))" for pk
    by (rule sends_mono, (rule sends_intros)+, simp)
  have tail: "costs 1 2 (thenE (or_not_found (client_remove (counting X) pk))
      (thenE (modifyE (\<lambda>w. w\<lparr>cur_cache := g (cur_cache w)\<rparr>)) (manifest_remove (counting X) S a u v)))" for pk g v
    by (rule sends_mono, (rule sends_intros sends_modifyE sends_manifest_remove | simp)+)
  have found: "costs 1 (4 + rec_items bs) (bindE (liftE (py_int (dget bs CUR_SEGMENT (PInt 0)))) (\<lambda>cur.
      thenE (forE (\<lambda>g. bindE (or_not_found (client_remove (counting X) (h g))) (\<lambda>_. retE ())) [0..<nat (cur + 2)])
       (thenE (or_not_found (client_remove (counting X) pk))
        (thenE (modifyE (\<lambda>w. w\<lparr>cur_cache := k (cur_cache w)\<rparr>)) (manifest_remove (counting X) S a u v)))))" for bs h pk k v
  proof (rule sends_lifted)
    fix cur assume "py_int (dget bs CUR_SEGMENT (PInt 0)) = Inr cur"
    from counter_items[OF this] have n: "length [0..<nat (cur + 2)] * 1 + 2 \<le> 4 + rec_items bs" by simp
    show "costs 1 (4 + rec_items bs) (thenE (forE (\<lambda>g. bindE (or_not_found (client_remove (counting X) (h g))) (\<lambda>_. retE ())) [0..<nat (cur + 2)])
       (thenE (or_not_found (client_remove (counting X) pk))
        (thenE (modifyE (\<lambda>w. w\<lparr>cur_cache := k (cur_cache w)\<rparr>)) (manifest_remove (counting X) S a u v))))"
      by (rule sends_mono[OF sends_thenE[OF sends_forE[OF gone] tail] n])
  qed
  show ?thesis
    unfolding sends_costs delete_session_def Let_def
    by (rule sends_mono[OF pays_bindE[OF pays_or_not_found[OF pays_get], where k = 4]])
      (auto split: option.split intro: found[simplified] sends_mono[OF sends_local(1)])
qed

section \<open>The artifact methods\<close>

lemma sends_rows: "costs p 1 (rows_for (counting X) S a u s f)" "costs p 1 (versions_for (counting X) S a u s f)"
  "costs p 1 (filenames_for (counting X) S a u s)"
  unfolding versions_for_def rows_for_def filenames_for_def
  by (rule sends_mono, (rule sends_intros)+, simp)+

lemma sends_chosen: "costs p 1 (chosen_version (counting X) S a u s f v)"
  unfolding chosen_version_def
  by (rule sends_mono, (rule sends_intros sends_rows)+, simp)

lemma sends_save_artifact: "costs p 2 (save_artifact (counting X) ep S a u f part sid meta)"
  unfolding save_artifact_def allocate_version_def Let_def
  by (rule sends_mono, (rule sends_intros)+, simp)

lemma sends_load_artifact: "costs p 2 (load_artifact (counting X) S a u f sid v)"
  unfolding load_artifact_def
  by (rule sends_mono, (rule sends_intros sends_chosen)+, simp)

lemma sends_artifact_reads:
  "costs p 2 (list_artifact_keys (counting X) S a u sido)" "costs p 1 (list_versions (counting X) S a u f sido)"
  "costs p 1 (list_artifact_versions (counting X) S a u f sido)"
  "costs p 2 (get_artifact_version (counting X) S a u f sido v)"
  unfolding list_artifact_keys_def list_versions_def list_artifact_versions_def get_artifact_version_def
  by (rule sends_mono, (rule sends_intros sends_chosen sends_rows)+, simp)+

lemma select_rows_length: "select_rows f rows = Inr out \<Longrightarrow> length out \<le> rows_items rows"
  by (induction f rows arbitrary: out rule: select_rows.induct)
    (fastforce simp: ebind_def rows_items_def split: if_splits sum.splits)+

lemma sends_delete_artifact: "sends_per_item 2 (delete_artifact (counting X) S a u f sid)"
proof -
  have gone: "costs 1 1 (bindE (or_not_found (client_remove (counting X) pk)) (\<lambda>_. retE ()))" for pk
    by (rule sends_mono, (rule sends_intros)+, simp)
  have rows: "pays 1 length 1 (rows_for (counting X) S a u s f)" for s
    unfolding rows_for_def by (rule pays_lift[OF pays_query select_rows_length])
  have versions: "pays 1 length 1 (versions_for (counting X) S a u s f)" for s
    unfolding versions_for_def
    using pays_lift[OF rows[of s], of "\<lambda>rows. Inr (map fst rows)" length] by (simp add: retE_def liftE_def)
  have "costs 1 (1 + 1 * length vs) (thenE (forE (\<lambda>v. bindE (or_not_found (client_remove (counting X) (pk v))) (\<lambda>_. retE ())) vs)
      (bindE (or_not_found (client_remove (counting X) pk')) (\<lambda>_. retE ())))" for vs :: "int list" and pk pk'
    by (rule sends_mono[OF sends_thenE[OF sends_forE[OF gone] gone]]) simp
  from pays_bindE[OF versions this] show ?thesis
    unfolding sends_costs delete_artifact_def by (intro sends_lifted) (simp add: numeral_2_eq_2)
qed

section \<open>The memory methods\<close>

lemma sends_search: "costs p 2 (search_memory (counting X) A so S top_k a u q)"
  unfolding search_memory_def Let_def
  by (rule sends_mono, (rule sends_intros sends_batch_read)+, simp)

lemma sends_posting: "costs p 2 (append_posting_ref (counting X) S a u t r)"
  unfolding append_posting_ref_def Let_def
  by (rule sends_mono, (rule sends_intros)+, simp)

lemma sends_upsert: "costs p (1 + length (tokenize so t) * 2) (upsert_memory (counting X) A so S a u i e t)"
  unfolding upsert_memory_def
  by (rule sends_intros sends_forE sends_posting)+

lemma sends_purge: "sends_per_item 1 (purge_session_memories (counting X) S a u s)"
proof -
  have gone: "costs 1 1 (bindE (or_not_found (client_remove (counting X) pk)) (\<lambda>_. retE ()))" for pk
    by (rule sends_mono, (rule sends_intros)+, simp)
  have refs: "costs 1 (length ws) (remove_posting_refs (counting X) S a u ws s e t)" for ws e t
  proof -
    have "costs 1 1 (bindE (or_not_found (client_operate (counting X) pk ops g)) (\<lambda>_. retE ()))" for pk ops g
      by (rule sends_mono, (rule sends_intros)+, simp)
    from sends_forE[OF this, of ws] show ?thesis unfolding remove_posting_refs_def by simp
  qed
  have row: "costs 1 (1 + rec_items bs) (purge_row (counting X) S a u s bs)" for bs
    unfolding purge_row_def
  proof (intro sends_lifted)
    fix e ws t assume "ebind (list_items (py_or (pget bs KEYWORDS) (PList []))) (emap str_of) = Inr ws"
    then have n: "length ws \<le> rec_items bs"
      using list_bin_items[of bs KEYWORDS] by (auto simp: ebind_def emap_length split: sum.splits)
    show "costs 1 (1 + rec_items bs) (thenE (whenE (ws \<noteq> [] \<and> e \<noteq> []) (remove_posting_refs (counting X) S a u ws s e t))
       (bindE (or_not_found (client_remove (counting X) (memory_pk S a u s e))) (\<lambda>_. retE ())))"
      by (rule sends_mono[OF sends_thenE[OF sends_whenE[OF refs] gone]]) (use n in simp)
  qed
  have "costs 1 (0 + 1 * rows_items rows) (forE (purge_row (counting X) S a u s) rows)" for rows
    using sends_forE_sum[OF row, where xs = rows] by (simp add: rows_items_def)
  from pays_bindE[OF pays_query this] show ?thesis
    unfolding sends_costs purge_session_memories_def by simp
qed

text \<open>What an event costs that is indexed: its row and two requests for each of its words.\<close>

definition event_requests :: "(string list \<Rightarrow> string list) \<Rightarrow> event \<Rightarrow> nat" where
  "event_requests so e = (case event_text e of None \<Rightarrow> 0 | Some t \<Rightarrow> 1 + length (tokenize so t) * 2)"

lemma sends_add_session: "sends_per_item (1 + sum_list (map (event_requests so) (s_events s)))
    (add_session_to_memory (counting X) A so S s)"
  unfolding sends_costs add_session_to_memory_def
  by (intro sends_thenE sends_forE_sum sends_purge[unfolded sends_costs])
    (auto simp: event_requests_def split: option.split intro: sends_local sends_upsert[simplified])

lemma sends_add_events: "sends (sum_list (map (\<lambda>e. 1 + event_requests so e) es))
    (add_events_to_memory (counting X) A so S a u es sid)"
proof -
  have known: "costs 0 n (case r of Some (Some (b # bs)) \<Rightarrow> retE () | _ \<Rightarrow> m)" if "costs 0 n m" for n m and r :: "bins option option"
    using that by (auto split: option.split list.split intro: sends_mono[OF sends_local(1)])
  show ?thesis
    unfolding sends_costs add_events_to_memory_def Let_def
    by (intro sends_forE_sum)
      (auto simp: event_requests_def split: option.split intro: sends_mono[OF sends_local(1)]
        intro!: sends_bindE[where n = 1 and k = "1 + _", simplified] sends_batch_read[unfolded One_nat_def] known sends_upsert[simplified])
qed

section \<open>The counting client is a client\<close>

lemma tick_eq: "tick p n k = (r, s') \<longleftrightarrow> p = (r, fst s') \<and> snd s' = (n, k)"
  by (cases p; cases s') auto

lemma counting_client:
  assumes "aerospike_client X view fits"
  shows "aerospike_client (counting X) (view \<circ> fst) fits"
proof -
  note law = aerospike_client.call_law[OF assms] aerospike_client.open_law[OF assms]
    aerospike_client.query_law[OF assms] aerospike_client.code_nonzero[OF assms] aerospike_client.code_inject[OF assms]
    aerospike_client.uniform_law[OF assms] aerospike_client.time_law[OF assms] aerospike_client.uuid_law[OF assms]
  show ?thesis
  proof (unfold_locales, goal_cases)
    case (1 r s res s')
    then show ?case using law(1)[of r "fst s" res "fst s'"] by (cases s) (simp add: counting_def tick_eq)
  next
    case (2 r s res s')
    then show ?case using law(2)[of r "fst s" res "fst s'"] by (cases s) (simp add: counting_def tick_eq)
  next
    case (3 ns st b v s qres s')
    then show ?case using law(3)[of ns st b v "fst s" qres "fst s'"] by (cases s; cases qres) (simp_all add: counting_def tick_eq)
  next
    case (4 e)
    then show ?case using law(4)[of e] by (simp add: counting_def)
  next
    case (5 e e')
    then show ?case using law(5)[of e e'] by (simp add: counting_def)
  next
    case (6 lo hi s j s')
    then show ?case using law(6)[of lo hi "fst s" j "fst s'"] by (cases s) (simp add: counting_def tick_eq)
  next
    case (7 s t s')
    then show ?case using law(7)[of "fst s" t "fst s'"] by (cases s) (simp add: counting_def tick_eq)
  next
    case (8 s u s')
    then show ?case using law(8)[of "fst s" u "fst s'"] by (cases s) (simp add: counting_def tick_eq)
  qed
qed

interpretation counted: aerospike_client "counting (scripted_ext n)" "mem_view \<circ> fst" "size_limit n" for n
  by (rule counting_client[OF scripted.aerospike_client_axioms])

section \<open>Properties\<close>

text \<open>
  C12. Every public method of the three services (opening and closing them apart) ends after a
  bounded number of requests, whatever the cluster answers, with no assumption on it at all. For most of them the bound is in the
  arguments: an append sends at most 1560 (the cached index, eleven tries of the batch, a rollover,
  and 64 rounds of eleven puts, a size request, eleven bumps and a read), a create 15, listing
  the sessions of all users one, saving or loading an artifact, listing its keys, reading the metadata of one version
  and a search two, listing versions one, and adding events to memory two per event and two per
  word. Where the work depends on what is stored, each item in the answers pays for one more
  request: reading a session sends at most two and one for each step of the segment counter in
  its record, listing the sessions of a user two and one for each id in the manifest, deleting a
  session five and one for each step of the counter, deleting an artifact two and one per row found,
  and purging a session's memories one and one for each row found and for each of its words; adding
  a session to memory is such a purge, one request per event with text and two per word.
\<close>

theorem requests_bounded:
  "sends 1560 (append_event (counting X) A S s e)
   \<and> sends 15 (create_session (counting X) S a u st sid)
   \<and> sends_per_item 2 (get_session (counting X) A S a u i config)
   \<and> sends (nat (cur + 1)) (load_events (counting X) A S a u i cur config)
   \<and> sends 1 (list_sessions (counting X) S a None)
   \<and> sends_per_item 2 (list_sessions (counting X) S a (Some u))
   \<and> sends_per_item 5 (delete_session (counting X) S a u i)
   \<and> sends 2 (save_artifact (counting X) ensure_part S a u f part sid meta)
   \<and> sends 2 (load_artifact (counting X) S a u f sid v)
   \<and> sends 2 (list_artifact_keys (counting X) S a u sid)
   \<and> sends 1 (list_versions (counting X) S a u f sid)
   \<and> sends 1 (list_artifact_versions (counting X) S a u f sid)
   \<and> sends 2 (get_artifact_version (counting X) S a u f sid v)
   \<and> sends_per_item 2 (delete_artifact (counting X) S a u f sid)
   \<and> sends 2 (search_memory (counting X) A so S top_k a u q)
   \<and> sends (1 + length (tokenize so t) * 2) (upsert_memory (counting X) A so S a u i e t)
   \<and> sends_per_item 1 (purge_session_memories (counting X) S a u i)
   \<and> sends_per_item (1 + (\<Sum>e \<leftarrow> s_events s. event_requests so e)) (add_session_to_memory (counting X) A so S s)
   \<and> sends (\<Sum>e \<leftarrow> es. 1 + event_requests so e) (add_events_to_memory (counting X) A so S a u es sid)"
  unfolding sends_costs(1)
  by (intro conjI sends_append_event sends_create_session sends_get_session sends_load_events sends_list_sessions(2)
      sends_list_sessions(1)[unfolded sends_costs] sends_delete_session sends_save_artifact sends_load_artifact
      sends_artifact_reads sends_delete_artifact sends_search sends_upsert sends_purge sends_add_session
      sends_add_events[unfolded sends_costs])

end
