(* ===== verification/Smoke_Test.thy ===== *)
theory Smoke_Test
  imports State_Appends Session_Removal Memory_Purge Service_Setup
begin

text \<open>
  \<^verbatim>\<open>examples/adk_samples_wiring.py\<close>: the smoke test that drives the three services together, as an
  ADK runner does. For each sample agent it creates a session, appends an event with state,
  reads the session back, adds it to the memory, searches, and deletes the session; a report
  tells how far it came. Importing the agent and constructing ADK's \<open>Runner\<close> are arguments.
  The printed output is left out.
\<close>

section \<open>The interpreter\<close>

datatype auth_default = Real_auth | Dummy_auth

record interp =
  sys_path :: "string list"
  sys_modules :: "string list"
  ga_default :: auth_default
  environ :: "(string \<times> string) list"

definition shim_auth_on :: "interp \<Rightarrow> interp" where
  "shim_auth_on ip = ip\<lparr>ga_default := Dummy_auth\<rparr>"

definition shim_auth_off :: "interp \<Rightarrow> interp" where
  "shim_auth_off ip = ip\<lparr>ga_default := Real_auth\<rparr>"

text \<open>\<open>setdefault\<close> on the loaded modules and on the environment.\<close>

definition add_module :: "string \<Rightarrow> string list \<Rightarrow> string list" where
  "add_module m ms = (if m \<in> set ms then ms else ms @ [m])"

definition apply_static_shims :: "interp \<Rightarrow> interp" where
  "apply_static_shims ip =
     (let ip = (if ''google.adk.a2a.utils.agent_to_a2a'' \<notin> set (sys_modules ip)
        then ip\<lparr>sys_modules := add_module ''google.adk.a2a.utils.agent_to_a2a''
          (add_module ''google.adk.a2a.utils'' (add_module ''google.adk.a2a'' (sys_modules ip)))\<rparr>
        else ip)
      in if map_of (environ ip) ''GOOGLE_GENAI_USE_VERTEXAI'' = None
         then ip\<lparr>environ := environ ip @ [(''GOOGLE_GENAI_USE_VERTEXAI'', ''false'')]\<rparr> else ip)"

text \<open>Samples use the same package names, so the path and the loaded modules are reset first.\<close>

definition isolate :: "string \<Rightarrow> string \<Rightarrow> interp \<Rightarrow> interp" where
  "isolate parent pkg ip = ip\<lparr>sys_path := parent # remove1 parent (sys_path ip),
     sys_modules := filter (\<lambda>k. \<not> (k = pkg \<or> prefix (pkg @ ''.'') k)) (sys_modules ip)\<rparr>"

text \<open>What an import gives is the type name of the module's \<open>root_agent\<close>, if it has one.\<close>

type_synonym importer = "string \<Rightarrow> interp \<Rightarrow> string option exc \<times> interp"

definition load_agent :: "importer \<Rightarrow> string \<Rightarrow> string \<Rightarrow> interp \<Rightarrow> string option exc \<times> interp" where
  "load_agent import parent pkg ip =
     (case import (pkg @ ''.agent'') (shim_auth_on (isolate parent pkg ip)) of (r, ip') \<Rightarrow> (r, shim_auth_off ip'))"

section \<open>The samples\<close>

definition join_path :: "string \<Rightarrow> string \<Rightarrow> string" where
  "join_path p q = (if p = ''/'' then p @ q else p @ ''/'' @ q)"

definition discover_samples :: "string \<Rightarrow> (string \<times> string \<times> string) list" where
  "discover_samples samples_root =
     (let py = join_path (join_path samples_root ''python'') ''agents'' in
      map (\<lambda>(label, parent, pkg). (label, join_path py parent, pkg))
       [(''fun-facts'', ''fun-facts'', ''fun_facts''),
        (''currency-agent'', ''currency-agent'', ''currency_agent''),
        (''llm-auditor'', ''llm-auditor'', ''llm_auditor''),
        (''parallel_task'', ''parallel_task_decomposition_execution'', ''parallel_task_decomposition_agent''),
        (''memory-bank'', ''memory-bank'', ''app''),
        (''customer-service'', ''customer-service'', ''customer_service''),
        (''blog-writer'', ''blog-writer'', ''blogger_agent'')])"

definition smoke_app :: "string \<Rightarrow> string" where
  "smoke_app label = ''smoke_'' @ map (\<lambda>c. if c = CHR ''-'' then CHR ''_'' else c) label"

section \<open>The report\<close>

definition TICK :: string where "TICK = map char_of [226 :: nat, 156, 147]"
definition CROSS :: string where "CROSS = map char_of [226 :: nat, 156, 151]"

record report =
  rp_label :: string
  rp_import :: string
  rp_agent_type :: string
  rp_runner :: string
  rp_create_session :: string
  rp_append_event :: string
  rp_get_session :: string
  rp_search_memory :: string
  rp_errors :: "string list"

definition blank_report :: "string \<Rightarrow> report" where
  "blank_report label = \<lparr>rp_label = label, rp_import = CROSS, rp_agent_type = ''-'', rp_runner = CROSS,
     rp_create_session = CROSS, rp_append_event = CROSS, rp_get_session = CROSS, rp_search_memory = CROSS,
     rp_errors = []\<rparr>"

text \<open>\<open>describe e\<close> is the text of the exception with its type's name.\<close>

definition failed :: "(exn \<Rightarrow> string) \<Rightarrow> string \<Rightarrow> exn \<Rightarrow> report \<Rightarrow> report" where
  "failed describe phase e r = r\<lparr>rp_errors := rp_errors r @ [phase @ '': '' @ describe e]\<rparr>"

definition session_mark :: "session option \<Rightarrow> string" where
  "session_mark fetched =
     (case fetched of
        None \<Rightarrow> ''partial(events=None)''
      | Some s \<Rightarrow>
          if length (s_events s) = 1 \<and> map_of (s_state s) ''k'' = Some (PStr ''v'') then TICK
          else ''partial(events='' @ fmt_0d 1 (int (length (s_events s))) @ '')'')"

section \<open>One sample\<close>

text \<open>\<open>try: m except Exception as e\<close>, with both outcomes as values, and \<open>try: m finally: f\<close>.\<close>

definition tried :: "('w \<Rightarrow> 'a exc \<times> 'w) \<Rightarrow> 'w \<Rightarrow> 'a exc exc \<times> 'w" where
  "tried m = (\<lambda>w. case m w of (r, w') \<Rightarrow> (Inr r, w'))"

definition finallyE :: "('w \<Rightarrow> 'a exc \<times> 'w) \<Rightarrow> ('w \<Rightarrow> unit exc \<times> 'w) \<Rightarrow> 'w \<Rightarrow> 'a exc \<times> 'w" where
  "finallyE m f = (\<lambda>w. case m w of (r, w') \<Rightarrow> (case f w' of (Inl e, w'') \<Rightarrow> (Inl e, w'') | (Inr _, w'') \<Rightarrow> (r, w'')))"

text \<open>ADK gives an event its id and its timestamp.\<close>

definition smoke_event :: "string \<Rightarrow> rat \<Rightarrow> event" where
  "smoke_event i t =
     \<lparr>ev_id = i, ev_timestamp = t, ev_author = ''user'',
      ev_content = Some \<lparr>ct_role = Some ''user'',
        ct_parts = Some [\<lparr>pt_text = Some ''ping invoice question'', pt_inline_data = None, pt_file_data = None\<rparr>]\<rparr>,
      ev_partial = False, ev_state_delta = [(''k'', PStr ''v''), (''app:t'', PStr ''acme'')],
      ev_rest = [(''invocation_id'', PStr ''i1'')]\<rparr>"

record 's opened =
  op_sess :: "'s ext"
  op_sess_schema :: schema
  op_mem :: "'s ext"
  op_mem_schema :: schema
  op_top_k :: int

definition smoke_phases ::
  "'s opened \<Rightarrow> adk \<Rightarrow> (string list \<Rightarrow> string list) \<Rightarrow> (exn \<Rightarrow> string) \<Rightarrow> unit exc \<Rightarrow> event \<Rightarrow> string \<Rightarrow> report
   \<Rightarrow> ('s, report) sio" where
  "smoke_phases V A so describe runner event app_name r =
     (case runner of
        Inl e \<Rightarrow> retE (failed describe ''Runner'' e r)
      | Inr _ \<Rightarrow>
          let r = r\<lparr>rp_runner := TICK\<rparr> in
          bindE (tried (create_session (op_sess V) (op_sess_schema V) app_name ''u1'' None (Some ''s1''))) (\<lambda>created.
            case created of
              Inl e \<Rightarrow> retE (failed describe ''create_session'' e r)
            | Inr s \<Rightarrow>
                let r = r\<lparr>rp_create_session := TICK\<rparr> in
                bindE (tried (append_event (op_sess V) A (op_sess_schema V) s event)) (\<lambda>appended.
                  let r = (case appended of
                      Inl e \<Rightarrow> failed describe ''append_event'' e r
                    | Inr _ \<Rightarrow> r\<lparr>rp_append_event := TICK\<rparr>) in
                bindE (tried (get_session (op_sess V) A (op_sess_schema V) app_name ''u1'' ''s1'' None)) (\<lambda>got.
                  let r = (case got of
                      Inl e \<Rightarrow> failed describe ''get_session'' e r
                    | Inr f \<Rightarrow> r\<lparr>rp_get_session := session_mark f\<rparr>);
                      fetched = (case got of Inl _ \<Rightarrow> None | Inr f \<Rightarrow> f) in
                case fetched of
                  None \<Rightarrow> retE r
                | Some f \<Rightarrow>
                    bindE (tried (thenE (add_session_to_memory (op_mem V) A so (op_mem_schema V) f)
                      (search_memory (op_mem V) A so (op_mem_schema V) (op_top_k V) app_name ''u1'' ''invoice''))) (\<lambda>found.
                    retE (case found of
                        Inl e \<Rightarrow> failed describe ''search_memory'' e r
                      | Inr memories \<Rightarrow>
                          r\<lparr>rp_search_memory := if 1 \<le> length memories then TICK else CROSS @ ''(no hits)''\<rparr>))))))"

definition smoke_services ::
  "'s opened \<Rightarrow> adk \<Rightarrow> (string list \<Rightarrow> string list) \<Rightarrow> (exn \<Rightarrow> string) \<Rightarrow> unit exc \<Rightarrow> event \<Rightarrow> string \<Rightarrow> report
   \<Rightarrow> ('s, report) sio" where
  "smoke_services V A so describe runner event app_name r =
     finallyE (smoke_phases V A so describe runner event app_name r)
       (bindE (tried (delete_session (op_sess V) (op_sess_schema V) app_name ''u1'' ''s1'')) (\<lambda>_. retE ()))"

definition on_interp :: "('i \<Rightarrow> 'a exc \<times> 'i) \<Rightarrow> 'i \<times> 's \<Rightarrow> 'a exc \<times> 'i \<times> 's" where
  "on_interp m = (\<lambda>(ip, s). case m ip of (r, ip') \<Rightarrow> (r, ip', s))"

definition on_server :: "('s \<Rightarrow> 'a exc \<times> 's) \<Rightarrow> 'i \<times> 's \<Rightarrow> 'a exc \<times> 'i \<times> 's" where
  "on_server m = (\<lambda>(ip, s). case m s of (r, s') \<Rightarrow> (r, ip, s'))"

definition with_session_state :: "(string \<Rightarrow> int option) \<Rightarrow> ('s, 'a) sio \<Rightarrow> 's \<Rightarrow> 'a exc \<times> 's" where
  "with_session_state c m s = (case m \<lparr>srv = s, slept = [], cur_cache = c\<rparr> of (r, w) \<Rightarrow> (r, srv w))"

text \<open>\<open>conn\<close> is what the calls on a client object do; \<open>runner\<close> tells how the constructor of ADK's
  \<open>Runner\<close> ends for an agent type and an app name.\<close>

definition smoke_one ::
  "('c, 's) driver \<Rightarrow> ('c \<Rightarrow> 's ext) \<Rightarrow> adk \<Rightarrow> (string list \<Rightarrow> string list) \<Rightarrow> (string \<Rightarrow> bool) \<Rightarrow> (exn \<Rightarrow> string)
   \<Rightarrow> importer \<Rightarrow> (string \<Rightarrow> string \<Rightarrow> unit exc) \<Rightarrow> event \<Rightarrow> string \<Rightarrow> string \<Rightarrow> string \<Rightarrow> string
   \<Rightarrow> interp \<times> 's \<Rightarrow> report exc \<times> interp \<times> 's" where
  "smoke_one D conn A so net_ok describe import runner event label parent pkg uri =
     (let r = blank_report label in
      bindE (tried (on_interp (load_agent import parent pkg))) (\<lambda>imported.
      case imported of
        Inl e \<Rightarrow> retE (failed describe ''import'' e r)
      | Inr agent \<Rightarrow>
          let r = r\<lparr>rp_import := TICK\<rparr> in
          case agent of
            None \<Rightarrow> retE (r\<lparr>rp_errors := rp_errors r @ [''module has no `root_agent`'']\<rparr>)
          | Some agent_type \<Rightarrow>
              let r = r\<lparr>rp_agent_type := agent_type\<rparr>; app_name = smoke_app label in
              bindE (on_server (session_from_uri D net_ok uri)) (\<lambda>sess.
              bindE (on_server (artifact_from_uri D net_ok uri)) (\<lambda>art.
              bindE (on_server (memory_from_uri D net_ok uri 10)) (\<lambda>mem.
              finallyE
                (on_server (with_session_state (sv_cur_cache sess)
                  (smoke_services
                    \<lparr>op_sess = conn (sv_client sess), op_sess_schema = sv_schema sess,
                     op_mem = conn (sv_client mem), op_mem_schema = sv_schema mem, op_top_k = sv_top_k mem\<rparr>
                    A so describe (runner agent_type app_name) event app_name r)))
                (on_server (thenE (service_close D sess) (thenE (service_close D art) (service_close D mem)))))))))"

section \<open>All samples\<close>

datatype row = Row report | Harness_error string string

fun smoke_all ::
  "(string \<Rightarrow> string \<Rightarrow> string \<Rightarrow> 'w \<Rightarrow> report exc \<times> 'w) \<Rightarrow> (exn \<Rightarrow> string) \<Rightarrow> (string \<times> string \<times> string) list
   \<Rightarrow> 'w \<Rightarrow> row list exc \<times> 'w" where
  "smoke_all smoke traceback [] = retE []"
| "smoke_all smoke traceback ((label, parent, pkg) # samples) =
     bindE (tried (smoke label parent pkg)) (\<lambda>outcome.
     bindE (smoke_all smoke traceback samples) (\<lambda>rows.
       retE ((case outcome of Inr r \<Rightarrow> Row r | Inl e \<Rightarrow> Harness_error label (''harness: '' @ traceback e)) # rows)))"

text \<open>Without the directory of the samples the program ends, with no result. The table is not printed.\<close>

definition smoke_main ::
  "bool \<Rightarrow> string \<Rightarrow> (string \<Rightarrow> string \<Rightarrow> string \<Rightarrow> interp \<times> 's \<Rightarrow> report exc \<times> interp \<times> 's) \<Rightarrow> (exn \<Rightarrow> string)
   \<Rightarrow> interp \<times> 's \<Rightarrow> row list option exc \<times> interp \<times> 's" where
  "smoke_main found samples_root smoke traceback =
     (if \<not> found then retE None
      else thenE (on_interp (\<lambda>ip. (Inr (), apply_static_shims ip)))
        (bindE (smoke_all smoke traceback (discover_samples samples_root)) (\<lambda>rows. retE (Some rows))))"

section \<open>Lemmas\<close>

text \<open>The real authentication default is back after every import, also after one that failed.\<close>

lemma load_agent_restores:
  "ga_default (snd (load_agent import parent pkg ip)) = Real_auth"
  by (simp add: load_agent_def shim_auth_off_def split: prod.split)

text \<open>Every sample gets a row, in order, and works in an app of its own.\<close>

fun row_label :: "row \<Rightarrow> string" where
  "row_label (Row r) = rp_label r"
| "row_label (Harness_error l _) = l"

lemma smoke_all_rows:
  assumes "\<And>l p k w r w'. smoke l p k w = (Inr r, w') \<Longrightarrow> rp_label r = l"
  shows "\<exists>rows w'. smoke_all smoke tb samples w = (Inr rows, w') \<and> map row_label rows = map fst samples"
proof (induction samples arbitrary: w)
  case (Cons x samples)
  obtain l p k where x: "x = (l, p, k)" by (cases x)
  obtain res w1 where one: "smoke l p k w = (res, w1)" by fastforce
  obtain rows w2 where "smoke_all smoke tb samples w1 = (Inr rows, w2)" "map row_label rows = map fst samples"
    using Cons by blast
  with one assms[of l p k w] show ?case
    by (cases res) (simp_all add: x bindE_def tried_def retE_def)
qed (simp add: retE_def)

text \<open>A sample that cannot be imported costs no request.\<close>

lemma smoke_import_fails:
  assumes "load_agent import parent pkg ip = (Inl e, ip')"
  shows "smoke_one D conn A so net_ok describe import runner event label parent pkg uri (ip, s)
    = (Inr (failed describe ''import'' e (blank_report label)), ip', s)"
  by (simp add: smoke_one_def Let_def bindE_def tried_def on_interp_def assms retE_def)

lemma failed_label [simp]: "rp_label (failed describe p e r) = rp_label r"
  by (simp add: failed_def)

text \<open>A phase that may end in any way.\<close>

lemma wp_bind_tried: "(\<And>r w'. wp (f r) Q w') \<Longrightarrow> wp (bindE (tried m) f) Q w"
  by (cases "m w") (simp add: wp_def bindE_def tried_def)

lemma smoke_phases_label:
  "wp (smoke_phases V A so describe runner e a r) (\<lambda>res w'. \<exists>r'. res = Inr r' \<and> rp_label r' = rp_label r) w"
  unfolding smoke_phases_def Let_def
  by (auto simp: wp_retE intro!: wp_bind_tried split: sum.split option.split)

lemma smoke_services_label:
  "smoke_services V A so describe runner e a r w = (res, w') \<Longrightarrow> \<exists>r'. res = Inr r' \<and> rp_label r' = rp_label r"
  using smoke_phases_label[of V A so describe runner e a r w]
  by (auto simp: smoke_services_def finallyE_def wp_def bindE_def tried_def retE_def split: prod.splits sum.splits)

lemma smoke_one_label:
  assumes "smoke_one D conn A so net_ok describe import runner e label parent pkg uri w = (Inr r, w')"
  shows "rp_label r = label"
  using assms smoke_services_label
  by (fastforce simp: smoke_one_def Let_def bindE_def tried_def retE_def finallyE_def on_server_def with_session_state_def
      blank_report_def split: prod.splits sum.splits option.splits)

lemma sample_apps_distinct: "distinct (map (smoke_app \<circ> fst) (discover_samples samples_root))"
  by (simp add: discover_samples_def smoke_app_def Let_def)

section \<open>What the services leave alone\<close>

definition same_memory :: "schema \<Rightarrow> db \<Rightarrow> db \<Rightarrow> bool" where
  "same_memory S d d' \<longleftrightarrow> (\<forall>k. d' (namespace S, memory_set S, k) = d (namespace S, memory_set S, k))"

definition same_sessions :: "schema \<Rightarrow> string \<Rightarrow> string \<Rightarrow> db \<Rightarrow> db \<Rightarrow> bool" where
  "same_sessions S a u d d' \<longleftrightarrow> (\<forall>k. k \<notin> memory_records S a u \<longrightarrow> d' k = d k)"

lemma stable_All: "(\<And>x. stable fits code (Q x) r) \<Longrightarrow> stable fits code (\<lambda>d. \<forall>x. Q x d) r"
  by (simp add: stable_def)

lemma stable_imp: "(p \<Longrightarrow> stable fits code Q r) \<Longrightarrow> stable fits code (\<lambda>d. p \<longrightarrow> Q d) r"
  by (simp add: stable_def)

lemma tolerates_same_memory: "tolerates fits code (same_memory S d) S a u i"
proof -
  have "(namespace S, memory_set S, k) \<notin> footprint S a u i" for k
    using footprint_session_keys[of "(namespace S, memory_set S, k)" S a u i] set_names_distinct[of S]
    by (auto simp: user_state_pk_def app_state_pk_def)
  then have "tolerates fits code (\<lambda>d'. d' (namespace S, memory_set S, k) = v) S a u i" for k v
    by (rule frame_tolerates)
  then show ?thesis
    unfolding tolerates_def same_memory_def by (intro conjI allI impI stable_All) simp_all
qed

lemma memory_tolerates_same_sessions: "memory_tolerates fits code (same_sessions S a u d) A so S a u"
  using other_memory_tolerates[of _ S a u fits code _ A so]
  unfolding memory_tolerates_def same_sessions_def by (intro conjI allI stable_All stable_imp) (simp_all del: ref_val.simps split_paired_All)

lemma op_keeps_postings:
  "op_keeps bins_ok (ListAppend MEM_POSTINGS v)" "op_keeps bins_ok (ListRemoveByIndexRange MEM_POSTINGS 0 n)"
  "op_keeps bins_ok (ListRemoveByValue MEM_POSTINGS v)" "op_keeps bins_ok (ReadBin b)"
  unfolding op_keeps_def by (auto intro!: bins_ok_dset split: option.splits pyval.splits if_splits)

lemma put_memory_bins: "bins_ok old \<Longrightarrow> bins_ok (put_bins old (memory_bins A so a u s e t))"
  by (cases "ev_content e") (auto simp: memory_bins_def intro!: bins_ok_dset bins_ok_ddel)

lemma memory_tolerates_store_ok: "memory_tolerates fits code store_ok A so S a u"
  unfolding memory_tolerates_def
  by (auto intro!: stable_operate stable_put stable_remove put_memory_bins simp: op_keeps_postings)

lemma same_memory_pk [simp]:
  "same_memory S d d' \<Longrightarrow> d' (posting_pk S a u x) = d (posting_pk S a u x)"
  "same_memory S d d' \<Longrightarrow> d' (memory_pk S a u s e) = d (memory_pk S a u s e)"
  by (simp_all add: same_memory_def posting_pk_def memory_pk_def)

lemma same_memory_trans: "same_memory S d d1 \<Longrightarrow> same_memory S d1 d2 \<Longrightarrow> same_memory S d d2"
  by (simp add: same_memory_def)

lemma same_memory_refs: "same_memory S d d' \<Longrightarrow> user_refs S d' a u q = user_refs S d a u q"
  by (simp add: user_refs_def postings_of_def)

lemma same_memory_ok:
  assumes "same_memory S d d'" "each_keyed (memory_row_ok A S) d"
  shows "each_keyed (memory_row_ok A S) d'"
  unfolding each_keyed_def
proof (intro allI impI)
  fix k bs assume k: "d' k = Some bs"
  show "memory_row_ok A S k bs"
  proof (cases "fst k = namespace S \<and> fst (snd k) = memory_set S")
    case True
    then have "d k = Some bs" using k assms(1) by (metis prod.collapse same_memory_def)
    with assms(2) show ?thesis by (rule each_keyedD)
  next
    case False
    then show ?thesis unfolding memory_row_ok_def by blast
  qed
qed

lemma sessions_not_memory:
  "session_pk S a u i \<notin> memory_records S a' u'" "segment_pk S a u i g \<notin> memory_records S a' u'"
  using set_names_distinct[of S]
  by (auto simp: memory_records_def session_pk_def segment_pk_def posting_pk_def memory_pk_def)

lemma same_sessions_pk:
  assumes "same_sessions S a u d d'"
  shows "d' (session_pk S a u i) = d (session_pk S a u i)" "d' (segment_pk S a u i g) = d (segment_pk S a u i g)"
  using assms sessions_not_memory unfolding same_sessions_def by blast+

section \<open>The runs\<close>

lemma smoke_event_simps [simp]:
  "ev_id (smoke_event i t) = i" "ev_timestamp (smoke_event i t) = t" "\<not> ev_partial (smoke_event i t)"
  "ev_state_delta (smoke_event i t) = [(''k'', PStr ''v''), (''app:t'', PStr ''acme'')]"
  by (simp_all add: smoke_event_def)

lemma smoke_event_kept: "(smoke_event i t)\<lparr>ev_state_delta := temp_free (ev_state_delta (smoke_event i t))\<rparr> = smoke_event i t"
  by (simp add: smoke_event_def temp_free_def scope_defs)

lemma smoke_event_text: "event_text (smoke_event i t) = Some ''ping invoice question''"
  by (simp add: event_text_def smoke_event_def extract_event_text_def part_texts_def)

lemma tokenize_any_order: "lists_sets so \<Longrightarrow> set (tokenize so s) = set (tokenize id s)"
  by (simp add: tokenize_def lists_sets_def)

lemma smoke_tokens:
  assumes "lists_sets so"
  shows "set (tokenize so ''invoice'') = {''invoice''}" "''invoice'' \<in> set (tokenize so ''ping invoice question'')"
proof -
  have "set (tokenize id ''invoice'') = {''invoice''}" "''invoice'' \<in> set (tokenize id ''ping invoice question'')"
    by code_simp+
  then show "set (tokenize so ''invoice'') = {''invoice''}" "''invoice'' \<in> set (tokenize so ''ping invoice question'')"
    by (simp_all add: tokenize_any_order[OF assms])
qed

text \<open>A session that was just created has an empty log.\<close>

lemma created_log:
  assumes c: "created d S a u i [] s d1" and all: "\<And>bs. fits bs"
    and none: "\<forall>g. d (segment_pk S a u i g) = None"
  shows "\<exists>sb. log_rep fits A d1 S a u i sb 0 []" "own_keys d1 S a u i"
proof -
  obtain now where sp: "d1 (session_pk S a u i) = Some (session_bins a u i [] now)"
    using c by (auto simp: created_def partition_state_def)
  have seg: "d1 (segment_pk S a u i g) = None" for g
  proof -
    have "segment_pk S a u i g \<noteq> manifest_pk S a u" by (simp add: segment_pk_def manifest_pk_def)
    then have "segment_pk S a u i g \<notin> {session_pk S a u i, app_state_pk S a, user_state_pk S a u, manifest_pk S a u}"
      by simp
    then have "d1 (segment_pk S a u i g) = d (segment_pk S a u i g)" using c unfolding created_def by blast
    with none show ?thesis by simp
  qed
  have "session_ready fits d1 S a u i (session_bins a u i [] now) 0"
    using sp seg all by (simp add: session_ready_def pure_segs_def session_bins_def)
  then have "log_rep fits A d1 S a u i (session_bins a u i [] now) 0 []"
    using seg by (simp add: log_rep_def entries_def seg_def)
  then show "\<exists>sb. log_rep fits A d1 S a u i sb 0 []" ..
  show "own_keys d1 S a u i" using sp by (simp add: own_keys_def state_dict_def)
qed

definition ready_to_append :: "(bins \<Rightarrow> bool) \<Rightarrow> adk \<Rightarrow> schema \<Rightarrow> string \<Rightarrow> string \<Rightarrow> string \<Rightarrow> session \<Rightarrow> db
    \<Rightarrow> (string \<Rightarrow> int option) \<Rightarrow> bool" where
  "ready_to_append fits A S a u i s d c \<longleftrightarrow>
     s_id s = i \<and> s_app_name s = a \<and> s_user_id s = u \<and> store_ok d \<and> (\<exists>sb. log_rep fits A d S a u i sb 0 [])
     \<and> own_keys d S a u i \<and> cache_fresh c (session_key a u i) 0 \<and> merged_state d S a u i = Inr (s_state s)"

definition read_back :: "schema \<Rightarrow> string \<Rightarrow> string \<Rightarrow> string \<Rightarrow> event \<Rightarrow> session \<Rightarrow> db \<Rightarrow> bool" where
  "read_back S a u i e s d \<longleftrightarrow>
     s_id s = i \<and> s_app_name s = a \<and> s_user_id s = u \<and> s_events s = [e] \<and> map_of (s_state s) ''k'' = Some (PStr ''v'')
     \<and> store_ok d \<and> (\<exists>sb cur. d (session_pk S a u i) = Some sb \<and> map_of sb CUR_SEGMENT = Some (PInt cur) \<and> 0 \<le> cur
           \<and> (\<forall>g. cur < g \<longrightarrow> d (segment_pk S a u i g) = None))"

context reliable_client begin

lemma create_run:
  assumes all: "\<And>bs. fits bs" and ok: "store_ok (view (srv w))" and i: "i \<noteq> []" "i \<noteq> ''sl''"
    and none: "view (srv w) (session_pk S a u i) = None" "\<forall>g. view (srv w) (segment_pk S a u i g) = None"
  shows "\<exists>s w1. create_session X S a u None (Some i) w = (Inr s, w1) \<and> same_memory S (view (srv w)) (view (srv w1))
    \<and> ready_to_append fits A S a u i s (view (srv w1)) (cur_cache w1)"
proof -
  have "wp (create_session X S a u (Some []) (Some i)) (\<lambda>r w1. \<exists>s. r = Inr s \<and> created (view (srv w)) S a u i [] s (view (srv w1))
      \<and> cur_cache w1 (session_key a u i) = Some 0) w"
    by (rule wp_create[OF ok _ i]) (use none all in \<open>auto simp: all\<close>)
  moreover have same: "create_session X S a u None (Some i) = create_session X S a u (Some []) (Some i)"
    by (simp add: create_session_def)
  ultimately obtain s w1 where run: "create_session X S a u None (Some i) w = (Inr s, w1)"
    and c: "created (view (srv w)) S a u i [] s (view (srv w1))" "cur_cache w1 (session_key a u i) = Some 0"
    by (auto dest!: wp_exI)
  have "store_ok (view (srv w1))"
    using keepsD[OF keeps_create_session[OF store_ok_tolerates] ok run] .
  moreover have "same_memory S (view (srv w)) (view (srv w1))"
    using keepsD[OF keeps_create_session[OF tolerates_same_memory] _ run] by (simp add: same_memory_def)
  ultimately show ?thesis
    using run c created_log[OF c(1) all none(2)]
    by (auto simp: ready_to_append_def created_def cache_fresh_def)
qed

lemma append_run:
  assumes all: "\<And>bs. fits bs" and A: "lossless A" "base_keeps A" "strips_temp A"
    and s: "ready_to_append fits A S a u i s (view (srv w)) (cur_cache w)"
    and t: "t \<noteq> 0" "ts_ok t"
  shows "\<exists>x w1 s2 w2. append_event X A S s (smoke_event j t) w = (Inr x, w1)
    \<and> get_session X A S a u i None w1 = (Inr (Some s2), w2) \<and> same_memory S (view (srv w)) (view (srv w2))
    \<and> read_back S a u i (smoke_event j t) s2 (view (srv w2))"
proof -
  let ?e = "smoke_event j t"
  obtain s1 e where base: "base_append_event A s ?e = (s1, e)" by fastforce
  have e: "e = ?e"
    using A(3) base smoke_event_kept[of j t] unfolding strips_temp_def by (metis smoke_event_simps(3) snd_conv)
  have id1: "s_app_name s1 = a" "s_user_id s1 = u" "s_id s1 = i"
    using A(2) base s unfolding base_keeps_def ready_to_append_def by (metis fst_conv)+
  obtain sb where log: "log_rep fits A (view (srv w)) S a u i sb 0 []" and m: "merged_state (view (srv w)) S a u i = Inr (s_state s)"
    and ok: "store_ok (view (srv w))" and own: "own_keys (view (srv w)) S a u i"
    and cache: "cache_fresh (cur_cache w) (session_key a u i) 0"
    using s by (auto simp: ready_to_append_def)
  have fit: "event_fits fits A (view (srv w)) S a u i e"
    by (simp add: event_fits_def all scopes_fit_def Let_def split: prod.split)
  have "wp (bindE (append_event X A S s ?e) (\<lambda>_. get_session X A S a u i None)) (\<lambda>r w2. \<exists>w1 x s2 cur.
      append_event X A S s ?e w = (Inr x, w1) \<and> r = Inr (Some s2)
      \<and> appended fits A S a u i [] e (view (srv w)) (view (srv w1), cur) \<and> view (srv w2) = view (srv w1)
      \<and> s_id s2 = i \<and> s_app_name s2 = a \<and> s_user_id s2 = u \<and> s_events s2 = [] @ [e]
      \<and> map_of (s_state s2) = map_of (s_state s) ++ (map_of (ev_state_delta e) |` {k. \<not> prefix SCOPE_TEMP k})) w"
  proof (rule wp_append_then_get[OF log ok cache base id1 _ _ _ _ _ _ fit own A(1) m])
    fix w1 w' :: "'a session_world" and s2 :: session and t'
    assume "append_event X A S s ?e w = (Inr (e, s1\<lparr>s_last_update_time := PFloat (ev_timestamp e)\<rparr>), w1)"
      "appended fits A S a u i [] e (view (srv w)) (view (srv w1), t')" "view (srv w') = view (srv w1)"
      "s_id s2 = i" "s_app_name s2 = a" "s_user_id s2 = u" "s_events s2 = [] @ [e]"
      "map_of (s_state s2) = map_of (s_state s) ++ (map_of (ev_state_delta e) |` {k. \<not> prefix SCOPE_TEMP k})"
    then show "\<exists>w1 x s2' cur. append_event X A S s ?e w = (Inr x, w1) \<and> Inr (Some s2) = Inr (Some s2')
      \<and> appended fits A S a u i [] e (view (srv w)) (view (srv w1), cur) \<and> view (srv w') = view (srv w1)
      \<and> s_id s2' = i \<and> s_app_name s2' = a \<and> s_user_id s2' = u \<and> s_events s2' = [] @ [e]
      \<and> map_of (s_state s2') = map_of (s_state s) ++ (map_of (ev_state_delta e) |` {k. \<not> prefix SCOPE_TEMP k})"
      by (intro exI conjI) (assumption | rule refl)+
  qed (use t in \<open>simp_all add: e\<close>)
  from wp_exI[OF this] obtain w1 x s2 w2 cur
    where both: "bindE (append_event X A S s ?e) (\<lambda>_. get_session X A S a u i None) w = (Inr (Some s2), w2)"
    and run: "append_event X A S s ?e w = (Inr x, w1)"
    and app: "appended fits A S a u i [] e (view (srv w)) (view (srv w1), cur)" "view (srv w2) = view (srv w1)"
    and s2: "s_id s2 = i" "s_app_name s2 = a" "s_user_id s2 = u" "s_events s2 = [] @ [e]"
      "map_of (s_state s2) = map_of (s_state s) ++ (map_of (ev_state_delta e) |` {k. \<not> prefix SCOPE_TEMP k})"
    by blast
  from both run have get: "get_session X A S a u i None w1 = (Inr (Some s2), w2)" by (simp add: bindE_def)
  have "map_of (s_state s2) ''k'' = Some (PStr ''v'')"
    by (simp add: s2 e map_add_def restrict_map_def scope_defs)
  moreover have "same_memory S (view (srv w)) (view (srv w1))"
    using keepsD[OF keeps_append_event[OF tolerates_same_memory A(2)] _ run] by (simp add: same_memory_def)
  moreover obtain sb' where "log_rep fits A (view (srv w1)) S a u i sb' cur ([] @ [e])" "store_ok (view (srv w1))"
    using app(1) by (auto simp: appended_def)
  ultimately show ?thesis
    using run get s2 by (auto simp: read_back_def app(2) e log_rep_def session_ready_def simp del: split_paired_Ex)
qed

lemma memory_run:
  assumes all: "\<And>bs. fits bs" and ok: "each_keyed (memory_row_ok A S) (view (srv w))" "store_ok (view (srv w))"
    and A: "content_lossless A" "lists_sets so"
    and s: "s_id s = i" "s_app_name s = a" "s_user_id s = u" "s_events s = [e]" "i \<noteq> []" "i \<noteq> ''kw''"
    and e: "event_text e = Some t" "ev_id e \<noteq> []" "view (srv w) (memory_pk S a u i (ev_id e)) = None"
    and common: "set (tokenize so query) \<inter> set (tokenize so t) \<noteq> {}"
    and cap: "card (insert (ev_id e) (fst ` user_refs S (view (srv w)) a u (set (tokenize so query)))) < 512"
    and one: "\<And>s' t'. (ev_id e, s', t') \<in> user_refs S (view (srv w)) a u (set (tokenize so query)) \<Longrightarrow> s' = i"
    and k: "0 < top_k"
  shows "\<exists>w1 ms w2. add_session_to_memory X A so S s w = (Inr (), w1) \<and> search_memory X A so S top_k a u query w1 = (Inr ms, w2)
    \<and> ms \<noteq> [] \<and> same_sessions S a u (view (srv w)) (view (srv w2)) \<and> store_ok (view (srv w2))"
proof -
  let ?d = "view (srv w)" and ?q = "set (tokenize so query)"
  have "wp (purge_session_memories X S a u i) (\<lambda>r w'. r = Inr () \<and> shrunk ?d (view (srv w'))) w"
    by (rule wp_purge[OF ok(1)]) (simp_all add: unfit_after_def all shrunk_forget_rows)
  from wp_exI[OF this] obtain w0 where purge: "purge_session_memories X S a u i w = (Inr (), w0)"
    and sh: "shrunk ?d (view (srv w0))" by blast
  have ok0: "each_keyed (memory_row_ok A S) (view (srv w0))"
    using keepsD[OF keeps_purge[OF memory_ok_tolerates] ok(1) purge] .
  have none: "view (srv w0) (memory_pk S a u i (ev_id e)) = None"
    using shrunkD[OF sh] e(3) by (metis option.exhaust option.distinct(1))
  have refs: "user_refs S (view (srv w0)) a u ?q \<subseteq> user_refs S ?d a u ?q"
    using shrunk_postings[OF sh] unfolding user_refs_def usable_def by blast
  let ?d1 = "remembered A so S a u i e t (view (srv w0))"
  have "wp (upsert_memory X A so S a u i e t) (\<lambda>r w'. r = Inr () \<and> view (srv w') = ?d1) w0"
    by (rule wp_upsert[OF A(2) s(6) ok0 none]) (simp_all add: room_for_event_def room_to_post_def all)
  from wp_exI[OF this] obtain w1 where up: "upsert_memory X A so S a u i e t w0 = (Inr (), w1)"
    and w1: "view (srv w1) = ?d1" by blast
  have add: "add_session_to_memory X A so S s w = (Inr (), w1)"
    by (simp add: add_session_to_memory_def s e(1) thenE_def bindE_def purge up retE_def)
  have P: "same_sessions S a u ?d (view (srv w1))" "store_ok (view (srv w1))" "each_keyed (memory_row_ok A S) (view (srv w1))"
    using keepsD[OF keeps_add_session[where ss = s, unfolded s, OF memory_tolerates_same_sessions[of fits _ S a u ?d A so]] _ add]
      keepsD[OF keeps_add_session[where ss = s, unfolded s, OF memory_tolerates_store_ok[of fits _ A so S a u]] ok(2) add]
      keepsD[OF keeps_add_session[where ss = s, unfolded s, OF memory_ok_tolerates[of fits _ A S so a u]] ok(1) add]
    by (simp_all add: same_sessions_def)
  have "card (insert (ev_id e) (fst ` user_refs S (view (srv w0)) a u ?q)) \<le> card (insert (ev_id e) (fst ` user_refs S ?d a u ?q))"
    using refs by (intro card_mono) (auto simp: finite_user_refs)
  then obtain ms w2 where search: "search_memory X A so S top_k a u query w1 = (Inr ms, w2)" "ms \<noteq> []"
    using search_remembered[OF w1 P(3) A e(2) s(5,6) common, where top_k = top_k] cap one refs k by fastforce
  have "same_sessions S a u ?d (view (srv w2))" "store_ok (view (srv w2))"
    using keepsD[OF keeps_search _ search(1), where P = "same_sessions S a u ?d"] P(1)
      keepsD[OF keeps_search _ search(1), where P = store_ok] P(2) by simp_all
  with add search show ?thesis by blast
qed

lemma delete_run:
  assumes ok: "store_ok (view (srv w))" and i: "i \<noteq> ''sl''"
    and rec: "view (srv w) (session_pk S a u i) = Some sb" "map_of sb CUR_SEGMENT = Some (PInt cur)" "0 \<le> cur"
    and segs: "\<forall>g. cur < g \<longrightarrow> view (srv w) (segment_pk S a u i g) = None"
  shows "\<exists>r w1. delete_session X S a u i w = (r, w1) \<and> view (srv w1) (session_pk S a u i) = None
    \<and> (\<forall>g \<ge> 0. view (srv w1) (segment_pk S a u i g) = None)"
proof -
  let ?gone = "session_gone (view (srv w)) S a u i cur"
  have keys: "session_pk S a u i \<noteq> manifest_pk S a u" using i session_pk_manifest by metis
  have seg_keys: "segment_pk S a u i g \<noteq> manifest_pk S a u" for g by (simp add: segment_pk_def manifest_pk_def)
  have "?gone (segment_pk S a u i g) = None" if "0 \<le> g" for g
    using segs that by (cases "cur < g") (auto simp: session_gone_def)
  then have gone: "?gone (session_pk S a u i) = None" "\<forall>g \<ge> 0. ?gone (segment_pk S a u i g) = None"
    by (simp_all add: session_gone_def)
  have "wp (delete_session X S a u i) (\<lambda>_ w1. view (srv w1) (session_pk S a u i) = None
      \<and> (\<forall>g \<ge> 0. view (srv w1) (segment_pk S a u i g) = None)) w"
    by (rule wp_delete[OF ok rec]) (use gone in \<open>simp_all add: manifest_drop_other[OF keys] manifest_drop_other[OF seg_keys]\<close>)
  from wp_exI[OF this] show ?thesis by blast
qed

end

text \<open>The report when every phase returns.\<close>

lemma smoke_phases_run:
  assumes "create_session X S a ''u1'' None (Some ''s1'') w = (Inr s, w1)" "append_event X A S s e w1 = (Inr x, w2)"
    and "get_session X A S a ''u1'' ''s1'' None w2 = (Inr (Some s2), w3)" "session_mark (Some s2) = TICK"
    and "add_session_to_memory Y A so S s2 w3 = (Inr (), w4)"
    and "search_memory Y A so S top_k a ''u1'' ''invoice'' w4 = (Inr ms, w5)" "1 \<le> length ms"
  shows "smoke_phases \<lparr>op_sess = X, op_sess_schema = S, op_mem = Y, op_mem_schema = S, op_top_k = top_k\<rparr>
      A so describe (Inr ()) e a r w
    = (Inr (r\<lparr>rp_runner := TICK, rp_create_session := TICK, rp_append_event := TICK, rp_get_session := TICK,
         rp_search_memory := TICK\<rparr>), w5)"
proof -
  have create: "bindE (tried (create_session X S a ''u1'' None (Some ''s1''))) f w = f (Inr s) w1" for f :: "session exc \<Rightarrow> ('a, report) sio"
    by (simp add: bindE_def tried_def assms(1))
  have append: "bindE (tried (append_event X A S s e)) f w1 = f (Inr x) w2" for f :: "(event \<times> session) exc \<Rightarrow> ('a, report) sio"
    by (simp add: bindE_def tried_def assms(2))
  have get: "bindE (tried (get_session X A S a ''u1'' ''s1'' None)) f w2 = f (Inr (Some s2)) w3" for f :: "session option exc \<Rightarrow> ('a, report) sio"
    by (simp add: bindE_def tried_def assms(3))
  have found: "bindE (tried (thenE (add_session_to_memory Y A so S s2) (search_memory Y A so S top_k a ''u1'' ''invoice''))) f w3
      = f (Inr ms) w5" for f :: "memory_entry list exc \<Rightarrow> ('a, report) sio"
    by (simp add: bindE_def thenE_def tried_def assms(5,6))
  show ?thesis
    unfolding smoke_phases_def opened.simps Let_def sum.case create append get option.case found retE_def if_P[OF assms(7)] assms(4) ..
qed

lemma smoke_services_run:
  assumes "smoke_phases V A so describe runner e a r w = (res, w1)"
    and "delete_session (op_sess V) (op_sess_schema V) a ''u1'' ''s1'' w1 = (rd, w2)"
  shows "smoke_services V A so describe runner e a r w = (res, w2)"
  by (simp add: smoke_services_def finallyE_def bindE_def tried_def assms retE_def)

section \<open>Properties\<close>

text \<open>What the smoke test needs of the store it starts from: no session under its names, and no
  trace of its event's id in the memory of its user.\<close>

definition smoke_ready :: "adk \<Rightarrow> schema \<Rightarrow> string \<Rightarrow> string \<Rightarrow> db \<Rightarrow> bool" where
  "smoke_ready A S a j d \<longleftrightarrow>
     store_ok d \<and> each_keyed (memory_row_ok A S) d
     \<and> d (session_pk S a ''u1'' ''s1'') = None \<and> (\<forall>g. d (segment_pk S a ''u1'' ''s1'' g) = None)
     \<and> d (memory_pk S a ''u1'' ''s1'' j) = None \<and> j \<notin> fst ` user_refs S d a ''u1'' {''invoice''}
     \<and> card (insert j (fst ` user_refs S d a ''u1'' {''invoice''})) < 512"

text \<open>
  C7. The services work together. On a reliable cluster that takes records of any size, the
  smoke test passes: the session is created, the event with its state deltas is appended and
  read back, the session that was read is indexed, the search for a word of the event finds
  something, and no phase reports an error; afterwards no record of the session is left. Two
  client objects on one cluster are enough; the session's cluster and the memory's are one.
\<close>

theorem smoke_test_passes:
  assumes "reliable_client X view fits" "reliable_client Y view fits" "\<And>bs. fits bs"
    and "lossless A" "base_keeps A" "strips_temp A" "content_lossless A" "lists_sets so"
    and "smoke_ready A S a j (view (srv w))" "j \<noteq> []" "t \<noteq> 0" "ts_ok t" "0 < top_k"
  shows "\<exists>w'. smoke_services \<lparr>op_sess = X, op_sess_schema = S, op_mem = Y, op_mem_schema = S, op_top_k = top_k\<rparr>
      A so describe (Inr ()) (smoke_event j t) a r w
    = (Inr (r\<lparr>rp_runner := TICK, rp_create_session := TICK, rp_append_event := TICK, rp_get_session := TICK,
         rp_search_memory := TICK\<rparr>), w')
    \<and> view (srv w') (session_pk S a ''u1'' ''s1'') = None \<and> (\<forall>g \<ge> 0. view (srv w') (segment_pk S a ''u1'' ''s1'' g) = None)"
proof -
  let ?d = "view (srv w)" and ?e = "smoke_event j t" and ?V = "\<lparr>op_sess = X, op_sess_schema = S, op_mem = Y, op_mem_schema = S, op_top_k = top_k\<rparr>"
  note start = assms(9)[unfolded smoke_ready_def]
  have names: "''s1'' \<noteq> []" "''s1'' \<noteq> ''sl''" "''s1'' \<noteq> ''kw''" by simp_all
  have "\<exists>s w1. create_session X S a ''u1'' None (Some ''s1'') w = (Inr s, w1) \<and> same_memory S ?d (view (srv w1))
      \<and> ready_to_append fits A S a ''u1'' ''s1'' s (view (srv w1)) (cur_cache w1)"
    by (rule reliable_client.create_run[OF assms(1,3) _ names(1,2)]) (use start in simp_all)
  then obtain s w1 where create: "create_session X S a ''u1'' None (Some ''s1'') w = (Inr s, w1)"
    and m1: "same_memory S ?d (view (srv w1))"
    and s: "ready_to_append fits A S a ''u1'' ''s1'' s (view (srv w1)) (cur_cache w1)" by blast
  from reliable_client.append_run[OF assms(1,3,4,5,6) s assms(11,12), of j]
  obtain x w2 s2 w3 where append: "append_event X A S s ?e w1 = (Inr x, w2)"
    and get: "get_session X A S a ''u1'' ''s1'' None w2 = (Inr (Some s2), w3)"
    and m3: "same_memory S (view (srv w1)) (view (srv w3))" and s2: "read_back S a ''u1'' ''s1'' ?e s2 (view (srv w3))" by blast
  have m: "same_memory S ?d (view (srv w3))" by (rule same_memory_trans[OF m1 m3])
  obtain w4 ms w5 where add: "add_session_to_memory Y A so S s2 w3 = (Inr (), w4)"
    and search: "search_memory Y A so S top_k a ''u1'' ''invoice'' w4 = (Inr ms, w5)" "ms \<noteq> []"
    and w5: "same_sessions S a ''u1'' (view (srv w3)) (view (srv w5))" "store_ok (view (srv w5))"
  proof -
    have "\<exists>w4 ms w5. add_session_to_memory Y A so S s2 w3 = (Inr (), w4) \<and> search_memory Y A so S top_k a ''u1'' ''invoice'' w4 = (Inr ms, w5)
        \<and> ms \<noteq> [] \<and> same_sessions S a ''u1'' (view (srv w3)) (view (srv w5)) \<and> store_ok (view (srv w5))"
    proof (rule reliable_client.memory_run[OF assms(2,3) same_memory_ok[OF m] _ assms(7,8) _ _ _ _ names(1,3) smoke_event_text])
      show "store_ok (view (srv w3))" "s_id s2 = ''s1''" "s_app_name s2 = a" "s_user_id s2 = ''u1''" "s_events s2 = [?e]"
        using s2 unfolding read_back_def by blast+
      show "set (tokenize so ''invoice'') \<inter> set (tokenize so ''ping invoice question'') \<noteq> {}"
        using smoke_tokens[OF assms(8)] by blast
      show "s' = ''s1''" if "(ev_id ?e, s', t') \<in> user_refs S (view (srv w3)) a ''u1'' (set (tokenize so ''invoice''))" for s' t'
        using that start unfolding same_memory_refs[OF m] smoke_tokens(1)[OF assms(8)] smoke_event_simps by force
    qed (use start assms(10,13) in
      \<open>simp_all add: same_memory_pk[OF m] same_memory_refs[OF m] smoke_tokens(1)[OF assms(8)]\<close>)
    then show thesis using that by blast
  qed
  obtain sb cur where "view (srv w3) (session_pk S a ''u1'' ''s1'') = Some sb" "map_of sb CUR_SEGMENT = Some (PInt cur)" "0 \<le> cur"
    "\<forall>g. cur < g \<longrightarrow> view (srv w3) (segment_pk S a ''u1'' ''s1'' g) = None"
    using s2 unfolding read_back_def by blast
  then have "view (srv w5) (session_pk S a ''u1'' ''s1'') = Some sb" "map_of sb CUR_SEGMENT = Some (PInt cur)" "0 \<le> cur"
    "\<forall>g. cur < g \<longrightarrow> view (srv w5) (segment_pk S a ''u1'' ''s1'' g) = None"
    by (simp_all add: same_sessions_pk[OF w5(1)])
  from reliable_client.delete_run[OF assms(1) w5(2) names(2) this]
  obtain rd w6 where delete: "delete_session X S a ''u1'' ''s1'' w5 = (rd, w6)"
    and w6: "view (srv w6) (session_pk S a ''u1'' ''s1'') = None" "\<forall>g \<ge> 0. view (srv w6) (segment_pk S a ''u1'' ''s1'' g) = None"
    by blast
  have mark: "session_mark (Some s2) = TICK" using s2 by (simp add: session_mark_def read_back_def)
  have hits: "1 \<le> length ms" using search(2) by (cases ms) simp_all
  have "delete_session (op_sess ?V) (op_sess_schema ?V) a ''u1'' ''s1'' w5 = (rd, w6)" using delete by simp
  from smoke_services_run[OF smoke_phases_run[OF create append get mark add search(1) hits, of describe r] this] w6
  show ?thesis by blast
qed

lemma smoke_store_empty: "smoke_ready A S a j Map.empty"
proof -
  have "user_refs S Map.empty a u q = {}" for u q by (simp add: user_refs_def postings_of_def usable_def)
  then show ?thesis by (simp add: smoke_ready_def each_record_def each_keyed_def)
qed


theorem smoke_test_passes_witness:
  "\<exists>w'. fst (smoke_services \<lparr>op_sess = roomy_ext, op_sess_schema = demo_schema, op_mem = roomy_ext,
        op_mem_schema = demo_schema, op_top_k = 10\<rparr> sample_adk id (\<lambda>_. ''error'') (Inr ())
      (smoke_event ''e1'' 7) (smoke_app ''fun-facts'') (blank_report ''fun-facts'') (demo_world [] []))
    = Inr \<lparr>rp_label = ''fun-facts'', rp_import = CROSS, rp_agent_type = ''-'', rp_runner = TICK,
        rp_create_session = TICK, rp_append_event = TICK, rp_get_session = TICK, rp_search_memory = TICK, rp_errors = []\<rparr>
    \<and> smoke_app ''fun-facts'' = ''smoke_fun_facts''"
proof -
  have m: "ts_micros 7 = 7000000" using ts_micros_of_int[of 7] by simp
  have ts: "ts_ok 7" by (simp add: ts_ok_def m)
  have ready: "smoke_ready sample_adk demo_schema (smoke_app ''fun-facts'') ''e1'' (mem_view (srv (demo_world [] [])))"
    using smoke_store_empty by simp
  have app: "smoke_app ''fun-facts'' = ''smoke_fun_facts''" by (simp add: smoke_app_def)
  from smoke_test_passes[OF roomy.reliable_client_axioms roomy.reliable_client_axioms _ sample_adk_lossless sample_adk_strips(2,1)
      sample_content_lossless id_lists_sets ready _ _ ts, of 10 "\<lambda>_. ''error''" "blank_report ''fun-facts''"] app
  show ?thesis by (auto simp: blank_report_def)
qed

end
