(* ===== verification/Spec2Isabelle.thy ===== *)
theory Spec2Isabelle
  imports Session_Removal Artifact_Contract Memory_Purge Service_Setup Memory_Words Concurrent_Appends Concurrent_Saves
  Concurrent_Postings State_Appends Request_Bounds Smoke_Test
begin

text \<open>
  \<^bold>\<open>A verification library for adk-aerospike.\<close>

  The package under \<^verbatim>\<open>src/src/adk_aerospike\<close> stores the sessions, artifacts and memories of
  Google's Agent Development Kit (ADK) in an Aerospike cluster. This library models all of its
  modules and proves what they promise, up to the smoke test that drives them together. The other
  examples and the benchmark are not part of it.

  \<^bold>\<open>The program.\<close> Three service classes share an \<open>aerospike\<close> client. The session service
  (\<^verbatim>\<open>sessions/service.py\<close>) keeps one record per session with its state and the index \<open>cur\<close> of the
  segment that takes new events, the segments as records with a key-ordered map of events,
  one state record per app and per user, and per user a manifest of session ids. An append is a
  \<open>map_put\<close> of the event into segment \<open>cur\<close>; when the record is too big, \<open>cur\<close> is bumped under a
  filter and the put is tried again. The artifact service (\<^verbatim>\<open>artifacts/service.py\<close>) keeps a counter
  record and one record per version of a file. The memory service (\<^verbatim>\<open>memory/service.py\<close>) keeps a row
  per event and per user and word a posting list, from which a search collects its candidates.
  All of them take their names from \<^verbatim>\<open>_internal/schema.py\<close>, their keys from \<^verbatim>\<open>_internal/keys.py\<close>
  and the stored form of events from \<^verbatim>\<open>_internal/codec.py\<close>; \<^verbatim>\<open>_internal/uri.py\<close>,
  \<^verbatim>\<open>_internal/client.py\<close>, \<^verbatim>\<open>_internal/indexes.py\<close> and \<^verbatim>\<open>registry.py\<close> open them from a URI.

  \<^bold>\<open>The language layer.\<close> \<open>Py_Prelude\<close> has Python's values, dictionaries as association lists in
  insertion order, and the exceptions; \<open>Py_Format\<close> and \<open>Py_Text\<close> numbers and text as UTF-8 bytes;
  \<open>Py_Float\<close> the rounding of double arithmetic to nearest even, on rationals; \<open>Py_Effects\<close> the state-and-exception
  monad with its \<open>wp\<close> calculus, whose rules carry the proofs about service methods.

  \<^bold>\<open>The boundary.\<close> The client with its cluster, the clock, \<open>uuid4\<close> and \<open>random.uniform\<close> are an argument
  \<open>X\<close> of type \<^verbatim>\<open>'s ext\<close> (\<open>Aerospike_Api\<close>). What is relied on is stated by two locales over the documented
  effect of a request: \<open>aerospike_client\<close>, where any call, and any record of a batch, may be rejected, or fail after it took
  effect, and \<open>reliable_client\<close>, where none does. Both are interpreted on the executable cluster of
  \<open>Reference_Server\<close>, with and without injected faults, and every theorem with such a hypothesis has
  a witness on it. ADK's own operations (pydantic's dump and validation, the base class's
  \<open>append_event\<close>, \<open>ensure_part\<close>, timestamps) are the record \<open>adk\<close> or an argument, with \<open>lossless\<close>,
  \<open>dumps_fields\<close>, \<open>base_keeps\<close>, \<open>strips_temp\<close> and \<open>content_lossless\<close> as hypotheses and \<open>sample_adk\<close> as instance. The order in
  which Python lists a set is the argument \<open>so\<close>. The \<open>aerospike\<close> module's constructor, connection and index
  commands are the record \<open>driver\<close>, with the locales \<open>index_admin\<close> and \<open>ready_cluster\<close>.

  \<^bold>\<open>The components.\<close>

  \<^item> \<open>Schema\<close>, \<open>Keys\<close>, \<open>Codec\<close>: the three modules. The registries are complete and their wire names short
    and distinct; keys determine what they were built from, with the three session ids that
    are not free; event keys sort like timestamps, the range read of \<open>after_timestamp\<close> selects the right
    events, and an event survives its stored form.
  \<^item> \<open>Retry\<close>: the two retry loops and the locale \<open>retryable\<close> for a call that may be repeated. At most
    ten retries (\<open>OVERLOAD_MAX_RETRIES\<close>), at most 4.01 seconds, and a repeated put or guarded
    increment acts once.
  \<^item> \<open>Session_State\<close>, \<open>Segment_Store\<close>, \<open>Batch_Reads\<close>, \<open>Session_Service\<close>: the session service, one definition per
    method and helper. The loop of \<open>place_event\<close> counts down its 64 attempts (\<open>max_attempts\<close>), as
    the code does, and needs no other fuel; on a reliable cluster three attempts are enough.
  \<^item> \<open>Stability\<close> and \<open>Session_Invariant\<close>: what every method keeps under any faults, that is the
    shape of all records and the records of other users.
  \<^item> \<open>Placement\<close>: one append, under faults (one segment or none) and on a reliable cluster (which
    segment, and the store that is left, for a cached segment index that is right, stale or ahead).
  \<^item> \<open>Concurrent_Appends\<close>: \<open>place_event\<close> cut into its requests as a step relation, any number of writers,
    the invariant of all interleavings, and that the sequential definition runs this relation.
  \<^item> \<open>Ordered_Map\<close>, \<open>History\<close>, \<open>Session_Log\<close>, \<open>Session_Lifecycle\<close>, \<open>Session_Removal\<close>: the segmented store as
    a log of events; creating, appending, reading with its two filters, deleting and listing.
  \<^item> \<open>State_Appends\<close>: an append with state deltas, that is the batch of \<open>append_event_record\<close> with its
    writes to the session, the app and the user: the store it leaves, and what \<open>get_session\<close> reads
    back, after one append and after a list of them.
  \<^item> \<open>Artifact_Service\<close>, \<open>Artifact_Proofs\<close>, \<open>Artifact_Contract\<close>: the artifact service and its specification, a
    counter with a finite map of versions per file (\<open>file_rep\<close>), which every method refines.
  \<^item> \<open>Concurrent_Saves\<close>: \<open>save_artifact\<close> cut into its two requests, any number of savers of one file, the
    invariant of all interleavings, and that the sequential definition runs this relation.
  \<^item> \<open>Request_Bounds\<close>: how many requests every method sends at most, by a client that counts them and the
    items in its answers.
  \<^item> \<open>Memory_Service\<close>, \<open>Memory_Words\<close>, \<open>Memory_Search\<close>, \<open>Memory_Contract\<close>, \<open>Memory_Purge\<close>: the memory service. Posting
    lists hold 2048 references and a search collects 512 candidates, the code's constants.
  \<^item> \<open>Concurrent_Postings\<close>: \<open>_append_posting_ref\<close> cut into its two requests, any number of callers on one
    posting list, the invariant of all interleavings, and that the sequential definition runs this relation.
  \<^item> \<open>Uri\<close>, \<open>Client\<close>, \<open>Service_Setup\<close>: URIs with the parts of \<open>urllib\<close> that are used, policies and
    configuration, the indexes, the constructors, \<open>from_uri\<close> and the registration.
  \<^item> \<open>Smoke_Test\<close>: \<^verbatim>\<open>examples/adk_samples_wiring.py\<close>, which drives all three services. On a reliable
    cluster a session is created, an event appended, read, indexed and found, and the session deleted.

  \<^bold>\<open>Not modelled.\<close> Log lines; \<open>asyncio.to_thread\<close>, whose only effect here is that requests of different
  callers interleave, which the three \<open>Concurrent\<close> theories treat; a failing import of an optional package;
  what \<open>urlsplit\<close> makes of brackets and of characters outside ASCII (an argument) and \<open>int\<close> of digits outside
  ASCII. Records hold values of the types the services write; what the code does with others is an
  exception of the model. Interleavings are proved for appends without state deltas, for saves to
  one file and for appends to one posting list; other methods are proved for one caller at a time, under faults. \<^verbatim>\<open>src/benchmarks\<close> and the
  other examples call the public methods and hold no logic of the package.
\<close>

end
